(* ===== verification/P2P_Prelude.thy ===== *)
theory P2P_Prelude
  imports Main "HOL-Library.Word" "HOL-Library.List_Lexorder" "HOL-Library.Monad_Syntax"
begin

text \<open>
  Shared vocabulary of the development: the machine integer types, byte strings (the contents of a
  \<open>std::string\<close> or of a \<open>std::vector<uint8_t>\<close>), the conversion between integers and their bytes in
  memory order and in network order, and the list lemmas that several components use.

  \<open>std::string\<close> compares by \<open>unsigned char\<close> values, lexicographically. The order of
  \<^theory_text>\<open>HOL-Library.List_Lexorder\<close> on lists of 8-bit words is that order.
\<close>

type_synonym u8 = "8 word"
type_synonym u16 = "16 word"
type_synonym u32 = "32 word"
type_synonym u64 = "64 word"
type_synonym bytes = "u8 list"

named_theorems wire \<open>rules that run a decoder over encoded bytes\<close>
named_theorems op_defs \<open>definitions of the tracker operations\<close>

text \<open>The bytes of a C string literal.\<close>

definition str :: "string \<Rightarrow> bytes" where
  "str s = map of_char s"

lemma str_Nil [simp]: "str [] = []"
  by (simp add: str_def)

lemma str_Cons [simp]: "str (c # s) = of_char c # str s"
  by (simp add: str_def)

lemma length_str [simp]: "length (str s) = length s"
  by (simp add: str_def)

section \<open>Integers as bytes\<close>

text \<open>\<open>nat_le n k\<close> are the \<open>n\<close> low bytes of \<open>k\<close>, least significant first.\<close>

fun nat_le :: "nat \<Rightarrow> nat \<Rightarrow> bytes" where
  "nat_le 0 k = []"
| "nat_le (Suc n) k = of_nat k # nat_le n (k div 256)"

fun le_nat :: "bytes \<Rightarrow> nat" where
  "le_nat [] = 0"
| "le_nat (b # bs) = unat b + 256 * le_nat bs"

lemma length_nat_le [simp]: "length (nat_le n k) = n"
  by (induction n arbitrary: k) auto

lemma nat_le_eq_Nil [simp]: "nat_le n k = [] \<longleftrightarrow> n = 0"
  by (cases n) auto

lemma unat_u8: "unat (b :: u8) < 256"
  using unsigned_less [of b] by simp

lemma unat_u16: "unat (x :: u16) < 65536"
  using unsigned_less [of x] by simp

lemma unat_u32: "unat (x :: u32) < 4294967296"
  using unsigned_less [of x] by simp

lemma unat_u64: "unat (x :: u64) < 18446744073709551616"
  using unsigned_less [of x] by simp

lemma unat_of_nat_u8: "unat (of_nat k :: u8) = k mod 256"
  by (simp add: unat_of_nat)

lemma le_nat_nat_le: "le_nat (nat_le n k) = k mod 256 ^ n"
proof (induction n arbitrary: k)
  case 0
  then show ?case by simp
next
  case (Suc n)
  have "le_nat (nat_le (Suc n) k) = k mod 256 + 256 * ((k div 256) mod 256 ^ n)"
    by (simp add: Suc.IH unat_of_nat_u8)
  also have "\<dots> = k mod (256 * 256 ^ n)"
    by (simp add: mod_mult2_eq)
  finally show ?case by simp
qed

lemma le_nat_less: "le_nat bs < 256 ^ length bs"
proof (induction bs)
  case Nil
  then show ?case by simp
next
  case (Cons b bs)
  have "unat b < 256" by (rule unat_u8)
  moreover have "le_nat bs + 1 \<le> 256 ^ length bs" using Cons.IH by simp
  then have "256 * (le_nat bs + 1) \<le> 256 * 256 ^ length bs" by (rule mult_le_mono2)
  ultimately show ?case by simp
qed

lemma nat_le_le_nat: "length bs = n \<Longrightarrow> nat_le n (le_nat bs) = bs"
proof (induction bs arbitrary: n)
  case Nil
  then show ?case by simp
next
  case (Cons b bs)
  have b: "unat b < 256" by (rule unat_u8)
  have "of_nat (unat b + 256 * le_nat bs) = (of_nat (unat b) :: u8) + 256 * of_nat (le_nat bs)"
    by (simp only: of_nat_add of_nat_mult of_nat_numeral)
  also have "(256 :: u8) = 0" by (rule word_unat_eq_iff [THEN iffD2]) simp
  finally have "of_nat (unat b + 256 * le_nat bs) = of_nat (unat b) + 0 * (of_nat (le_nat bs) :: u8)" .
  also have "\<dots> = b" by simp
  finally have "of_nat (unat b + 256 * le_nat bs) = b" .
  moreover have "(unat b + 256 * le_nat bs) div 256 = le_nat bs"
    using b by simp
  ultimately show ?case using Cons by auto
qed

text \<open>Network order is the reverse.\<close>

definition nat_be :: "nat \<Rightarrow> nat \<Rightarrow> bytes" where
  "nat_be n k = rev (nat_le n k)"

definition be_nat :: "bytes \<Rightarrow> nat" where
  "be_nat bs = le_nat (rev bs)"

lemma length_nat_be [simp]: "length (nat_be n k) = n"
  by (simp add: nat_be_def)

lemma be_nat_nat_be: "be_nat (nat_be n k) = k mod 256 ^ n"
  by (simp add: be_nat_def nat_be_def le_nat_nat_le)

lemma nat_be_be_nat: "length bs = n \<Longrightarrow> nat_be n (be_nat bs) = bs"
  by (simp add: be_nat_def nat_be_def nat_le_le_nat)

section \<open>List lemmas\<close>

lemma take_append_length [simp]: "take (length xs) (xs @ ys) = xs"
  by simp

lemma drop_append_length [simp]: "drop (length xs) (xs @ ys) = ys"
  by simp

lemma sorted_wrt_less_Cons_distinct:
  "sorted_wrt (<) (xs :: 'a :: linorder list) \<Longrightarrow> distinct xs"
  by (simp add: strict_sorted_iff)

end
