(* ===== verification/Work_Pool.thy ===== *)
theory Work_Pool
  imports P2P_Prelude
begin

text \<open>
  The worker pools of \<open>SHA1::hash_file\<close> (\<open>common/sha1.cpp\<close>) and \<open>PieceStore::resume_scan\<close>
  (\<open>client/piece_store.cpp\<close>): threads draw indices from one atomic \<open>uint32_t\<close> counter and each
  writes only the slot of the index it drew. \<open>job i\<close> is what the body does with index \<open>i\<close>: the value
  of slot \<open>i\<close>, or \<open>None\<close> where the body sets \<open>failed\<close> and returns. A schedule is the list of
  thread numbers in the order in which they execute their atomic steps, so that a statement about
  all schedules is one about all interleavings.
\<close>

datatype pool_worker = Ready | Busy u32 | Gone

record 'a work_pool =
  wp_next :: u32
  wp_failed :: bool
  wp_slots :: "'a list"
  wp_workers :: "pool_worker list"

definition pool_start :: "'a \<Rightarrow> nat \<Rightarrow> nat \<Rightarrow> 'a work_pool" where
  "pool_start v n nt = \<lparr>wp_next = 0, wp_failed = False, wp_slots = replicate n v, wp_workers = replicate nt Ready\<rparr>"

text \<open>\<open>for (i; !failed && (i = next.fetch_add(1)) < n;) slot[i] = body(i)\<close>, one thread's next step.\<close>

definition pool_step :: "(nat \<Rightarrow> 'a option) \<Rightarrow> nat \<Rightarrow> nat \<Rightarrow> 'a work_pool \<Rightarrow> 'a work_pool" where
  "pool_step job n t p =
     (if t < length (wp_workers p) then
        case wp_workers p ! t of
          Ready \<Rightarrow>
            if wp_failed p then p\<lparr>wp_workers := (wp_workers p)[t := Gone]\<rparr>
            else if unat (wp_next p) < n
            then p\<lparr>wp_next := wp_next p + 1, wp_workers := (wp_workers p)[t := Busy (wp_next p)]\<rparr>
            else p\<lparr>wp_next := wp_next p + 1, wp_workers := (wp_workers p)[t := Gone]\<rparr>
        | Busy i \<Rightarrow>
            (case job (unat i) of
               None \<Rightarrow> p\<lparr>wp_failed := True, wp_workers := (wp_workers p)[t := Gone]\<rparr>
             | Some v \<Rightarrow> p\<lparr>wp_slots := (wp_slots p)[unat i := v], wp_workers := (wp_workers p)[t := Ready]\<rparr>)
        | Gone \<Rightarrow> p
      else p)"

definition pool_run :: "(nat \<Rightarrow> 'a option) \<Rightarrow> nat \<Rightarrow> nat list \<Rightarrow> 'a work_pool \<Rightarrow> 'a work_pool" where
  "pool_run job n sched p = fold (pool_step job n) sched p"

text \<open>\<open>for (auto& t : pool) t.join()\<close> returns once every thread has left its loop.\<close>

definition pool_joined :: "'a work_pool \<Rightarrow> bool" where
  "pool_joined p = (\<forall>w \<in> set (wp_workers p). w = Gone)"

section \<open>The invariant\<close>

text \<open>
  The counter never wraps: it passes \<open>n\<close> once for each thread that leaves. An index below the counter
  is being worked on, or was refused by the body, or its slot holds the body's value.
\<close>

definition pool_ok :: "(nat \<Rightarrow> 'a option) \<Rightarrow> nat \<Rightarrow> 'a work_pool \<Rightarrow> bool" where
  "pool_ok job n p \<longleftrightarrow>
     n + length (wp_workers p) < 2 ^ 32 \<and> length (wp_slots p) = n \<and>
     unat (wp_next p) \<le> n + count_list (wp_workers p) Gone \<and>
     (\<forall>i. Busy i \<in> set (wp_workers p) \<longrightarrow> unat i < n) \<and>
     (\<not> wp_failed p \<longrightarrow> Gone \<in> set (wp_workers p) \<longrightarrow> n \<le> unat (wp_next p)) \<and>
     (wp_failed p \<longrightarrow> (\<exists>i < n. job i = None)) \<and>
     (\<forall>i < n. i < unat (wp_next p) \<longrightarrow>
        Busy (of_nat i) \<in> set (wp_workers p) \<or> wp_failed p \<or> job i = Some (wp_slots p ! i))"

lemma count_list_update:
  "t < length ws \<Longrightarrow> ws ! t \<noteq> w \<Longrightarrow> count_list (ws[t := w]) w = Suc (count_list ws w)"
  by (induction ws arbitrary: t) (auto simp: nth_Cons split: nat.splits)

lemma count_list_update_other:
  "t < length ws \<Longrightarrow> ws ! t \<noteq> x \<Longrightarrow> w \<noteq> x \<Longrightarrow> count_list (ws[t := w]) x = count_list ws x"
proof (induction ws arbitrary: t)
  case (Cons y ws)
  then show ?case by (cases t) simp_all
qed simp

lemma set_update_keep: "x \<in> set ws \<Longrightarrow> ws ! t \<noteq> x \<Longrightarrow> x \<in> set (ws[t := w])"
proof -
  assume x: "x \<in> set ws" "ws ! t \<noteq> x"
  then obtain k where "k < length ws" "ws ! k = x" by (auto simp: in_set_conv_nth)
  then have "k < length (ws[t := w]) \<and> ws[t := w] ! k = x" using x(2) by (cases "t = k") auto
  then show ?thesis by (metis nth_mem)
qed

lemma set_update_cases: "x \<in> set (ws[t := w]) \<Longrightarrow> x = w \<or> x \<in> set ws"
  using set_update_subset_insert [of ws t w] by auto

lemma pool_ok_start: "n + nt < 2 ^ 32 \<Longrightarrow> pool_ok job n (pool_start v n nt)"
  by (simp add: pool_ok_def pool_start_def)

lemma not_gone_count: "t < length ws \<Longrightarrow> ws ! t \<noteq> Gone \<Longrightarrow> count_list ws Gone < length ws"
  using count_list_update [of t ws Gone] count_le_length [of "ws[t := Gone]" Gone] by simp

lemma next_no_wrap:
  assumes "pool_ok job n p" and "t < length (wp_workers p)" and "wp_workers p ! t \<noteq> Gone"
  shows "unat (wp_next p + 1) = Suc (unat (wp_next p))"
proof -
  have "unat (wp_next p) + 1 < 2 ^ 32"
    using assms not_gone_count [OF assms(2,3)] by (simp add: pool_ok_def)
  then show ?thesis by (simp add: unat_word_ariths)
qed

lemma u32_of_nat_unat: "i < 2 ^ 32 \<Longrightarrow> unat (of_nat i :: u32) = i"
  by (simp add: unat_of_nat)

lemma pool_ok_take:
  assumes ok: "pool_ok job n p" and t: "t < length (wp_workers p)" "wp_workers p ! t = Ready"
    and lt: "unat (wp_next p) < n"
  shows "pool_ok job n (p\<lparr>wp_next := wp_next p + 1, wp_workers := (wp_workers p)[t := Busy (wp_next p)]\<rparr>)"
  using ok lt t next_no_wrap [OF ok t(1)] count_list_update_other [OF t(1), of Gone "Busy (wp_next p)"]
    set_update_memI [OF t(1), of "Busy (wp_next p)"]
  by (auto simp: pool_ok_def less_Suc_eq dest!: set_update_cases intro: set_update_keep)

lemma pool_ok_leave:
  assumes ok: "pool_ok job n p" and t: "t < length (wp_workers p)" "wp_workers p ! t = Ready"
    and lt: "\<not> unat (wp_next p) < n"
  shows "pool_ok job n (p\<lparr>wp_next := wp_next p + 1, wp_workers := (wp_workers p)[t := Gone]\<rparr>)"
  using ok lt t next_no_wrap [OF ok t(1)] count_list_update [OF t(1), of Gone]
  by (auto simp: pool_ok_def dest!: set_update_cases intro: set_update_keep)

lemma pool_ok_quit:
  assumes ok: "pool_ok job n p" and t: "t < length (wp_workers p)" "wp_workers p ! t = Ready"
    and f: "wp_failed p"
  shows "pool_ok job n (p\<lparr>wp_workers := (wp_workers p)[t := Gone]\<rparr>)"
  using ok t f count_list_update [OF t(1), of Gone]
  by (auto simp: pool_ok_def dest!: set_update_cases)

lemma pool_ok_fail:
  assumes ok: "pool_ok job n p" and t: "t < length (wp_workers p)" "wp_workers p ! t = Busy i"
    and f: "job (unat i) = None"
  shows "pool_ok job n (p\<lparr>wp_failed := True, wp_workers := (wp_workers p)[t := Gone]\<rparr>)"
proof -
  have "Busy i \<in> set (wp_workers p)" using t by (metis nth_mem)
  then have "unat i < n" using ok by (simp add: pool_ok_def)
  then show ?thesis
    using ok t f count_list_update [OF t(1), of Gone]
    by (auto simp: pool_ok_def dest!: set_update_cases)
qed

lemma pool_ok_store:
  assumes ok: "pool_ok job n p" and t: "t < length (wp_workers p)" "wp_workers p ! t = Busy i"
    and f: "job (unat i) = Some v"
  shows "pool_ok job n (p\<lparr>wp_slots := (wp_slots p)[unat i := v], wp_workers := (wp_workers p)[t := Ready]\<rparr>)"
    (is "pool_ok job n ?q")
proof -
  have "Busy i \<in> set (wp_workers p)" using t by (metis nth_mem)
  then have i: "unat i < n" using ok by (simp add: pool_ok_def)
  have "Busy (of_nat j) \<in> set (wp_workers ?q) \<or> wp_failed p \<or> job j = Some (wp_slots ?q ! j)"
    if j: "j < n" "j < unat (wp_next p)" for j
  proof (cases "j = unat i")
    case True
    then show ?thesis using f i ok by (simp add: pool_ok_def)
  next
    case False
    have "j < 2 ^ 32" using j ok by (simp add: pool_ok_def)
    then have "of_nat j \<noteq> i" using False u32_of_nat_unat by force
    then show ?thesis
      using j ok False t(2) by (auto simp: pool_ok_def intro: set_update_keep)
  qed
  then show ?thesis
    using ok t(1,2) count_list_update_other [OF t(1), of Gone Ready] nth_mem [OF t(1)]
    by (auto simp: pool_ok_def dest!: set_update_cases)
qed

lemma pool_ok_step: "pool_ok job n p \<Longrightarrow> pool_ok job n (pool_step job n t p)"
  by (auto simp: pool_step_def pool_ok_take pool_ok_leave pool_ok_quit pool_ok_fail pool_ok_store
      split: pool_worker.split option.split)

lemma pool_ok_run: "pool_ok job n p \<Longrightarrow> pool_ok job n (pool_run job n sched p)"
  unfolding pool_run_def by (induction sched arbitrary: p) (simp_all add: pool_ok_step)

section \<open>Any finished schedule computes all slots\<close>

lemma pool_workers_run [simp]: "length (wp_workers (pool_run job n sched p)) = length (wp_workers p)"
proof -
  have "length (wp_workers (pool_step job n t p)) = length (wp_workers p)" for t p
    by (auto simp: pool_step_def split: pool_worker.split option.split)
  then show ?thesis unfolding pool_run_def by (induction sched arbitrary: p) simp_all
qed

lemma pool_result:
  assumes "n + nt < 2 ^ 32" and "0 < nt" and "pool_joined (pool_run job n sched (pool_start v n nt))"
  shows "if wp_failed (pool_run job n sched (pool_start v n nt)) then \<exists>i < n. job i = None
         else map Some (wp_slots (pool_run job n sched (pool_start v n nt))) = map job [0..<n]"
proof -
  let ?q = "pool_run job n sched (pool_start v n nt)"
  have ok: "pool_ok job n ?q" using pool_ok_run [OF pool_ok_start [OF assms(1)]] .
  have "length (wp_workers ?q) = nt" by (simp add: pool_start_def)
  then have g: "Gone \<in> set (wp_workers ?q)"
    using assms(2,3) by (cases "wp_workers ?q") (auto simp: pool_joined_def)
  have nb: "Busy i \<notin> set (wp_workers ?q)" for i using assms(3) by (auto simp: pool_joined_def)
  show ?thesis
    using ok g nb by (auto simp: pool_ok_def list_eq_iff_nth_eq)
qed

text \<open>And every fair schedule finishes: \<open>2 n + 1\<close> steps of its own are enough for a thread.\<close>

definition pool_left :: "nat \<Rightarrow> 'a work_pool \<Rightarrow> nat \<Rightarrow> nat" where
  "pool_left n p t = (case wp_workers p ! t of
      Ready \<Rightarrow> 2 * (n - unat (wp_next p)) + 1 | Busy _ \<Rightarrow> 2 * (n - unat (wp_next p)) + 2 | Gone \<Rightarrow> 0)"

lemma pool_left_step:
  assumes "pool_ok job n p" and t: "t < length (wp_workers p)"
  shows "pool_left n (pool_step job n s p) t \<le> pool_left n p t - (if s = t then 1 else 0)"
proof (cases "s < length (wp_workers p)")
  case True
  then show ?thesis
    using next_no_wrap [OF assms(1) True] t
    by (cases "s = t")
      (auto simp: pool_left_def pool_step_def nth_list_update split: pool_worker.splits option.splits)
next
  case False
  then show ?thesis using t by (auto simp: pool_step_def)
qed

lemma pool_left_run:
  "pool_ok job n p \<Longrightarrow> t < length (wp_workers p) \<Longrightarrow>
   pool_left n (pool_run job n sched p) t \<le> pool_left n p t - count_list sched t"
proof (induction sched arbitrary: p)
  case (Cons s sched)
  have l: "length (wp_workers (pool_step job n s p)) = length (wp_workers p)"
    using pool_workers_run [of job n "[s]" p] by (simp add: pool_run_def)
  have "pool_left n (pool_run job n sched (pool_step job n s p)) t
      \<le> pool_left n (pool_step job n s p) t - count_list sched t"
    using Cons.IH [OF pool_ok_step [OF Cons.prems(1)]] Cons.prems(2) l by simp
  moreover have "pool_left n (pool_step job n s p) t \<le> pool_left n p t - (if s = t then 1 else 0)"
    using pool_left_step [OF Cons.prems] .
  ultimately show ?case by (auto simp: pool_run_def split: if_splits)
qed (simp add: pool_run_def)

lemma pool_finishes:
  assumes "n + nt < 2 ^ 32" and "\<forall>t < nt. 2 * n + 1 \<le> count_list sched t"
  shows "pool_joined (pool_run job n sched (pool_start v n nt))"
proof -
  let ?q = "pool_run job n sched (pool_start v n nt)"
  have "wp_workers ?q ! t = Gone" if "t < nt" for t
  proof -
    have "pool_left n ?q t = 0"
      using pool_left_run [OF pool_ok_start [OF assms(1), of job v], of t sched] assms(2) that
      by (fastforce simp: pool_start_def pool_left_def)
    then show ?thesis by (auto simp: pool_left_def split: pool_worker.splits)
  qed
  moreover have "length (wp_workers ?q) = nt" by (simp add: pool_start_def)
  ultimately show ?thesis by (simp add: pool_joined_def all_set_conv_all_nth)
qed

section \<open>The property of the pool\<close>

text \<open>C28. However the threads of a pool interleave, as long as each gets its turns, the pool ends with all threads joined and every
  slot holding the result of its own index: the parallel loop computes what the sequential loop over the indices would.\<close>

theorem pool_is_map:
  assumes "n + nt < 2 ^ 32" and "0 < nt" and "\<forall>t < nt. 2 * n + 1 \<le> count_list sched t"
  shows "pool_joined (pool_run (\<lambda>i. Some (f i)) n sched (pool_start v n nt)) \<and>
    wp_slots (pool_run (\<lambda>i. Some (f i)) n sched (pool_start v n nt)) = map f [0..<n]"
proof -
  let ?q = "pool_run (\<lambda>i. Some (f i)) n sched (pool_start v n nt)"
  have j: "pool_joined ?q" by (rule pool_finishes [OF assms(1,3)])
  from pool_result [OF assms(1,2) j] have "map Some (wp_slots ?q) = map Some (map f [0..<n])"
    by (simp add: comp_def split: if_splits)
  then show ?thesis using j by (metis inj_map_eq_map inj_Some)
qed

theorem pool_is_map_witness:
  "pool_joined (pool_run (\<lambda>i. Some (i * i)) 2 [0, 1, 1, 0, 0, 1, 0, 1, 1, 0] (pool_start 0 2 2)) \<and>
    wp_slots (pool_run (\<lambda>i. Some (i * i)) 2 [0, 1, 1, 0, 0, 1, 0, 1, 1, 0] (pool_start 0 2 2)) = map (\<lambda>i. i * i) [0..<2]"
  by (rule pool_is_map) (auto simp: less_2_cases_iff)

end
