(* ===== verification/Disk_IO.thy ===== *)
theory Disk_IO
  imports P2P_Prelude
begin

text \<open>
  Files as the client uses them: the loops around \<open>pread\<close> and \<open>pwrite\<close> of \<open>client/piece_store.cpp\<close> (and
  \<open>common/sha1.cpp\<close>) and \<open>ftruncate\<close>.

  A file is its contents (type \<open>disk\<close>). The kernel's answers to \<open>pread\<close> and \<open>pwrite\<close> are a script: at most so
  many bytes this time, or an error; past the end of the script a call moves all it is asked for.
\<close>

type_synonym disk = bytes

datatype io_ev = IoUpTo nat | IoError

section \<open>Reading and writing all of it\<close>

text \<open>How many bytes the kernel is ready to move, or \<open>None\<close> for -1.\<close>

fun io_count :: "io_ev list \<Rightarrow> nat \<Rightarrow> nat option" where
  "io_count [] n = Some n"
| "io_count (IoUpTo k # es) n = Some (min k n)"
| "io_count (IoError # es) n = None"

text \<open>The loop \<open>while (got < n) { k = pread(fd, &out[got], n - got, off + got); if (k <= 0) ...; got += k; }\<close>.\<close>

function pread_all :: "disk \<Rightarrow> nat \<Rightarrow> nat \<Rightarrow> io_ev list \<Rightarrow> bytes option" where
  "pread_all f off n es =
     (if n = 0 then Some []
      else case io_count es n of
          None \<Rightarrow> None
        | Some k \<Rightarrow>
            (let d = take k (drop off f) in
             if d = [] then None
             else map_option ((@) d) (pread_all f (off + length d) (n - length d) (tl es))))"
  by pat_completeness auto
termination
  by (relation "measure (\<lambda>(f, off, n, es). n)") (auto split: if_splits)

declare pread_all.simps [simp del]

text \<open>\<open>pwrite\<close> past the end of the file fills the gap with zeros.\<close>

definition disk_write :: "nat \<Rightarrow> bytes \<Rightarrow> disk \<Rightarrow> disk" where
  "disk_write off d f = take off (f @ replicate (off - length f) 0) @ d @ drop (off + length d) f"

function pwrite_all :: "bytes \<Rightarrow> nat \<Rightarrow> io_ev list \<Rightarrow> disk \<Rightarrow> bool \<times> disk" where
  "pwrite_all d off es f =
     (if d = [] then (True, f)
      else case io_count es (length d) of
          None \<Rightarrow> (False, f)
        | Some k \<Rightarrow>
            if k = 0 then (False, f)
            else pwrite_all (drop k d) (off + k) (tl es) (disk_write off (take k d) f))"
  by pat_completeness auto
termination
  by (relation "measure (\<lambda>(d, off, es, f). length d)") auto

declare pwrite_all.simps [simp del]

text \<open>\<open>ftruncate\<close> cuts the file or fills it up with zeros.\<close>

definition ftruncate :: "nat \<Rightarrow> disk \<Rightarrow> disk" where
  "ftruncate n f = take n f @ replicate (n - length f) 0"

section \<open>The loops over the kernel's answers\<close>

text \<open>A read that succeeds has read the bytes of the file, however they came.\<close>

lemma pread_all_some: "pread_all f off n es = Some d \<Longrightarrow> d = take n (drop off f) \<and> length d = n"
proof (induction f off n es arbitrary: d rule: pread_all.induct)
  case (1 f off n es)
  show ?case
  proof (cases "n = 0")
    case True
    then show ?thesis using "1.prems" by (simp add: pread_all.simps)
  next
    case False
    obtain k where k: "io_count es n = Some k"
      using "1.prems" False by (auto simp: pread_all.simps split: option.splits)
    let ?c = "take k (drop off f)"
    have kn: "k \<le> n" using k by (cases "(es, n)" rule: io_count.cases) auto
    obtain r where c: "?c \<noteq> []" and r: "pread_all f (off + length ?c) (n - length ?c) (tl es) = Some r"
      and d: "d = ?c @ r"
      using "1.prems" False k by (auto simp: pread_all.simps [of f off n es] Let_def split: if_splits)
    have IH: "r = take (n - length ?c) (drop (off + length ?c) f) \<and> length r = n - length ?c"
      using "1.IH" [OF False k refl c r] .
    have le: "length ?c \<le> n" using kn by simp
    have "take n (drop off f) = take (length ?c) (drop off f) @ take (n - length ?c) (drop (length ?c) (drop off f))"
      using take_add [of "length ?c" "n - length ?c" "drop off f"] le by simp
    also have "take (length ?c) (drop off f) = ?c" by (simp add: min_def)
    finally have "take n (drop off f) = d" using IH d by (simp add: add.commute)
    then show ?thesis using IH d le by (metis length_append le_add_diff_inverse)
  qed
qed

definition io_calm :: "io_ev list \<Rightarrow> bool" where
  "io_calm es = (\<forall>e \<in> set es. \<exists>k > 0. e = IoUpTo k)"

lemma io_count_calm: "io_calm es \<Longrightarrow> 0 < n \<Longrightarrow> \<exists>k. io_count es n = Some k \<and> 0 < k \<and> k \<le> n"
  by (cases "(es, n)" rule: io_count.cases) (auto simp: io_calm_def)

lemma io_calm_tl [simp]: "io_calm es \<Longrightarrow> io_calm (tl es)"
  by (cases es) (auto simp: io_calm_def)

lemma io_calm_Nil [simp]: "io_calm []"
  by (simp add: io_calm_def)

lemma pread_all_calm:
  "io_calm es \<Longrightarrow> off + n \<le> length f \<Longrightarrow> pread_all f off n es = Some (take n (drop off f))"
proof -
  assume a: "io_calm es" "off + n \<le> length f"
  have "pread_all f off n es \<noteq> None"
    using a
  proof (induction f off n es rule: pread_all.induct)
    case (1 f off n es)
    show ?case
    proof (cases "n = 0")
      case False
      obtain k where k: "io_count es n = Some k" "0 < k" "k \<le> n"
        using io_count_calm [OF "1.prems"(1)] False by blast
      let ?c = "take k (drop off f)"
      have c: "length ?c = k" using k(3) "1.prems"(2) by simp
      then have ne: "?c \<noteq> []" using k(2) by auto
      show ?thesis
        using "1.IH" [OF False k(1) refl ne] "1.prems" False k c ne
        by (auto simp: pread_all.simps [of f off n es] Let_def)
    qed (simp add: pread_all.simps)
  qed
  then show ?thesis using pread_all_some by fastforce
qed

text \<open>\<open>disk_write\<close> at an offset inside the file.\<close>

lemma length_disk_write: "off + length d \<le> length f \<Longrightarrow> length (disk_write off d f) = length f"
  by (simp add: disk_write_def)

lemma disk_write_in: "off \<le> length f \<Longrightarrow> disk_write off d f = take off f @ d @ drop (off + length d) f"
  by (simp add: disk_write_def)

lemma disk_write_Nil: "off \<le> length f \<Longrightarrow> disk_write off [] f = f"
  by (simp add: disk_write_in)

lemma disk_write_append:
  assumes "off + length (a @ b) \<le> length f"
  shows "disk_write (off + length a) b (disk_write off a f) = disk_write off (a @ b) f"
  using assms by (simp add: disk_write_in ac_simps)

lemma disk_slice_same:
  "off + length d \<le> length f \<Longrightarrow> take (length d) (drop off (disk_write off d f)) = d"
  by (simp add: disk_write_in)

lemma disk_slice_before:
  "off + length d \<le> length f \<Longrightarrow> j + n \<le> off \<Longrightarrow> take n (drop j (disk_write off d f)) = take n (drop j f)"
  by (simp add: disk_write_in drop_take)

lemma disk_slice_after:
  "off + length d \<le> length f \<Longrightarrow> off + length d \<le> j \<Longrightarrow> drop j (disk_write off d f) = drop j f"
  by (simp add: disk_write_in)

text \<open>A write that stops early has written a prefix; one that succeeds, everything.\<close>

lemma pwrite_all_prefix:
  "off + length d \<le> length f \<Longrightarrow> pwrite_all d off es f = (ok, f') \<Longrightarrow>
   \<exists>k \<le> length d. f' = disk_write off (take k d) f \<and> (ok \<longrightarrow> k = length d)"
proof (induction d off es f arbitrary: ok f' rule: pwrite_all.induct)
  case (1 d off es f)
  have nil: "f = disk_write off (take 0 d) f" using "1.prems"(1) by (simp add: disk_write_Nil)
  show ?case
  proof (cases "d = [] \<or> io_count es (length d) = None \<or> io_count es (length d) = Some 0")
    case True
    then have "f' = f" "ok \<longrightarrow> d = []"
      using "1.prems"(2) by (auto simp: pwrite_all.simps [of d off es f] split: if_splits)
    then show ?thesis using nil by (intro exI [of _ 0]) auto
  next
    case False
    then obtain k where k: "io_count es (length d) = Some k" "k \<noteq> 0" "d \<noteq> []" by auto
    have kd: "k \<le> length d" using k(1) by (cases "(es, length d)" rule: io_count.cases) auto
    let ?g = "disk_write off (take k d) f"
    have "pwrite_all (drop k d) (off + k) (tl es) ?g = (ok, f')"
      using "1.prems"(2) k by (simp add: pwrite_all.simps [of d off es f])
    moreover have "off + k + length (drop k d) \<le> length ?g"
      using "1.prems"(1) kd by (simp add: length_disk_write)
    ultimately obtain m where m: "m \<le> length (drop k d)"
        "f' = disk_write (off + k) (take m (drop k d)) ?g" "ok \<longrightarrow> m = length (drop k d)"
      using "1.IH" [OF k(3,1,2)] by blast
    have "disk_write (off + k) (take m (drop k d)) ?g = disk_write off (take k d @ take m (drop k d)) f"
      using disk_write_append [of off "take k d" "take m (drop k d)" f] "1.prems"(1) kd m(1) by simp
    also have "take k d @ take m (drop k d) = take (k + m) d" by (simp add: take_add)
    finally show ?thesis using m kd by (intro exI [of _ "k + m"]) auto
  qed
qed

lemma pwrite_all_calm: "io_calm es \<Longrightarrow> fst (pwrite_all d off es f)"
proof (induction d off es f rule: pwrite_all.induct)
  case (1 d off es f)
  show ?case
  proof (cases "d = []")
    case False
    then obtain k where "io_count es (length d) = Some k" "0 < k"
      using io_count_calm [OF "1.prems", of "length d"] by auto
    then show ?thesis
      using "1.IH" [of k] "1.prems" False by (simp add: pwrite_all.simps [of d off es f])
  qed (simp add: pwrite_all.simps)
qed

lemma ftruncate_same: "ftruncate (length f) f = f"
  by (simp add: ftruncate_def)

lemma length_ftruncate [simp]: "length (ftruncate n f) = n"
  by (simp add: ftruncate_def)

end
