(* ===== verification/Protocol.thy ===== *)
theory Protocol
  imports P2P_Prelude
begin

text \<open>
  \<open>common/protocol.hpp\<close>: the constants, opcodes, status codes and the message header that trackers and
  clients share, and \<open>status_str\<close> of \<open>common/net.cpp\<close>.
\<close>

definition PROTO_MAGIC :: u32 where
  "PROTO_MAGIC = 0x50325046"

definition PIECE_SIZE :: u32 where
  "PIECE_SIZE = 512 * 1024"

definition MAX_PAYLOAD :: u32 where
  "MAX_PAYLOAD = PIECE_SIZE + 8192"

definition SHA1_HEX_LEN :: u32 where
  "SHA1_HEX_LEN = 40"

lemma unat_PIECE_SIZE [simp]: "unat PIECE_SIZE = 524288"
  by (simp add: PIECE_SIZE_def)

lemma unat_MAX_PAYLOAD [simp]: "unat MAX_PAYLOAD = 532480"
  by (simp add: MAX_PAYLOAD_def PIECE_SIZE_def)

datatype msg_type =
    MSG_CREATE_USER | MSG_LOGIN | MSG_LOGOUT | MSG_CREATE_GROUP | MSG_JOIN_GROUP | MSG_LEAVE_GROUP
  | MSG_LIST_GROUPS | MSG_LIST_REQUESTS | MSG_ACCEPT_REQUEST | MSG_UPLOAD_FILE | MSG_LIST_FILES
  | MSG_GET_FILE_META | MSG_STOP_SHARE | MSG_HAVE_PIECES
  | MSG_RESPONSE
  | MSG_PIECE_REQUEST | MSG_PIECE_DATA | MSG_BITFIELD_REQUEST | MSG_BITFIELD_DATA
  | MSG_SYNC_OP | MSG_SYNC_ACK | MSG_SYNC_CATCHUP | MSG_SYNC_HELLO
  | MSG_SYNC_SNAPSHOT_REQUEST | MSG_SYNC_SNAPSHOT_DATA

fun msg_code :: "msg_type \<Rightarrow> u16" where
  "msg_code MSG_CREATE_USER = 0x0101"
| "msg_code MSG_LOGIN = 0x0102"
| "msg_code MSG_LOGOUT = 0x0103"
| "msg_code MSG_CREATE_GROUP = 0x0104"
| "msg_code MSG_JOIN_GROUP = 0x0105"
| "msg_code MSG_LEAVE_GROUP = 0x0106"
| "msg_code MSG_LIST_GROUPS = 0x0107"
| "msg_code MSG_LIST_REQUESTS = 0x0108"
| "msg_code MSG_ACCEPT_REQUEST = 0x0109"
| "msg_code MSG_UPLOAD_FILE = 0x010A"
| "msg_code MSG_LIST_FILES = 0x010B"
| "msg_code MSG_GET_FILE_META = 0x010C"
| "msg_code MSG_STOP_SHARE = 0x010D"
| "msg_code MSG_HAVE_PIECES = 0x010E"
| "msg_code MSG_RESPONSE = 0x0201"
| "msg_code MSG_PIECE_REQUEST = 0x0301"
| "msg_code MSG_PIECE_DATA = 0x0302"
| "msg_code MSG_BITFIELD_REQUEST = 0x0303"
| "msg_code MSG_BITFIELD_DATA = 0x0304"
| "msg_code MSG_SYNC_OP = 0x0401"
| "msg_code MSG_SYNC_ACK = 0x0402"
| "msg_code MSG_SYNC_CATCHUP = 0x0403"
| "msg_code MSG_SYNC_HELLO = 0x0404"
| "msg_code MSG_SYNC_SNAPSHOT_REQUEST = 0x0405"
| "msg_code MSG_SYNC_SNAPSHOT_DATA = 0x0406"

text \<open>
  A message carries its opcode as a number; a \<open>switch\<close> over it is a case distinction on the enumerator
  with that value, if there is one.
\<close>

definition all_msg_types :: "msg_type list" where
  "all_msg_types =
    [MSG_CREATE_USER, MSG_LOGIN, MSG_LOGOUT, MSG_CREATE_GROUP, MSG_JOIN_GROUP, MSG_LEAVE_GROUP,
     MSG_LIST_GROUPS, MSG_LIST_REQUESTS, MSG_ACCEPT_REQUEST, MSG_UPLOAD_FILE, MSG_LIST_FILES,
     MSG_GET_FILE_META, MSG_STOP_SHARE, MSG_HAVE_PIECES, MSG_RESPONSE, MSG_PIECE_REQUEST,
     MSG_PIECE_DATA, MSG_BITFIELD_REQUEST, MSG_BITFIELD_DATA, MSG_SYNC_OP, MSG_SYNC_ACK,
     MSG_SYNC_CATCHUP, MSG_SYNC_HELLO, MSG_SYNC_SNAPSHOT_REQUEST, MSG_SYNC_SNAPSHOT_DATA]"

definition msg_of :: "u16 \<Rightarrow> msg_type option" where
  "msg_of c = List.find (\<lambda>m. msg_code m = c) all_msg_types"

lemma msg_code_inj: "msg_code a = msg_code b \<longleftrightarrow> a = b"
  by (cases a; cases b; simp)

lemma msg_of_code [simp]: "msg_of (msg_code m) = Some m"
  by (cases m) (simp_all add: msg_of_def all_msg_types_def)

lemma msg_of_Some: "msg_of c = Some m \<longleftrightarrow> c = msg_code m"
proof
  assume "msg_of c = Some m"
  then show "c = msg_code m" by (auto simp: msg_of_def find_Some_iff)
qed simp

text \<open>Opcodes stay symbolic, so that \<open>msg_of_code\<close> resolves a \<open>switch\<close>.\<close>

declare msg_code.simps [simp del]

lemma msg_code_eq [simp]: "msg_code a = msg_code b \<longleftrightarrow> a = b"
  by (rule msg_code_inj)

datatype status =
    ST_OK | ST_ERR | ST_NOT_LOGGED_IN | ST_BAD_CREDENTIALS | ST_ALREADY_EXISTS | ST_NOT_FOUND
  | ST_NOT_OWNER | ST_NOT_MEMBER | ST_NOT_IMPLEMENTED | ST_MALFORMED

fun status_code :: "status \<Rightarrow> u16" where
  "status_code ST_OK = 0"
| "status_code ST_ERR = 1"
| "status_code ST_NOT_LOGGED_IN = 2"
| "status_code ST_BAD_CREDENTIALS = 3"
| "status_code ST_ALREADY_EXISTS = 4"
| "status_code ST_NOT_FOUND = 5"
| "status_code ST_NOT_OWNER = 6"
| "status_code ST_NOT_MEMBER = 7"
| "status_code ST_NOT_IMPLEMENTED = 8"
| "status_code ST_MALFORMED = 9"

lemma status_code_inj: "status_code a = status_code b \<longleftrightarrow> a = b"
  by (cases a; cases b; simp)

lemma status_code_eq_0 [simp]: "status_code s = 0 \<longleftrightarrow> s = ST_OK"
  by (cases s) simp_all

definition status_str :: "u16 \<Rightarrow> bytes" where
  "status_str s = str
    (if s = status_code ST_OK then ''OK''
     else if s = status_code ST_NOT_LOGGED_IN then ''not logged in''
     else if s = status_code ST_BAD_CREDENTIALS then ''invalid credentials''
     else if s = status_code ST_ALREADY_EXISTS then ''already exists''
     else if s = status_code ST_NOT_FOUND then ''not found''
     else if s = status_code ST_NOT_OWNER then ''not the group owner''
     else if s = status_code ST_NOT_MEMBER then ''not a member of this group''
     else if s = status_code ST_NOT_IMPLEMENTED then ''not implemented''
     else if s = status_code ST_MALFORMED then ''malformed request''
     else ''error'')"

record msg_header =
  h_magic :: u32
  h_type :: u16
  h_status :: u16
  h_length :: u32

end
