(* ===== verification/Sha1.thy ===== *)
theory Sha1
  imports P2P_Prelude
begin

text \<open>
  \<open>common/sha1.cpp\<close>: the class \<open>SHA1\<close> (\<open>rol\<close>, \<open>reset\<close>, \<open>transform\<close>, \<open>update\<close>, \<open>final_hex\<close>,
  \<open>hash_buffer\<close>). The 64-byte block buffer is the list of its used bytes, so that \<open>buf_used_\<close> is its length.

  The second half states SHA-1 as RFC 3174 does (padded message, blocks, the recursive message schedule) and
  shows that the streaming class computes it, whatever pieces the data comes in.
\<close>

unbundle bit_operations_syntax

section \<open>The class\<close>

definition rol :: "u32 \<Rightarrow> nat \<Rightarrow> u32" where
  "rol v b = push_bit b v OR drop_bit (32 - b) v"

type_synonym sha_regs = "u32 \<times> u32 \<times> u32 \<times> u32 \<times> u32"

record sha1 =
  sha_h :: sha_regs
  sha_buf :: bytes
  sha_total_bits :: u64

definition sha1_reset :: sha1 where
  "sha1_reset =
    \<lparr>sha_h = (0x67452301, 0xEFCDAB89, 0x98BADCFE, 0x10325476, 0xC3D2E1F0),
     sha_buf = [], sha_total_bits = 0\<rparr>"

definition be_word_at :: "bytes \<Rightarrow> nat \<Rightarrow> u32" where
  "be_word_at p i =
    push_bit 24 (ucast (p ! (4 * i))) OR push_bit 16 (ucast (p ! (4 * i + 1))) OR
    push_bit 8 (ucast (p ! (4 * i + 2))) OR ucast (p ! (4 * i + 3))"

definition sha_schedule :: "bytes \<Rightarrow> u32 list" where
  "sha_schedule p =
    fold (\<lambda>i w. w @ [rol (w ! (i - 3) XOR w ! (i - 8) XOR w ! (i - 14) XOR w ! (i - 16)) 1])
      [16..<80] (map (be_word_at p) [0..<16])"

fun sha_round :: "u32 list \<Rightarrow> nat \<Rightarrow> sha_regs \<Rightarrow> sha_regs" where
  "sha_round w i (a, b, c, d, e) =
    (let (f, k) =
       (if i < 20 then ((b AND c) OR (NOT b AND d), 0x5A827999)
        else if i < 40 then (b XOR c XOR d, 0x6ED9EBA1)
        else if i < 60 then ((b AND c) OR (b AND d) OR (c AND d), 0x8F1BBCDC)
        else (b XOR c XOR d, 0xCA62C1D6));
         t = rol a 5 + f + e + k + w ! i
     in (t, a, rol b 30, c, d))"

fun add_regs :: "sha_regs \<Rightarrow> sha_regs \<Rightarrow> sha_regs" where
  "add_regs (a, b, c, d, e) (a', b', c', d', e') = (a + a', b + b', c + c', d + d', e + e')"

definition sha_transform :: "bytes \<Rightarrow> sha_regs \<Rightarrow> sha_regs" where
  "sha_transform p h = add_regs h (fold (sha_round (sha_schedule p)) [0..<80] h)"

text \<open>
  The loop of \<open>update\<close>. Between calls \<open>buf_used_\<close> is below 64 (\<open>sha_ok\<close>); the second test only makes the
  recursion total.
\<close>

function sha_absorb :: "bytes \<Rightarrow> sha1 \<Rightarrow> sha1" where
  "sha_absorb d s =
    (if d = [] \<or> 64 < length (sha_buf s) then s
     else (let tk = min (64 - length (sha_buf s)) (length d);
               b = sha_buf s @ take tk d
           in sha_absorb (drop tk d)
                (if length b = 64 then s\<lparr>sha_h := sha_transform b (sha_h s), sha_buf := []\<rparr>
                 else s\<lparr>sha_buf := b\<rparr>)))"
  by pat_completeness auto
termination
  by (relation "measures [\<lambda>(d, s). length d, \<lambda>(d, s). length (sha_buf s)]") (auto simp: Let_def)

definition sha_update :: "bytes \<Rightarrow> sha1 \<Rightarrow> sha1" where
  "sha_update d s = sha_absorb d (s\<lparr>sha_total_bits := sha_total_bits s + of_nat (length d) * 8\<rparr>)"

text \<open>The loop \<open>while (buf_used_ != 56) update(&zero, 1)\<close>, with the same totality test.\<close>

declare sha_absorb.simps [simp del]

lemma sha_absorb_one: "length (sha_buf s) < 64 \<Longrightarrow>
    sha_absorb [x] s =
      (if length (sha_buf s) = 63
       then s\<lparr>sha_h := sha_transform (sha_buf s @ [x]) (sha_h s), sha_buf := []\<rparr>
       else s\<lparr>sha_buf := sha_buf s @ [x]\<rparr>)"
  by (subst sha_absorb.simps) (auto simp: Let_def sha_absorb.simps [of "[]"])

function sha_zeros :: "sha1 \<Rightarrow> sha1" where
  "sha_zeros s =
    (if length (sha_buf s) = 56 \<or> 64 \<le> length (sha_buf s) then s else sha_zeros (sha_update [0] s))"
  by pat_completeness auto
termination
  by (relation "measure (\<lambda>s. (120 - length (sha_buf s)) mod 64)")
    (auto simp: sha_update_def sha_absorb_one mod_if)

declare sha_zeros.simps [simp del]

definition hex_digit :: "u32 \<Rightarrow> u8" where
  "hex_digit n = (if n < 10 then 48 + ucast n else 87 + ucast n)"

definition hex8 :: "u32 \<Rightarrow> bytes" where
  "hex8 v = map (\<lambda>i. hex_digit (drop_bit (28 - 4 * i) v AND 15)) [0..<8]"

fun hex_regs :: "sha_regs \<Rightarrow> bytes" where
  "hex_regs (a, b, c, d, e) = hex8 a @ hex8 b @ hex8 c @ hex8 d @ hex8 e"

definition sha_final_hex :: "sha1 \<Rightarrow> bytes" where
  "sha_final_hex s =
    (let bits = sha_total_bits s;
         z = sha_zeros (sha_update [0x80] s);
         len = map (\<lambda>i. ucast (drop_bit (56 - 8 * i) bits AND 0xFF)) [0..<8]
     in hex_regs (sha_transform (sha_buf z @ len) (sha_h z)))"

definition hash_buffer :: "bytes \<Rightarrow> bytes" where
  "hash_buffer d = sha_final_hex (sha_update d sha1_reset)"

lemma rol_word_rotl:
  assumes b: "0 < b" "b < 32"
  shows "rol v b = word_rotl b v"
proof (rule bit_word_eqI)
  fix n assume "n < LENGTH(32)"
  then have n: "n < 32" by simp
  have e: "(n + (32 - b)) mod 32 = (if b \<le> n then n - b else n + (32 - b))"
  proof (cases "b \<le> n")
    case True
    then have "n + (32 - b) = (n - b) + 32" using b by simp
    then have "(n + (32 - b)) mod 32 = (n - b) mod 32" by (simp only: mod_add_self2)
    then show ?thesis using True n by simp
  qed (use b n in simp)
  have z: "b \<le> n \<Longrightarrow> \<not> bit v (n + (32 - b))"
    using bit_imp_le_length [of v "n + (32 - b)"] b by auto
  have "bit (word_rotl b v) n = bit v ((n + (32 - b)) mod 32)"
    using b n by (simp add: bit_word_rotl_iff)
  also have "\<dots> = bit (rol v b) n"
    using z n by (auto simp: e rol_def bit_or_iff bit_push_bit_iff bit_drop_bit_eq add.commute)
  finally show "bit (rol v b) n = bit (word_rotl b v) n" ..
qed
section \<open>SHA-1 as in RFC 3174\<close>

definition rfc_pad :: "bytes \<Rightarrow> bytes" where
  "rfc_pad m =
    m @ [0x80] @ replicate ((119 - length m mod 64) mod 64) 0 @ nat_be 8 (8 * length m mod 2 ^ 64)"

fun rfc_W :: "bytes \<Rightarrow> nat \<Rightarrow> u32" where
  "rfc_W p t =
    (if t < 16 then be_word_at p t
     else word_rotl 1 (rfc_W p (t - 3) XOR rfc_W p (t - 8) XOR rfc_W p (t - 14) XOR rfc_W p (t - 16)))"

definition rfc_f :: "nat \<Rightarrow> u32 \<Rightarrow> u32 \<Rightarrow> u32 \<Rightarrow> u32" where
  "rfc_f t b c d =
    (if t < 20 then (b AND c) OR (NOT b AND d)
     else if t < 40 then b XOR c XOR d
     else if t < 60 then (b AND c) OR (b AND d) OR (c AND d)
     else b XOR c XOR d)"

definition rfc_K :: "nat \<Rightarrow> u32" where
  "rfc_K t =
    (if t < 20 then 0x5A827999 else if t < 40 then 0x6ED9EBA1
     else if t < 60 then 0x8F1BBCDC else 0xCA62C1D6)"

primrec rfc_rounds :: "bytes \<Rightarrow> nat \<Rightarrow> sha_regs \<Rightarrow> sha_regs" where
  "rfc_rounds p 0 h = h"
| "rfc_rounds p (Suc t) h =
    (case rfc_rounds p t h of (a, b, c, d, e) \<Rightarrow>
       (word_rotl 5 a + rfc_f t b c d + e + rfc_W p t + rfc_K t, a, word_rotl 30 b, c, d))"

definition rfc_block :: "bytes \<Rightarrow> sha_regs \<Rightarrow> sha_regs" where
  "rfc_block p h = add_regs h (rfc_rounds p 80 h)"

function fold_blocks :: "(bytes \<Rightarrow> 'r \<Rightarrow> 'r) \<Rightarrow> bytes \<Rightarrow> 'r \<Rightarrow> 'r" where
  "fold_blocks f xs h = (if length xs < 64 then h else fold_blocks f (drop 64 xs) (f (take 64 xs) h))"
  by pat_completeness auto
termination
  by (relation "measure (\<lambda>(f, xs, h). length xs)") auto

definition rfc_sha1 :: "bytes \<Rightarrow> bytes" where
  "rfc_sha1 m = hex_regs (fold_blocks rfc_block (rfc_pad m)
      (0x67452301, 0xEFCDAB89, 0x98BADCFE, 0x10325476, 0xC3D2E1F0))"

declare fold_blocks.simps [simp del] rfc_W.simps [simp del]

lemma schedule_rfc: "sha_schedule p = map (rfc_W p) [0..<80]"
proof -
  define step where
    "step i w = w @ [rol (w ! (i - 3) XOR w ! (i - 8) XOR w ! (i - 14) XOR w ! (i - 16)) 1]" for i w
  define init where "init = map (be_word_at p) [0..<16]"
  have "fold step [16..<16 + k] init = map (rfc_W p) [0..<16 + k]" for k
  proof (induction k)
    case 0
    show ?case by (simp add: rfc_W.simps init_def)
  next
    case (Suc k)
    have w: "map (rfc_W p) [0..<16 + k] ! (16 + k - j) = rfc_W p (16 + k - j)"
      if "0 < j" "j \<le> 16" for j
      using that by (subst nth_map) (auto simp: nth_upt)
    have "rfc_W p (16 + k) = rol (rfc_W p (16 + k - 3) XOR rfc_W p (16 + k - 8) XOR
        rfc_W p (16 + k - 14) XOR rfc_W p (16 + k - 16)) 1"
      by (subst rfc_W.simps) (simp add: rol_word_rotl)
    then have s: "step (16 + k) (map (rfc_W p) [0..<16 + k]) = map (rfc_W p) [0..<16 + k] @ [rfc_W p (16 + k)]"
      by (simp only: step_def w [of 3] w [of 8] w [of 14] w [of 16] zero_less_numeral order_refl
          numeral_le_iff semiring_norm)
    have u: "[16..<16 + Suc k] = [16..<16 + k] @ [16 + k]" "[0..<16 + Suc k] = [0..<16 + k] @ [16 + k]"
      by (simp_all only: add_Suc_right upt_Suc_append le_add1 le0)
    show ?case by (simp only: u fold_append comp_apply Suc.IH s fold.simps id_apply map_append list.map)
  qed
  from this [of 64] show ?thesis
    by (simp add: sha_schedule_def step_def [abs_def] init_def del: upt_rec_numeral)
qed

lemma rounds_rfc: "n \<le> 80 \<Longrightarrow> fold (sha_round (sha_schedule p)) [0..<n] h = rfc_rounds p n h"
proof (induction n)
  case (Suc n)
  then have IH: "fold (sha_round (sha_schedule p)) [0..<n] h = rfc_rounds p n h" and n: "n < 80"
    by auto
  have w: "sha_schedule p ! n = rfc_W p n" using n by (simp add: schedule_rfc del: upt_rec_numeral)
  obtain a b c d e where r: "rfc_rounds p n h = (a, b, c, d, e)"
    by (cases "rfc_rounds p n h")
  show ?case
    using IH r w by (auto simp: rfc_f_def rfc_K_def rol_word_rotl Let_def ac_simps)
qed simp

lemma transform_rfc: "sha_transform p h = rfc_block p h"
  by (simp add: sha_transform_def rfc_block_def rounds_rfc del: upt_rec_numeral)

section \<open>Streaming\<close>

definition leftover :: "bytes \<Rightarrow> bytes" where
  "leftover xs = drop (64 * (length xs div 64)) xs"

lemma leftover_short [simp]: "length xs < 64 \<Longrightarrow> leftover xs = xs"
  by (simp add: leftover_def)

lemma leftover_drop: "64 \<le> length xs \<Longrightarrow> leftover (drop 64 xs) = leftover xs"
proof -
  assume "64 \<le> length xs"
  then obtain k where "length xs = 64 + k" using le_Suc_ex by blast
  moreover have "(64 + k) div 64 = Suc (k div 64)" using div_add_self1 [of 64 k] by simp
  ultimately show ?thesis by (simp add: leftover_def add.commute)
qed

lemma length_leftover: "length (leftover xs) = length xs mod 64"
  by (simp add: leftover_def minus_mult_div_eq_mod)

lemma fold_blocks_append:
  "fold_blocks f (xs @ ys) h = fold_blocks f (leftover xs @ ys) (fold_blocks f xs h)"
proof (induction f xs h rule: fold_blocks.induct)
  case (1 f xs h)
  show ?case
  proof (cases "length xs < 64")
    case True
    then show ?thesis by (simp add: fold_blocks.simps [of f xs h])
  next
    case False
    have "fold_blocks f (xs @ ys) h = fold_blocks f (drop 64 xs @ ys) (f (take 64 xs) h)"
      using False by (simp add: fold_blocks.simps [of f "xs @ ys" h])
    also have "\<dots> = fold_blocks f (leftover (drop 64 xs) @ ys) (fold_blocks f (drop 64 xs) (f (take 64 xs) h))"
      by (rule "1.IH" [OF False])
    also have "\<dots> = fold_blocks f (leftover xs @ ys) (fold_blocks f xs h)"
      using False by (simp add: leftover_drop fold_blocks.simps [of f xs h])
    finally show ?thesis .
  qed
qed

lemma leftover_append: "leftover (leftover xs @ ys) = leftover (xs @ ys)"
proof -
  define k where "k = length xs div 64"
  have k: "64 * k \<le> length xs" by (simp add: k_def)
  then have "leftover xs @ ys = drop (64 * k) (xs @ ys)" by (simp add: leftover_def k_def)
  moreover have "64 * k \<le> length (xs @ ys)" using k by simp
  moreover have "leftover (drop (64 * k) zs) = leftover zs" if "64 * k \<le> length zs" for zs
    using that
  proof (induction k arbitrary: zs)
    case (Suc k)
    then have "leftover (drop (64 * k) (drop 64 zs)) = leftover (drop 64 zs)"
      by (intro Suc.IH) simp
    moreover have "drop (64 * Suc k) zs = drop (64 * k) (drop 64 zs)" by (simp add: add.commute)
    ultimately show ?case using Suc.prems by (simp only: leftover_drop mult_Suc_right add_leD1)
  qed simp
  ultimately show ?thesis by metis
qed

definition sha_ok :: "sha1 \<Rightarrow> bool" where
  "sha_ok s = (length (sha_buf s) < 64)"

lemma sha_absorb_eq: "sha_ok s \<Longrightarrow> sha_absorb d s =
    s\<lparr>sha_h := fold_blocks sha_transform (sha_buf s @ d) (sha_h s), sha_buf := leftover (sha_buf s @ d)\<rparr>"
proof (induction d s rule: sha_absorb.induct)
  case (1 d s)
  then have ok: "length (sha_buf s) < 64" by (simp add: sha_ok_def)
  show ?case
  proof (cases "length (sha_buf s @ d) < 64")
    case True
    then show ?thesis
      by (simp add: sha_absorb.simps [of d s] sha_absorb.simps [of "[]"] fold_blocks.simps Let_def)
  next
    case False
    let ?tk = "64 - length (sha_buf s)"
    let ?b = "sha_buf s @ take ?tk d"
    have tk: "min ?tk (length d) = ?tk" and b: "length ?b = 64" and d: "d \<noteq> []"
      using False ok by auto
    have "sha_absorb d s =
        sha_absorb (drop ?tk d) (s\<lparr>sha_h := sha_transform ?b (sha_h s), sha_buf := []\<rparr>)"
      using ok tk b d by (subst sha_absorb.simps) (simp add: Let_def)
    also have "\<dots> = s\<lparr>sha_h := fold_blocks sha_transform (drop ?tk d) (sha_transform ?b (sha_h s)),
        sha_buf := leftover (drop ?tk d)\<rparr>"
      using "1.IH" [of ?tk ?b] ok tk b d by (simp add: sha_ok_def)
    also have "\<dots> = s\<lparr>sha_h := fold_blocks sha_transform (sha_buf s @ d) (sha_h s),
        sha_buf := leftover (sha_buf s @ d)\<rparr>"
      using False ok by (simp add: fold_blocks.simps [of _ "sha_buf s @ d"] leftover_drop [symmetric])
    finally show ?thesis .
  qed
qed

lemma sha_ok_update: "sha_ok s \<Longrightarrow> sha_ok (sha_update d s)"
  by (simp add: sha_update_def sha_absorb_eq sha_ok_def length_leftover)

lemma sha_update_view:
  assumes "sha_ok s"
  shows "sha_h (sha_update d s) = fold_blocks sha_transform (sha_buf s @ d) (sha_h s)"
    and "sha_buf (sha_update d s) = leftover (sha_buf s @ d)"
    and "sha_total_bits (sha_update d s) = sha_total_bits s + of_nat (length d) * 8"
  using assms by (simp_all add: sha_update_def sha_absorb_eq sha_ok_def)

lemma sha_update_append: "sha_ok s \<Longrightarrow> sha_update y (sha_update x s) = sha_update (x @ y) s"
  using sha_ok_update [of s x]
  by (simp add: sha_update_def sha_absorb_eq sha_ok_def leftover_append algebra_simps
      fold_blocks_append [of _ "sha_buf s @ x" y, simplified])

section \<open>The digest\<close>

lemma nat_le_conv: "nat_le n k = map (\<lambda>i. of_nat (k div 256 ^ i)) [0..<n]"
proof (induction n arbitrary: k)
  case (Suc n)
  show ?case
    by (simp add: Suc.IH upt_conv_Cons map_Suc_upt [symmetric] div_mult2_eq del: upt_Suc)
qed simp

lemma length_bytes: "map (\<lambda>i. ucast (drop_bit (56 - 8 * i) bits AND 0xFF) :: u8) [0..<8] = nat_be 8 (unat (bits :: u64))"
proof -
  have "(ucast (drop_bit j bits AND 0xFF) :: u8) = of_nat (unat bits div 2 ^ j)" for j
  proof (rule word_unat_eq_iff [THEN iffD2])
    have "drop_bit j bits AND 0xFF = take_bit 8 (drop_bit j bits)"
      by (simp only: take_bit_eq_mask mask_eq_exp_minus_1) simp
    then have "unat (drop_bit j bits AND 0xFF) = take_bit 8 (unat (drop_bit j bits))"
      by (simp only: unsigned_take_bit_eq)
    moreover have "unat (drop_bit j bits) = unat bits div 2 ^ j"
      by (simp only: unat_drop_bit_eq) (simp only: drop_bit_eq_div)
    ultimately have "unat (drop_bit j bits AND 0xFF) = unat bits div 2 ^ j mod 2 ^ 8"
      by (simp only: take_bit_eq_mod)
    then show "unat (ucast (drop_bit j bits AND 0xFF) :: u8) = unat (of_nat (unat bits div 2 ^ j) :: u8)"
      by (simp only: unat_of_nat unsigned_ucast_eq take_bit_eq_mod) simp
  qed
  moreover have "[0..<8] = [0, 1, 2, 3, 4, 5, 6, 7 :: nat]" by (simp add: upt_rec)
  ultimately show ?thesis by (simp add: nat_be_def nat_le_conv)
qed

lemma pad_count_step:
  assumes "n < 64" "n \<noteq> 56"
  shows "(120 - n) mod 64 = Suc ((120 - (n + 1) mod 64) mod (64::nat))"
proof -
  consider (a) k where "n + k = 55" | (b) k where "n + k = 62" "k < 6" | (c) "n = 63"
    using assms that(1)[of "55 - n"] that(2)[of "62 - n"] by fastforce
  then show ?thesis
  proof cases
    case (a k)
    then have "120 - n = 64 + Suc k" "120 - (n + 1) = 64 + k" "(n + 1) mod 64 = n + 1" "Suc k < 64" by auto
    then show ?thesis by (simp only: mod_add_self1) simp
  next
    case (b k)
    then have "120 - n = 58 + k" "120 - (n + 1) = 57 + k" "(n + 1) mod 64 = n + 1" by auto
    then show ?thesis using b(2) by (simp only:) simp
  qed simp
qed

lemma sha_zeros_view:
  "sha_ok s \<Longrightarrow>
    sha_h (sha_zeros s) = fold_blocks sha_transform
      (sha_buf s @ replicate ((120 - length (sha_buf s)) mod 64) 0) (sha_h s) \<and>
    sha_buf (sha_zeros s) = leftover (sha_buf s @ replicate ((120 - length (sha_buf s)) mod 64) 0) \<and>
    length (sha_buf (sha_zeros s)) = 56"
proof (induction s rule: sha_zeros.induct)
  case (1 s)
  let ?n = "length (sha_buf s)"
  have n: "?n < 64" using "1.prems" by (simp add: sha_ok_def)
  show ?case
  proof (cases "?n = 56")
    case True
    then show ?thesis by (simp add: sha_zeros.simps fold_blocks.simps)
  next
    case False
    define t where "t = sha_update [0] s"
    have t: "sha_ok t" using sha_ok_update "1.prems" by (simp add: t_def)
    have view: "sha_h t = fold_blocks sha_transform (sha_buf s @ [0]) (sha_h s)"
      "sha_buf t = leftover (sha_buf s @ [0])"
      using sha_update_view [OF "1.prems"] by (simp_all add: t_def)
    have len: "length (sha_buf t) = (?n + 1) mod 64" by (simp add: view length_leftover)
    have m: "(120 - ?n) mod 64 = Suc ((120 - length (sha_buf t)) mod 64)"
      unfolding len by (rule pad_count_step [OF n False])
    let ?z = "replicate ((120 - length (sha_buf t)) mod 64) 0"
    have z: "replicate ((120 - ?n) mod 64) 0 = [0] @ ?z" by (simp add: m)
    have IH: "sha_h (sha_zeros t) = fold_blocks sha_transform (sha_buf t @ ?z) (sha_h t)"
      "sha_buf (sha_zeros t) = leftover (sha_buf t @ ?z)" "length (sha_buf (sha_zeros t)) = 56"
      using "1.IH" t False n by (auto simp: t_def)
    have st: "sha_zeros s = sha_zeros t"
      using False n by (subst sha_zeros.simps) (simp add: t_def)
    show ?thesis
      using IH(3) by (simp only: st z IH(1,2) view fold_blocks_append [symmetric] leftover_append
          append_assoc simp_thms)
  qed
qed

lemma hash_buffer_rfc: "hash_buffer d = rfc_sha1 d"
proof -
  define f where "f = fold_blocks sha_transform"
  define iv where "iv = sha_h sha1_reset"
  define s where "s = sha_update [0x80] (sha_update d sha1_reset)"
  have ok0: "sha_ok sha1_reset" by (simp add: sha_ok_def sha1_reset_def)
  have s: "s = sha_update (d @ [0x80]) sha1_reset"
    by (simp add: s_def sha_update_append [OF ok0])
  have v: "sha_h s = f (d @ [0x80]) iv" "sha_buf s = leftover (d @ [0x80])"
    using sha_update_view [OF ok0] by (simp_all add: s sha1_reset_def iv_def f_def)
  have ok: "sha_ok s" by (simp add: s sha_ok_update ok0)
  have n: "(120 - length (sha_buf s)) mod 64 = (119 - length d mod 64) mod 64"
    by (simp add: v length_leftover mod_Suc)
  define z where "z = replicate ((119 - length d mod 64) mod 64) (0 :: u8)"
  have zv: "sha_h (sha_zeros s) = f (d @ [0x80] @ z) iv"
    "sha_buf (sha_zeros s) = leftover (d @ [0x80] @ z)"
    using sha_zeros_view [OF ok, unfolded n, folded z_def]
    by (simp_all only: v f_def fold_blocks_append [symmetric] leftover_append append_assoc simp_thms)
  have zlen: "length (sha_buf (sha_zeros s)) = 56" using sha_zeros_view [OF ok] by (elim conjE)
  define l where "l = nat_be 8 (8 * length d mod 2 ^ 64)"
  have bits: "sha_total_bits (sha_update d sha1_reset) = of_nat (8 * length d)"
    using sha_update_view(3) [OF ok0] by (simp add: sha1_reset_def mult.commute)
  have l8: "map (\<lambda>i. ucast (drop_bit (56 - 8 * i) (sha_total_bits (sha_update d sha1_reset)) AND 0xFF) :: u8)
      [0..<8] = l"
    unfolding length_bytes bits l_def by (simp only: unat_of_nat) simp
  have "hash_buffer d = hex_regs (sha_transform (sha_buf (sha_zeros s) @ l) (sha_h (sha_zeros s)))"
    by (simp only: hash_buffer_def sha_final_hex_def Let_def l8 s_def [symmetric])
  also have "sha_transform (sha_buf (sha_zeros s) @ l) (sha_h (sha_zeros s)) =
      f (sha_buf (sha_zeros s) @ l) (sha_h (sha_zeros s))"
    using zlen by (simp add: f_def fold_blocks.simps l_def)
  also have "\<dots> = f (d @ [0x80] @ z @ l) iv"
    using fold_blocks_append [of sha_transform "d @ [0x80] @ z" l iv] by (simp add: zv(1,2) f_def)
  finally show ?thesis
    by (simp add: rfc_sha1_def rfc_pad_def z_def l_def f_def iv_def sha1_reset_def
        transform_rfc [abs_def])
qed

lemma length_hex_regs [simp]: "length (hex_regs r) = 40"
  by (cases r) (simp add: hex8_def)

lemma length_hash_buffer [simp]: "length (hash_buffer d) = 40"
  by (simp add: hash_buffer_def sha_final_hex_def Let_def)

section \<open>The properties of the hash\<close>

text \<open>C25. The optimised SHA-1 of the program (a buffered block loop, in-place message schedule, hexadecimal output) computes the
  hash function of RFC 3174 in lower-case hexadecimal, for every input.\<close>

theorem hash_is_sha1: "hash_buffer d = rfc_sha1 d"
  by (rule hash_buffer_rfc)

text \<open>Feeding the input in pieces of any sizes leaves the hash object in the same state as feeding it at once.\<close>

lemma hash_is_streaming: "fold sha_update ds sha1_reset = sha_update (concat ds) sha1_reset"
proof (induction ds rule: rev_induct)
  case Nil
  show ?case by (simp add: sha_update_def sha_absorb.simps)
next
  case (snoc d ds)
  have "sha_ok sha1_reset" by (simp add: sha_ok_def sha1_reset_def)
  then show ?case using snoc by (simp add: sha_update_append)
qed

end
