(* ===== verification/Piece_Store.thy ===== *)
theory Piece_Store
  imports Work_Pool Disk_IO Protocol Sha1
begin

unbundle bit_operations_syntax

text \<open>
  \<open>client/piece_store.hpp\<close> and \<open>client/piece_store.cpp\<close>: the class \<open>PieceStore\<close>, a bitmap of verified pieces over a
  file that is read with \<open>pread\<close> and written with \<open>pwrite\<close>.

  The file the descriptor refers to is an argument of its own, since the file outlives the object and is shared
  with whatever else has it open. \<open>ps_fd\<close> says whether \<open>fd_\<close> is not negative. The bitmap is indexed with \<open>!\<close>,
  unspecified out of range as in the code; \<open>ps_ok\<close> keeps every access in range.
\<close>

section \<open>The bitmap\<close>

definition bitmap_bytes :: "u32 \<Rightarrow> u32" where
  "bitmap_bytes n = (n + 7) div 8"

text \<open>\<open>have_[i / 8] & (0x80u >> (i % 8))\<close> and \<open>have_[i / 8] |= (0x80u >> (i % 8))\<close>.\<close>

definition bit_of :: "bytes \<Rightarrow> nat \<Rightarrow> bool" where
  "bit_of bits i = (bits ! (i div 8) AND drop_bit (i mod 8) 0x80 \<noteq> 0)"

definition mark :: "nat \<Rightarrow> bytes \<Rightarrow> bytes" where
  "mark i bits = bits[i div 8 := bits ! (i div 8) OR drop_bit (i mod 8) 0x80]"

section \<open>The class\<close>

record piece_store =
  ps_fd :: bool
  ps_size :: u64
  ps_count :: u32
  ps_have :: bytes

definition ps_new :: piece_store where
  "ps_new = \<lparr>ps_fd = False, ps_size = 0, ps_count = 0, ps_have = []\<rparr>"

text \<open>\<open>opened\<close> is whether \<open>open\<close> succeeded, \<open>resized\<close> whether \<open>ftruncate\<close> did.\<close>

definition open_for_seed :: "bool \<Rightarrow> u64 \<Rightarrow> u32 \<Rightarrow> piece_store \<Rightarrow> bool \<times> piece_store" where
  "open_for_seed opened sz pc s =
     (if \<not> opened then (False, s\<lparr>ps_fd := False\<rparr>)
      else (True, \<lparr>ps_fd = True, ps_size = sz, ps_count = pc,
                   ps_have = replicate (unat (bitmap_bytes pc)) 0xFF\<rparr>))"

definition open_for_download ::
    "bool \<Rightarrow> bool \<Rightarrow> u64 \<Rightarrow> u32 \<Rightarrow> piece_store \<Rightarrow> disk \<Rightarrow> bool \<times> piece_store \<times> disk" where
  "open_for_download opened resized sz pc s f =
     (if \<not> opened then (False, s\<lparr>ps_fd := False\<rparr>, f)
      else if \<not> resized then (False, s\<lparr>ps_fd := False\<rparr>, f)
      else (True, \<lparr>ps_fd = True, ps_size = sz, ps_count = pc,
                   ps_have = replicate (unat (bitmap_bytes pc)) 0\<rparr>, ftruncate (unat sz) f))"

definition piece_len :: "piece_store \<Rightarrow> u32 \<Rightarrow> u32" where
  "piece_len s index =
     (if index + 1 < ps_count s then PIECE_SIZE
      else ucast (ps_size s - ucast index * ucast PIECE_SIZE))"

definition piece_off :: "u32 \<Rightarrow> nat" where
  "piece_off index = unat index * unat PIECE_SIZE"

definition read_piece :: "piece_store \<Rightarrow> u32 \<Rightarrow> io_ev list \<Rightarrow> disk \<Rightarrow> bytes option" where
  "read_piece s index es f =
     (if \<not> ps_fd s \<or> ps_count s \<le> index then None
      else if \<not> bit_of (ps_have s) (unat index) then None
      else pread_all f (piece_off index) (unat (piece_len s index)) es)"

definition write_piece ::
    "u32 \<Rightarrow> bytes \<Rightarrow> bytes \<Rightarrow> io_ev list \<Rightarrow> piece_store \<Rightarrow> disk \<Rightarrow> bool \<times> piece_store \<times> disk" where
  "write_piece index data expected_hash es s f =
     (if ps_count s \<le> index then (False, s, f)
      else if length data \<noteq> unat (piece_len s index) then (False, s, f)
      else if hash_buffer data \<noteq> expected_hash then (False, s, f)
      else if \<not> ps_fd s then (False, s, f)
      else case pwrite_all data (piece_off index) es f of
          (False, f') \<Rightarrow> (False, s, f')
        | (True, f') \<Rightarrow> (True, s\<lparr>ps_have := mark (unat index) (ps_have s)\<rparr>, f'))"

definition have_piece :: "piece_store \<Rightarrow> u32 \<Rightarrow> bool" where
  "have_piece s index = (if ps_count s \<le> index then False else bit_of (ps_have s) (unat index))"

definition have_count :: "piece_store \<Rightarrow> u32" where
  "have_count s = fold (\<lambda>i c. if bit_of (ps_have s) i then c + 1 else c) [0..<unat (ps_count s)] 0"

definition complete :: "piece_store \<Rightarrow> bool" where
  "complete s = (have_count s = ps_count s)"

definition bitfield :: "piece_store \<Rightarrow> bytes" where
  "bitfield s = ps_have s"

definition set_bitfield :: "bytes \<Rightarrow> piece_store \<Rightarrow> piece_store" where
  "set_bitfield bits s = s\<lparr>ps_have := bits\<rparr>"

text \<open>
  One turn of the worker of \<open>resume_scan\<close>: \<open>seek off\<close> is what \<open>lseek(fd, off, SEEK_DATA)\<close> returns (\<open>None\<close> for
  -1), \<open>ios i\<close> the kernel's answers while piece \<open>i\<close> is read.
\<close>

definition scan_piece ::
    "piece_store \<Rightarrow> bytes list \<Rightarrow> (nat \<Rightarrow> nat option) \<Rightarrow> (nat \<Rightarrow> io_ev list) \<Rightarrow> disk \<Rightarrow> nat \<Rightarrow> bool" where
  "scan_piece s hashes seek ios f i =
     (let len = unat (piece_len s (of_nat i)); off = i * unat PIECE_SIZE in
      case seek off of
        None \<Rightarrow> False
      | Some data \<Rightarrow>
          if off + len \<le> data then False
          else (case pread_all f off len (ios i) of
              None \<Rightarrow> False
            | Some buf \<Rightarrow> hash_buffer buf = hashes ! i))"

definition pool_size :: "nat \<Rightarrow> nat \<Rightarrow> nat" where
  "pool_size cores n = min (max 1 cores) (max n 1)"

definition scan_count :: "piece_store \<Rightarrow> bytes list \<Rightarrow> nat" where
  "scan_count s hashes = unat (min (ps_count s) (of_nat (length hashes)))"

definition mark_valid :: "bool list \<Rightarrow> bytes \<Rightarrow> bytes" where
  "mark_valid valid bits = fold (\<lambda>i b. if valid ! i then mark i b else b) [0..<length valid] bits"

definition scan_pool ::
    "bytes list \<Rightarrow> (nat \<Rightarrow> nat option) \<Rightarrow> (nat \<Rightarrow> io_ev list) \<Rightarrow> nat \<Rightarrow> nat list \<Rightarrow> piece_store \<Rightarrow> disk \<Rightarrow> bool work_pool" where
  "scan_pool hashes seek ios cores sched s f =
     (let n = scan_count s hashes in
      pool_run (\<lambda>i. Some (scan_piece s hashes seek ios f i)) n sched
        (pool_start False n (pool_size cores n)))"

definition resume_scan ::
    "bytes list \<Rightarrow> (nat \<Rightarrow> nat option) \<Rightarrow> (nat \<Rightarrow> io_ev list) \<Rightarrow> nat \<Rightarrow> nat list \<Rightarrow> piece_store \<Rightarrow> disk \<Rightarrow> piece_store" where
  "resume_scan hashes seek ios cores sched s f =
     (if \<not> ps_fd s then s
      else s\<lparr>ps_have := mark_valid (wp_slots (scan_pool hashes seek ios cores sched s f)) (ps_have s)\<rparr>)"

section \<open>The bitmap is a set of piece indices\<close>

lemma bit_of_iff: "bit_of bits i \<longleftrightarrow> bit (bits ! (i div 8)) (7 - i mod 8)"
proof -
  have "i mod 8 \<in> {0, 1, 2, 3, 4, 5, 6, 7}" by auto
  then have "drop_bit (i mod 8) (0x80 :: u8) = 2 ^ (7 - i mod 8)" by auto
  then show ?thesis by (simp add: bit_of_def and_exp_eq_0_iff_not_bit)
qed

lemma bit_of_mark:
  assumes "i div 8 < length bits"
  shows "bit_of (mark i bits) j \<longleftrightarrow> j = i \<or> bit_of bits j"
proof -
  have m: "k mod 8 \<in> {0, 1, 2, 3, 4, 5, 6, 7}" for k :: nat by auto
  have d: "drop_bit (i mod 8) (0x80 :: u8) = 2 ^ (7 - i mod 8)" using m [of i] by auto
  have b: "bit (2 ^ (7 - i mod 8) :: u8) (7 - j mod 8) \<longleftrightarrow> i mod 8 = j mod 8"
    using m [of i] m [of j] by (auto simp: bit_exp_iff)
  have "i div 8 = j div 8 \<and> i mod 8 = j mod 8 \<longleftrightarrow> j = i" by (metis div_mult_mod_eq)
  then show ?thesis
    using assms by (auto simp: bit_of_iff mark_def nth_list_update bit_or_iff d b)
qed

lemma length_mark [simp]: "length (mark i bits) = length bits"
  by (simp add: mark_def)

lemma bit_of_zero [simp]: "i div 8 < n \<Longrightarrow> \<not> bit_of (replicate n 0) i"
  by (simp add: bit_of_iff)

lemma bit_of_ones [simp]: "i div 8 < n \<Longrightarrow> bit_of (replicate n 0xFF) i"
proof -
  assume n: "i div 8 < n"
  have "i mod 8 \<in> {0, 1, 2, 3, 4, 5, 6, 7}" by auto
  then have "bit (0xFF :: u8) (7 - i mod 8)" by auto
  then show ?thesis using n by (simp add: bit_of_iff)
qed

text \<open>\<open>ps_ok\<close>: one bit for each piece. The sum in \<open>bitmap_bytes\<close> does not wrap.\<close>

definition ps_ok :: "piece_store \<Rightarrow> bool" where
  "ps_ok s \<longleftrightarrow> unat (ps_count s) + 7 < 2 ^ 32 \<and> length (ps_have s) = unat (bitmap_bytes (ps_count s))"

lemma unat_bitmap_bytes: "unat n + 7 < 2 ^ 32 \<Longrightarrow> unat (bitmap_bytes n) = (unat n + 7) div 8"
  by (simp add: bitmap_bytes_def unat_div unat_word_ariths)

lemma ps_ok_index: "ps_ok s \<Longrightarrow> i < unat (ps_count s) \<Longrightarrow> i div 8 < length (ps_have s)"
  by (simp add: ps_ok_def unat_bitmap_bytes)

lemma ps_ok_open:
  assumes "unat pc + 7 < 2 ^ 32" and "ps_ok s"
  shows "ps_ok (snd (open_for_seed opened sz pc s))"
    and "ps_ok (fst (snd (open_for_download opened resized sz pc s f)))"
  using assms by (simp_all add: open_for_seed_def open_for_download_def ps_ok_def)

lemma ps_ok_write: "ps_ok s \<Longrightarrow> ps_ok (fst (snd (write_piece i d h es s f)))"
  by (simp add: write_piece_def ps_ok_def split: prod.split bool.split)

lemma mark_valid_bits:
  assumes "(length valid + 7) div 8 \<le> length bits"
  shows "length (mark_valid valid bits) = length bits \<and>
    (\<forall>j. bit_of (mark_valid valid bits) j \<longleftrightarrow> bit_of bits j \<or> j < length valid \<and> valid ! j)"
proof -
  let ?g = "\<lambda>i b. if valid ! i then mark i b else b"
  have "length (fold ?g [0..<n] bits) = length bits \<and>
      (\<forall>j. bit_of (fold ?g [0..<n] bits) j \<longleftrightarrow> bit_of bits j \<or> j < n \<and> valid ! j)"
    if "n \<le> length valid" for n
    using that
  proof (induction n)
    case (Suc n)
    have "n div 8 < length bits" using assms Suc.prems by simp
    then show ?case using Suc by (auto simp: bit_of_mark less_Suc_eq)
  qed simp
  then show ?thesis by (simp add: mark_valid_def)
qed

lemma have_count_filter:
  "have_count s = of_nat (length (filter (bit_of (ps_have s)) [0..<unat (ps_count s)]))"
proof -
  have "fold (\<lambda>i c. if P i then c + 1 else c) xs c = (c :: u32) + of_nat (length (filter P xs))"
    for P :: "nat \<Rightarrow> bool" and xs c
    by (induction xs arbitrary: c) (simp_all add: ac_simps)
  then show ?thesis by (simp add: have_count_def)
qed

lemma complete_iff: "complete s \<longleftrightarrow> (\<forall>i < unat (ps_count s). bit_of (ps_have s) i)"
proof -
  let ?xs = "[0..<unat (ps_count s)]" and ?P = "bit_of (ps_have s)"
  have le: "length (filter ?P ?xs) \<le> unat (ps_count s)"
    using length_filter_le [of ?P ?xs] by simp
  have "unat (of_nat (length (filter ?P ?xs)) :: u32) = length (filter ?P ?xs)"
    using le unat_u32 [of "ps_count s"] by (simp add: unat_of_nat)
  then have "complete s \<longleftrightarrow> length (filter ?P ?xs) = unat (ps_count s)"
    by (simp add: complete_def have_count_filter word_unat_eq_iff)
  also have "\<dots> \<longleftrightarrow> (\<forall>i < unat (ps_count s). ?P i)"
    using length_filter_less [of _ ?xs ?P] by (fastforce simp: filter_id_conv)
  finally show ?thesis .
qed

section \<open>Pieces on disk\<close>

definition piece_slice :: "piece_store \<Rightarrow> disk \<Rightarrow> nat \<Rightarrow> bytes" where
  "piece_slice s f i = take (unat (piece_len s (of_nat i))) (drop (i * unat PIECE_SIZE) f)"

text \<open>The file is long enough for piece \<open>i\<close>.\<close>

definition piece_in :: "piece_store \<Rightarrow> disk \<Rightarrow> nat \<Rightarrow> bool" where
  "piece_in s f i \<longleftrightarrow> i * unat PIECE_SIZE + unat (piece_len s (of_nat i)) \<le> length f"

text \<open>What the bitmap promises: a marked piece is on disk and has the expected hash.\<close>

definition verified :: "bytes list \<Rightarrow> piece_store \<Rightarrow> disk \<Rightarrow> bool" where
  "verified hashes s f \<longleftrightarrow> length hashes = unat (ps_count s) \<and>
     (\<forall>i < unat (ps_count s). bit_of (ps_have s) i \<longrightarrow>
        piece_in s f i \<and> hash_buffer (piece_slice s f i) = hashes ! i)"

lemma piece_len_inner:
  assumes "Suc i < unat (ps_count s)"
  shows "unat (piece_len s (of_nat i)) = 524288"
proof -
  have b: "Suc i < 4294967296" using assms unat_u32 [of "ps_count s"] by simp
  have "unat (of_nat i + 1 :: u32) = Suc i" using b by (simp add: unat_word_ariths unat_of_nat)
  then have "of_nat i + 1 < ps_count s" using assms by (simp add: word_less_nat_alt)
  then show ?thesis by (simp add: piece_len_def)
qed

text \<open>Pieces do not overlap.\<close>

lemma pieces_apart:
  assumes "i < j" and "j < unat (ps_count s)"
  shows "i * unat PIECE_SIZE + unat (piece_len s (of_nat i)) \<le> j * unat PIECE_SIZE"
proof -
  have "Suc i < unat (ps_count s)" using assms by simp
  then show ?thesis using assms(1) piece_len_inner [of i s] by simp
qed

lemma write_other_slice:
  assumes "i < unat (ps_count s)" "j < unat (ps_count s)" "i \<noteq> j"
    and "length d \<le> unat (piece_len s (of_nat i))" "piece_in s f i" "piece_in s f j"
  shows "piece_slice s (disk_write (i * unat PIECE_SIZE) d f) j = piece_slice s f j"
proof (cases "j < i")
  case True
  show ?thesis
    unfolding piece_slice_def
    by (rule disk_slice_before) (use assms pieces_apart [OF True assms(1)] in \<open>auto simp: piece_in_def\<close>)
next
  case False
  then have "i < j" using assms(3) by simp
  have "drop (j * unat PIECE_SIZE) (disk_write (i * unat PIECE_SIZE) d f) = drop (j * unat PIECE_SIZE) f"
    by (rule disk_slice_after) (use assms pieces_apart [OF \<open>i < j\<close> assms(2)] in \<open>auto simp: piece_in_def\<close>)
  then show ?thesis by (simp add: piece_slice_def)
qed

text \<open>Writing any part of a piece that is not marked keeps the promise for the marked ones.\<close>

lemma verified_scratch:
  assumes "verified hashes s f" and "i < unat (ps_count s)" and "\<not> bit_of (ps_have s) i"
    and "length d \<le> unat (piece_len s (of_nat i))" and "piece_in s f i"
  shows "verified hashes s (disk_write (i * unat PIECE_SIZE) d f)"
proof -
  have l: "length (disk_write (i * unat PIECE_SIZE) d f) = length f"
    by (rule length_disk_write) (use assms(4,5) in \<open>auto simp: piece_in_def\<close>)
  have "piece_slice s (disk_write (i * unat PIECE_SIZE) d f) j = piece_slice s f j"
    if "j < unat (ps_count s)" "bit_of (ps_have s) j" for j
    using write_other_slice [OF assms(2) that(1) _ assms(4,5)] assms(1,3) that
    by (auto simp: verified_def)
  then show ?thesis using assms(1) l by (auto simp: verified_def piece_in_def)
qed

lemma piece_slice_have [simp]: "piece_slice (s\<lparr>ps_have := b\<rparr>) = piece_slice s"
  by (simp add: piece_slice_def piece_len_def fun_eq_iff)

lemma piece_in_have [simp]: "piece_in (s\<lparr>ps_have := b\<rparr>) = piece_in s"
  by (simp add: piece_in_def piece_len_def fun_eq_iff)

lemma verified_mark:
  assumes "verified hashes s f" and "ps_ok s" and "i < unat (ps_count s)" and "piece_in s f i"
    and "hash_buffer (piece_slice s f i) = hashes ! i"
  shows "verified hashes (s\<lparr>ps_have := mark i (ps_have s)\<rparr>) f"
  using assms bit_of_mark [OF ps_ok_index [OF assms(2,3)]] by (auto simp: verified_def)

section \<open>What each operation does\<close>

text \<open>\<open>write_piece\<close>, in a store whose file is long enough: refused without touching the disk, or a
  prefix written and no mark, or all written and marked.\<close>

lemma write_piece_cases:
  assumes "write_piece i d h es s f = (ok, s', f')"
    and "i < ps_count s \<longrightarrow> piece_in s f (unat i)"
  shows "(s' = s \<and> f' = f \<and> \<not> ok) \<or>
    (i < ps_count s \<and> length d = unat (piece_len s i) \<and> hash_buffer d = h \<and> ps_fd s \<and>
     (\<exists>k \<le> length d. f' = disk_write (piece_off i) (take k d) f \<and> (ok \<longrightarrow> k = length d)) \<and>
     s' = (if ok then s\<lparr>ps_have := mark (unat i) (ps_have s)\<rparr> else s))"
proof (cases "i < ps_count s \<and> length d = unat (piece_len s i) \<and> hash_buffer d = h \<and> ps_fd s")
  case True
  then have ni: "\<not> ps_count s \<le> i" by (simp add: not_le)
  obtain ok' g where w: "pwrite_all d (piece_off i) es f = (ok', g)" by (cases "pwrite_all d (piece_off i) es f")
  have wp: "write_piece i d h es s f = (ok', if ok' then s\<lparr>ps_have := mark (unat i) (ps_have s)\<rparr> else s, g)"
    using True ni w by (cases ok') (simp_all add: write_piece_def)
  have "piece_off i + length d \<le> length f"
    using assms(2) True by (simp add: piece_in_def piece_off_def)
  note pre = pwrite_all_prefix [OF this w]
  have e: "ok' = ok" "g = f'" "s' = (if ok then s\<lparr>ps_have := mark (unat i) (ps_have s)\<rparr> else s)"
    using assms(1) wp by auto
  have "\<exists>k \<le> length d. f' = disk_write (piece_off i) (take k d) f \<and> (ok \<longrightarrow> k = length d)"
    using pre e(1,2) by simp
  then show ?thesis using True e(3) by blast
next
  case False
  then have "write_piece i d h es s f = (False, s, f)" unfolding write_piece_def not_less [symmetric] by simp
  then show ?thesis using assms(1) by simp
qed

lemma have_piece_iff: "have_piece s i \<longleftrightarrow> unat i < unat (ps_count s) \<and> bit_of (ps_have s) (unat i)"
  by (auto simp: have_piece_def word_le_nat_alt)

lemma write_piece_verified:
  assumes "write_piece i d (hashes ! unat i) es s f = (ok, s', f')"
    and ok: "ps_ok s" "verified hashes s f" "\<not> have_piece s i"
    and in_file: "\<forall>j < unat (ps_count s). piece_in s f j"
  shows "verified hashes s' f' \<and> length f' = length f"
proof -
  have pin: "i < ps_count s \<longrightarrow> piece_in s f (unat i)"
    using in_file by (simp add: word_less_nat_alt)
  from write_piece_cases [OF assms(1) pin] show ?thesis
  proof (elim disjE conjE exE)
    fix k
    assume i: "i < ps_count s" and d: "length d = unat (piece_len s i)" "hash_buffer d = hashes ! unat i"
      and k: "k \<le> length d" "f' = disk_write (piece_off i) (take k d) f" "ok \<longrightarrow> k = length d"
      and s': "s' = (if ok then s\<lparr>ps_have := mark (unat i) (ps_have s)\<rparr> else s)"
    have iu: "unat i < unat (ps_count s)" using i by (simp add: word_less_nat_alt)
    have free: "\<not> bit_of (ps_have s) (unat i)" using ok(3) iu by (simp add: have_piece_iff)
    have v: "verified hashes s f'"
      using verified_scratch [OF ok(2) iu free _ pin [rule_format, OF i], of "take k d"] k d by (simp add: piece_off_def)
    have fit: "piece_off i + length d \<le> length f"
      using pin [rule_format, OF i] d by (simp add: piece_in_def piece_off_def)
    then have len: "length f' = length f" using k by (simp add: length_disk_write)
    show ?thesis
    proof (cases ok)
      case True
      have "piece_slice s f' (unat i) = d"
        using disk_slice_same [OF fit] k True d by (simp add: piece_slice_def piece_off_def)
      moreover have "piece_in s f' (unat i)" using pin [rule_format, OF i] len by (simp add: piece_in_def)
      ultimately show ?thesis
        using verified_mark [OF v ok(1) iu] d len s' True by simp
    next
      case False
      then show ?thesis using v len s' by simp
    qed
  qed (use ok in simp)
qed

lemma write_piece_true:
  assumes "write_piece i d h es s f = (True, s', f')"
  shows "unat i < unat (ps_count s) \<and> length d = unat (piece_len s i) \<and> hash_buffer d = h \<and> ps_fd s \<and>
    s' = s\<lparr>ps_have := mark (unat i) (ps_have s)\<rparr>"
  using assms by (simp add: write_piece_def not_le word_less_nat_alt split: if_splits prod.splits bool.splits)

lemma write_piece_marks:
  assumes "ps_ok s" and "write_piece i d h es s f = (True, s', f')"
  shows "have_piece s' j \<longleftrightarrow> j = i \<or> have_piece s j"
proof -
  have i: "unat i < unat (ps_count s)" and s': "s' = s\<lparr>ps_have := mark (unat i) (ps_have s)\<rparr>"
    using write_piece_true [OF assms(2)] by auto
  show ?thesis
    using i bit_of_mark [OF ps_ok_index [OF assms(1) i]] by (auto simp: have_piece_iff s' word_unat_eq_iff)
qed

text \<open>\<open>read_piece\<close> gives the marked piece as it is on disk, or nothing.\<close>

lemma read_piece_some:
  "read_piece s i es f = Some d \<Longrightarrow>
   have_piece s i \<and> d = piece_slice s f (unat i) \<and> length d = unat (piece_len s i)"
  using pread_all_some
  by (fastforce simp: read_piece_def have_piece_def piece_slice_def piece_off_def split: if_splits)

lemma read_piece_calm:
  "ps_fd s \<Longrightarrow> have_piece s i \<Longrightarrow> piece_in s f (unat i) \<Longrightarrow> io_calm es \<Longrightarrow>
   read_piece s i es f = Some (piece_slice s f (unat i))"
  using pread_all_calm [of es "piece_off i" "unat (piece_len s i)" f]
  by (auto simp: read_piece_def have_piece_def piece_in_def piece_slice_def piece_off_def split: if_splits)

text \<open>What is read back after a write that succeeded is what was written.\<close>

lemma write_then_read:
  assumes "write_piece i d h es s f = (True, s', f')" and "ps_ok s"
    and "piece_in s f (unat i)" and "io_calm es'"
  shows "read_piece s' i es' f' = Some d"
proof -
  have c: "i < ps_count s" "length d = unat (piece_len s i)" "ps_fd s"
      "f' = disk_write (piece_off i) d f" "s' = s\<lparr>ps_have := mark (unat i) (ps_have s)\<rparr>"
    using write_piece_cases [OF assms(1)] assms(3) by auto
  have fit: "piece_off i + length d \<le> length f"
    using assms(3) c(2) by (simp add: piece_in_def piece_off_def)
  have "piece_in s' f' (unat i)" using assms(3) c fit by (simp add: piece_in_def length_disk_write piece_len_def)
  moreover have "have_piece s' i" using write_piece_marks [OF assms(2,1)] by simp
  ultimately have "read_piece s' i es' f' = Some (piece_slice s' f' (unat i))"
    using c(3,5) assms(4) by (simp add: read_piece_calm)
  also have "piece_slice s' f' (unat i) = d"
    using disk_slice_same [OF fit] c by (simp add: piece_slice_def piece_off_def piece_len_def)
  finally show ?thesis .
qed

section \<open>Resuming\<close>

text \<open>\<open>std::min(piece_count_, piece_hashes.size())\<close> pieces are looked at, by threads in any order.\<close>

lemma scan_slots:
  assumes "scan_count s hashes + pool_size cores (scan_count s hashes) < 2 ^ 32"
    and "pool_joined (scan_pool hashes seek ios cores sched s f)"
  shows "wp_slots (scan_pool hashes seek ios cores sched s f)
    = map (scan_piece s hashes seek ios f) [0..<scan_count s hashes]"
proof -
  let ?n = "scan_count s hashes"
  have "0 < pool_size cores ?n" by (auto simp: pool_size_def max_def)
  from pool_result [OF assms(1) this assms(2) [unfolded scan_pool_def Let_def]]
  have "map Some (wp_slots (scan_pool hashes seek ios cores sched s f))
      = map Some (map (scan_piece s hashes seek ios f) [0..<?n])"
    by (simp add: scan_pool_def Let_def comp_def split: if_splits)
  then show ?thesis by (metis inj_map_eq_map inj_Some)
qed

lemma scan_piece_true:
  assumes "scan_piece s hashes seek ios f i"
  shows "piece_in s f i \<or> piece_len s (of_nat i) = 0" and "hash_buffer (piece_slice s f i) = hashes ! i"
proof -
  let ?off = "i * unat PIECE_SIZE" and ?n = "unat (piece_len s (of_nat i))"
  obtain buf where b: "pread_all f ?off ?n (ios i) = Some buf" "hash_buffer buf = hashes ! i"
    using assms by (auto simp: scan_piece_def Let_def split: option.splits if_splits)
  from pread_all_some [OF b(1)] have buf: "buf = take ?n (drop ?off f)" "length buf = ?n" by auto
  then have le: "?n \<le> length f - ?off" by simp
  show "piece_in s f i \<or> piece_len s (of_nat i) = 0"
  proof (cases "?n = 0")
    case False
    then have "?off + ?n \<le> length f" using le by linarith
    then show ?thesis unfolding piece_in_def ..
  qed (simp add: unat_eq_0)
  show "hash_buffer (piece_slice s f i) = hashes ! i" using b(2) buf(1) by (simp add: piece_slice_def)
qed

lemma scan_piece_calm:
  assumes "piece_in s f i" "hash_buffer (piece_slice s f i) = hashes ! i" "io_calm (ios i)"
    and "seek (i * unat PIECE_SIZE) = Some data" "data < i * unat PIECE_SIZE + unat (piece_len s (of_nat i))"
  shows "scan_piece s hashes seek ios f i"
  using assms pread_all_calm [OF assms(3), of "i * unat PIECE_SIZE" "unat (piece_len s (of_nat i))" f]
  by (simp add: scan_piece_def Let_def piece_in_def piece_slice_def)

lemma scan_count_le: "scan_count s hashes \<le> unat (ps_count s)"
  by (simp add: scan_count_def min_def word_le_nat_alt)

lemma resume_scan_bits:
  assumes "ps_ok s" and "ps_fd s"
    and "scan_count s hashes + pool_size cores (scan_count s hashes) < 2 ^ 32"
    and "pool_joined (scan_pool hashes seek ios cores sched s f)"
  shows "ps_ok (resume_scan hashes seek ios cores sched s f) \<and>
    (\<forall>i. bit_of (ps_have (resume_scan hashes seek ios cores sched s f)) i \<longleftrightarrow>
       bit_of (ps_have s) i \<or> i < scan_count s hashes \<and> scan_piece s hashes seek ios f i)"
proof -
  let ?v = "map (scan_piece s hashes seek ios f) [0..<scan_count s hashes]"
  have h: "ps_have (resume_scan hashes seek ios cores sched s f) = mark_valid ?v (ps_have s)"
    using assms(2) scan_slots [OF assms(3,4)] by (simp add: resume_scan_def)
  have "(scan_count s hashes + 7) div 8 \<le> (unat (ps_count s) + 7) div 8"
    by (rule div_le_mono) (simp add: scan_count_le)
  then have "(length ?v + 7) div 8 \<le> length (ps_have s)"
    using assms(1) by (simp add: ps_ok_def unat_bitmap_bytes)
  from mark_valid_bits [OF this]
  have l: "length (mark_valid ?v (ps_have s)) = length (ps_have s)"
    and b: "\<forall>j. bit_of (mark_valid ?v (ps_have s)) j \<longleftrightarrow> bit_of (ps_have s) j \<or> j < length ?v \<and> ?v ! j"
    by blast+
  have "ps_count (resume_scan hashes seek ios cores sched s f) = ps_count s"
    by (simp add: resume_scan_def)
  then have "ps_ok (resume_scan hashes seek ios cores sched s f)"
    using assms(1) l h by (simp add: ps_ok_def)
  moreover have "bit_of (mark_valid ?v (ps_have s)) j \<longleftrightarrow>
      bit_of (ps_have s) j \<or> j < scan_count s hashes \<and> scan_piece s hashes seek ios f j" for j
    using b [rule_format, of j] by (cases "j < scan_count s hashes") simp_all
  ultimately show ?thesis unfolding h by blast
qed

lemma resume_scan_same [simp]:
  "ps_fd (resume_scan hashes seek ios cores sched s f) = ps_fd s"
  "ps_count (resume_scan hashes seek ios cores sched s f) = ps_count s"
  "ps_size (resume_scan hashes seek ios cores sched s f) = ps_size s"
  by (simp_all add: resume_scan_def)

lemma piece_fun_cong:
  assumes "ps_count s = ps_count t" "ps_size s = ps_size t"
  shows "piece_len s = piece_len t" "piece_slice s = piece_slice t" "piece_in s = piece_in t"
proof -
  show l: "piece_len s = piece_len t" using assms by (simp add: piece_len_def fun_eq_iff)
  then show "piece_slice s = piece_slice t" "piece_in s = piece_in t"
    by (simp_all add: piece_slice_def piece_in_def fun_eq_iff)
qed

lemma resume_scan_verified:
  assumes "ps_ok s" and "verified hashes s f" and in_file: "\<forall>j < unat (ps_count s). piece_in s f j"
    and "scan_count s hashes + pool_size cores (scan_count s hashes) < 2 ^ 32"
    and "pool_joined (scan_pool hashes seek ios cores sched s f)"
  shows "verified hashes (resume_scan hashes seek ios cores sched s f) f"
proof (cases "ps_fd s")
  case True
  let ?t = "resume_scan hashes seek ios cores sched s f"
  have same: "ps_count ?t = ps_count s" "ps_size ?t = ps_size s" by simp_all
  from resume_scan_bits [OF assms(1) True assms(4,5)]
  show ?thesis
    using assms(2) in_file scan_piece_true(2) [of s hashes seek ios f]
    by (auto simp: verified_def piece_fun_cong [OF same])
qed (use assms in \<open>simp add: resume_scan_def\<close>)

section \<open>The properties of the store\<close>

text \<open>C6. \<open>write_piece\<close> never makes the bitmap promise too much: in a store where every marked piece is on disk with its expected
  hash, this still holds after a call for an unmarked piece, with any data and whatever the kernel does with the writes, failed and
  partial ones included; the file keeps its size.\<close>

theorem write_keeps_promise:
  assumes "write_piece i d (hashes ! unat i) es s f = (ok, s', f')"
    and "ps_ok s" and "verified hashes s f" and "\<not> have_piece s i"
    and "\<forall>j < unat (ps_count s). piece_in s f j"
  shows "verified hashes s' f' \<and> length f' = length f"
  using assms by (rule write_piece_verified)

lemma sample_store: "ps_ok \<lparr>ps_fd = True, ps_size = 2, ps_count = 1, ps_have = [0]\<rparr>"
  "unat (piece_len \<lparr>ps_fd = True, ps_size = 2, ps_count = 1, ps_have = [0]\<rparr> 0) = 2"
  "\<not> have_piece \<lparr>ps_fd = True, ps_size = 2, ps_count = 1, ps_have = [0]\<rparr> 0"
  by (simp_all add: ps_ok_def bitmap_bytes_def piece_len_def have_piece_iff bit_of_iff unat_div)

theorem write_keeps_promise_witness:
  "verified [hash_buffer [7, 8]] (\<lparr>ps_fd = True, ps_size = 2, ps_count = 1, ps_have = mark 0 [0]\<rparr>) [7, 8] \<and>
    length [7, 8 :: u8] = length [0, 0 :: u8]"
proof (rule write_keeps_promise)
  let ?s = "\<lparr>ps_fd = True, ps_size = 2, ps_count = 1, ps_have = [0]\<rparr>"
  show "write_piece 0 [7, 8] ([hash_buffer [7, 8]] ! unat (0 :: u32)) [IoUpTo 1] ?s [0, 0] =
      (True, \<lparr>ps_fd = True, ps_size = 2, ps_count = 1, ps_have = mark 0 [0]\<rparr>, [7, 8])"
    by (simp add: write_piece_def sample_store pwrite_all.simps piece_off_def disk_write_def)
  show "ps_ok ?s" "\<not> have_piece ?s 0" by (rule sample_store)+
  show "verified [hash_buffer [7, 8]] ?s [0, 0]" by (simp add: verified_def bit_of_iff)
  show "\<forall>j < unat (ps_count ?s). piece_in ?s [0, 0] j" using sample_store(2) by (simp add: piece_in_def)
qed

text \<open>What \<open>write_piece\<close> has accepted, \<open>read_piece\<close> gives back, byte for byte, in however many reads.\<close>

lemma written_piece_is_read:
  assumes "write_piece i d h es s f = (True, s', f')" and "ps_ok s"
    and "piece_in s f (unat i)" and "io_calm es'"
  shows "read_piece s' i es' f' = Some d"
  using assms by (rule write_then_read)

text \<open>C29. \<open>resume_scan\<close> on an open store marks only pieces that are on disk with the expected hash, whatever is in the file, whatever
  \<open>SEEK_DATA\<close> and the reads answer and however its threads interleave, until all of them have ended; and it marks every such
  piece that is not a hole and whose reads do not fail. (Bitmap and file are as long as the pieces ask for, what the store had
  marked before, if anything, is on disk already, and the pieces and threads together are fewer than \<open>2^32\<close>, so that the shared
  counter does not wrap.)\<close>

theorem resume_scan_exact:
  assumes "ps_ok s" and "ps_fd s" and "verified hashes s f" and "\<forall>j < unat (ps_count s). piece_in s f j"
    and "scan_count s hashes + pool_size cores (scan_count s hashes) < 2 ^ 32"
    and "pool_joined (scan_pool hashes seek ios cores sched s f)"
  shows "verified hashes (resume_scan hashes seek ios cores sched s f) f \<and>
    (\<forall>i < scan_count s hashes. hash_buffer (piece_slice s f i) = hashes ! i \<and> io_calm (ios i) \<and>
       (\<exists>data. seek (i * unat PIECE_SIZE) = Some data \<and> data < i * unat PIECE_SIZE + unat (piece_len s (of_nat i))) \<longrightarrow>
       bit_of (ps_have (resume_scan hashes seek ios cores sched s f)) i)"
proof (intro conjI allI impI)
  show "verified hashes (resume_scan hashes seek ios cores sched s f) f"
    by (rule resume_scan_verified [OF assms(1,3,4,5,6)])
next
  fix i
  assume i: "i < scan_count s hashes" and "hash_buffer (piece_slice s f i) = hashes ! i \<and> io_calm (ios i) \<and>
    (\<exists>data. seek (i * unat PIECE_SIZE) = Some data \<and> data < i * unat PIECE_SIZE + unat (piece_len s (of_nat i)))"
  moreover have "piece_in s f i" using assms(4) i scan_count_le [of s hashes] by simp
  ultimately have "scan_piece s hashes seek ios f i" using scan_piece_calm by blast
  then show "bit_of (ps_have (resume_scan hashes seek ios cores sched s f)) i"
    using resume_scan_bits [OF assms(1,2,5,6)] i by blast
qed

theorem resume_scan_exact_witness:
  "verified [hash_buffer [7, 8]] (resume_scan [hash_buffer [7, 8]] Some (\<lambda>i. []) 1 [0, 0, 0]
      \<lparr>ps_fd = True, ps_size = 2, ps_count = 1, ps_have = [0]\<rparr> [7, 8]) [7, 8] \<and>
    bit_of (ps_have (resume_scan [hash_buffer [7, 8]] Some (\<lambda>i. []) 1 [0, 0, 0]
      \<lparr>ps_fd = True, ps_size = 2, ps_count = 1, ps_have = [0]\<rparr> [7, 8])) 0"
proof -
  let ?s = "\<lparr>ps_fd = True, ps_size = 2, ps_count = 1, ps_have = [0]\<rparr>"
  have n: "scan_count ?s [hash_buffer [7, 8]] = 1" by (simp add: scan_count_def)
  have h: "hash_buffer (piece_slice ?s [7, 8] 0) = [hash_buffer [7, 8]] ! 0"
    using sample_store(2) by (simp add: piece_slice_def)
  have j: "pool_joined (scan_pool [hash_buffer [7, 8]] Some (\<lambda>i. []) 1 [0, 0, 0] ?s [7, 8])"
    unfolding scan_pool_def n Let_def by (rule pool_finishes) (simp_all add: pool_size_def)
  have v: "verified [hash_buffer [7, 8]] ?s [7, 8]" by (simp add: verified_def bit_of_iff)
  have p: "\<forall>j < unat (ps_count ?s). piece_in ?s [7, 8] j" using sample_store(2) by (simp add: piece_in_def)
  have b: "scan_count ?s [hash_buffer [7, 8]] + pool_size 1 (scan_count ?s [hash_buffer [7, 8]]) < 2 ^ 32"
    by (simp add: n pool_size_def)
  have l: "0 < unat (piece_len ?s (of_nat 0))" using sample_store(2) by simp
  show ?thesis
    using resume_scan_exact [OF sample_store(1) _ v p b j] h l n by fastforce
qed

end
