(* ===== verification/File_Hash.thy ===== *)
theory File_Hash
  imports Piece_Store
begin

text \<open>
  \<open>SHA1::hash_file\<close> of \<open>common/sha1.cpp\<close>: every piece is hashed by one of a pool of threads, and the hash of
  the file is the hash of the concatenated piece hashes. The result \<open>None\<close> stands for the empty string.
  The theory ends with what this hash means to a downloader: a store whose pieces are all verified holds
  a file with exactly the published hashes.
\<close>

definition hash_job :: "disk \<Rightarrow> u32 \<Rightarrow> (nat \<Rightarrow> io_ev list) \<Rightarrow> nat \<Rightarrow> bytes option" where
  "hash_job f piece_size ios i =
     (let off = i * unat piece_size; len = min (unat piece_size) (length f - off) in
      map_option hash_buffer (pread_all f off len (ios i)))"

definition hash_pc :: "disk \<Rightarrow> u32 \<Rightarrow> u32" where
  "hash_pc f piece_size = of_nat ((length f + unat piece_size - 1) div unat piece_size)"

definition hash_threads :: "nat \<Rightarrow> nat \<Rightarrow> u32 \<Rightarrow> nat" where
  "hash_threads threads cores pc = min (if threads \<noteq> 0 then threads else max 1 cores) (max (unat pc) 1)"

definition hash_pool ::
    "u32 \<Rightarrow> (nat \<Rightarrow> io_ev list) \<Rightarrow> nat \<Rightarrow> nat \<Rightarrow> nat list \<Rightarrow> disk \<Rightarrow> bytes work_pool" where
  "hash_pool piece_size ios threads cores sched f =
     (let pc = hash_pc f piece_size in
      pool_run (hash_job f piece_size ios) (unat pc) sched
        (pool_start [] (unat pc) (hash_threads threads cores pc)))"

text \<open>\<open>opened\<close>: both \<open>open\<close> and \<open>fstat\<close> succeeded. The result is the hash, the piece hashes and the size.\<close>

definition hash_file ::
    "bool \<Rightarrow> u32 \<Rightarrow> (nat \<Rightarrow> io_ev list) \<Rightarrow> nat \<Rightarrow> nat \<Rightarrow> nat list \<Rightarrow> disk \<Rightarrow> (bytes \<times> bytes \<times> u64) option" where
  "hash_file opened piece_size ios threads cores sched f =
     (if \<not> opened then None
      else let p = hash_pool piece_size ios threads cores sched f in
        if wp_failed p then None
        else let blob = concat (wp_slots p) in Some (hash_buffer blob, blob, of_nat (length f)))"

section \<open>The hash of a file\<close>

definition file_pieces :: "nat \<Rightarrow> bytes \<Rightarrow> bytes list" where
  "file_pieces n f = map (\<lambda>i. take n (drop (i * n) f)) [0..<(length f + n - 1) div n]"

definition piece_blob :: "nat \<Rightarrow> bytes \<Rightarrow> bytes" where
  "piece_blob n f = concat (map hash_buffer (file_pieces n f))"

lemma length_file_pieces [simp]: "length (file_pieces n f) = (length f + n - 1) div n"
  by (simp add: file_pieces_def)

lemma nth_file_pieces: "i < length (file_pieces n f) \<Longrightarrow> file_pieces n f ! i = take n (drop (i * n) f)"
  by (simp add: file_pieces_def)

lemma concat_take_drop: "concat (map (\<lambda>i. take n (drop (i * n) f)) [0..<k]) = take (k * n) f"
proof (induction k)
  case (Suc k)
  have "take (Suc k * n) f = take (k * n) f @ take n (drop (k * n) f)"
    using take_add [of "k * n" n f] by (simp add: add.commute)
  then show ?case using Suc by simp
qed simp

lemma concat_file_pieces: "0 < n \<Longrightarrow> concat (file_pieces n f) = f"
proof -
  assume n: "0 < n"
  have "length f + n - 1 < ((length f + n - 1) div n) * n + n"
    using n by (metis add.commute dividend_less_div_times mult.commute)
  then have "length f \<le> ((length f + n - 1) div n) * n" using n by simp
  then show ?thesis by (simp add: file_pieces_def concat_take_drop)
qed

lemma file_hash_pool:
  assumes bound: "unat (hash_pc f ps) + hash_threads threads cores (hash_pc f ps) < 2 ^ 32"
    and joined: "pool_joined (hash_pool ps ios threads cores sched f)"
    and ps: "0 < ps" and size: "(length f + unat ps - 1) div unat ps < 2 ^ 32"
  shows "if wp_failed (hash_pool ps ios threads cores sched f)
         then \<exists>i < length (file_pieces (unat ps) f). hash_job f ps ios i = None
         else wp_slots (hash_pool ps ios threads cores sched f) = map hash_buffer (file_pieces (unat ps) f)"
proof -
  let ?p = "hash_pool ps ios threads cores sched f"
  have pc: "unat (hash_pc f ps) = length (file_pieces (unat ps) f)"
    using size by (simp add: hash_pc_def unat_of_nat)
  have pos: "0 < hash_threads threads cores (hash_pc f ps)"
    by (auto simp: hash_threads_def max_def)
  have job: "hash_job f ps ios i = Some h \<Longrightarrow> i < length (file_pieces (unat ps) f) \<Longrightarrow>
      h = hash_buffer (file_pieces (unat ps) f ! i)" for i h
    using pread_all_some
    by (fastforce simp: hash_job_def Let_def file_pieces_def min_def)
  from pool_result [OF bound pos joined [unfolded hash_pool_def Let_def]]
  have r: "if wp_failed ?p then \<exists>i < unat (hash_pc f ps). hash_job f ps ios i = None
      else map Some (wp_slots ?p) = map (hash_job f ps ios) [0..<unat (hash_pc f ps)]"
    by (simp add: hash_pool_def Let_def)
  show ?thesis
  proof (cases "wp_failed ?p")
    case False
    then have s: "map Some (wp_slots ?p) = map (hash_job f ps ios) [0..<length (file_pieces (unat ps) f)]"
      using r pc by simp
    then have l: "length (wp_slots ?p) = length (file_pieces (unat ps) f)"
      using map_eq_imp_length_eq by fastforce
    have "wp_slots ?p ! i = hash_buffer (file_pieces (unat ps) f ! i)"
      if i: "i < length (file_pieces (unat ps) f)" for i
    proof -
      have "map Some (wp_slots ?p) ! i = hash_job f ps ios i" using s i by simp
      then show ?thesis using job [of i "wp_slots ?p ! i"] i l by simp
    qed
    then have "wp_slots ?p = map hash_buffer (file_pieces (unat ps) f)"
      using l by (simp add: list_eq_iff_nth_eq)
    then show ?thesis using False by simp
  qed (use r pc in simp)
qed

lemma hash_job_calm: "io_calm (ios i) \<Longrightarrow> i < length (file_pieces (unat ps) f) \<Longrightarrow> hash_job f ps ios i \<noteq> None"
proof -
  assume a: "io_calm (ios i)" "i < length (file_pieces (unat ps) f)"
  have "i * unat ps \<le> length f"
  proof (cases "unat ps")
    case (Suc m)
    have "Suc i * unat ps \<le> (length f + unat ps - 1) div unat ps * unat ps"
      using a(2) by (intro mult_le_mono1) simp
    also have "\<dots> \<le> length f + unat ps - 1" by simp
    finally show ?thesis using Suc by simp
  qed simp
  then show ?thesis using pread_all_calm [OF a(1)] by (simp add: hash_job_def Let_def)
qed

section \<open>A complete store holds a file with the published hashes\<close>

text \<open>The store was opened with the size of the file and as many pieces as it takes.\<close>

definition layout_ok :: "piece_store \<Rightarrow> disk \<Rightarrow> bool" where
  "layout_ok s f \<longleftrightarrow> unat (ps_size s) = length f \<and> unat (ps_count s) = length (file_pieces (unat PIECE_SIZE) f)"

lemma layout_slice:
  assumes "layout_ok s f" and i: "i < unat (ps_count s)"
  shows "piece_slice s f i = file_pieces (unat PIECE_SIZE) f ! i \<and> piece_in s f i"
proof -
  have c: "unat (ps_count s) = (length f + 524287) div 524288" and z: "unat (ps_size s) = length f"
    using assms(1) by (simp_all add: layout_ok_def)
  have b: "i < 4294967296" using i unat_u32 [of "ps_count s"] by simp
  have n: "file_pieces (unat PIECE_SIZE) f ! i = take 524288 (drop (i * 524288) f)"
    using nth_file_pieces [of i "unat PIECE_SIZE" f] i c by simp
  show ?thesis
  proof (cases "Suc i < unat (ps_count s)")
    case True
    have "Suc (Suc i) * 524288 \<le> length f + 524287" using True c by (simp add: less_eq_div_iff_mult_less_eq)
    then show ?thesis
      using n piece_len_inner [OF True] by (simp add: piece_slice_def piece_in_def)
  next
    case False
    then have last: "Suc i = unat (ps_count s)" using i by simp
    have lo: "i * 524288 < length f"
    proof -
      have "Suc i * 524288 \<le> length f + 524287" using last c by (simp add: less_eq_div_iff_mult_less_eq)
      then show ?thesis by simp
    qed
    have hi: "length f \<le> Suc i * 524288" using last c by simp
    have "\<not> (of_nat i + 1 < ps_count s)"
    proof -
      have "of_nat (Suc i) = ps_count s" using last by simp
      then show ?thesis by (simp add: add.commute)
    qed
    then have p: "piece_len s (of_nat i) = ucast (ps_size s - ucast (of_nat i :: u32) * ucast PIECE_SIZE)"
      by (simp add: piece_len_def)
    have u: "unat (ucast (of_nat i :: u32) * ucast PIECE_SIZE :: u64) = i * 524288"
      using b by (simp add: unat_word_ariths unsigned_ucast_eq take_bit_eq_mod unat_of_nat)
    have "unat (ps_size s - ucast (of_nat i :: u32) * ucast PIECE_SIZE) = length f - i * 524288"
      using lo z u by (subst unat_sub) (simp_all add: word_le_nat_alt)
    then have "unat (piece_len s (of_nat i)) = length f - i * 524288"
      using hi by (simp add: p unsigned_ucast_eq take_bit_eq_mod)
    then show ?thesis using n lo hi by (simp add: piece_slice_def piece_in_def)
  qed
qed

lemma complete_file:
  assumes "complete s" and "verified hashes s f" and "layout_ok s f"
  shows "map hash_buffer (file_pieces (unat PIECE_SIZE) f) = hashes"
proof (rule nth_equalityI)
  have "length hashes = unat (ps_count s)" using assms(2) by (simp add: verified_def)
  then show l: "length (map hash_buffer (file_pieces (unat PIECE_SIZE) f)) = length hashes"
    using assms(3) by (simp add: layout_ok_def)
  fix i
  assume "i < length (map hash_buffer (file_pieces (unat PIECE_SIZE) f))"
  then have i: "i < unat (ps_count s)" using assms(3) by (simp add: layout_ok_def)
  have "hash_buffer (piece_slice s f i) = hashes ! i"
    using assms(1,2) i by (simp add: verified_def complete_iff)
  then show "map hash_buffer (file_pieces (unat PIECE_SIZE) f) ! i = hashes ! i"
    using layout_slice [OF assms(3) i] i assms(3) by (simp add: layout_ok_def)
qed

text \<open>A file that has just been hashed and is opened for seeding with the published count is verified.\<close>

lemma seed_verified:
  assumes "open_for_seed True sz pc s0 = (True, s)" and "unat pc + 7 < 2 ^ 32"
    and "unat sz = length f" and "unat pc = length (file_pieces (unat PIECE_SIZE) f)"
  shows "ps_ok s \<and> complete s \<and> layout_ok s f \<and> verified (map hash_buffer (file_pieces (unat PIECE_SIZE) f)) s f"
proof -
  have s: "s = \<lparr>ps_fd = True, ps_size = sz, ps_count = pc, ps_have = replicate (unat (bitmap_bytes pc)) 0xFF\<rparr>"
    using assms(1) by (simp add: open_for_seed_def)
  have ok: "ps_ok s" using assms(2) by (simp add: s ps_ok_def)
  have l: "layout_ok s f" using assms(3,4) by (simp add: s layout_ok_def)
  have "complete s"
    using bit_of_ones [OF ps_ok_index [OF ok, unfolded s]] assms(2)
    by (simp add: complete_iff s)
  moreover have "verified (map hash_buffer (file_pieces (unat PIECE_SIZE) f)) s f"
    using layout_slice [OF l] l by (auto simp: verified_def layout_ok_def)
  ultimately show ?thesis using ok l by simp
qed

text \<open>Two files of the same size whose pieces have the same hashes are the same file, or a collision of SHA-1.\<close>

lemma same_piece_hashes:
  assumes h: "map hash_buffer (file_pieces n f) = map hash_buffer (file_pieces n g)" and n: "0 < n"
  shows "piece_blob n f = piece_blob n g \<and>
    (f = g \<or> (\<exists>i < length (file_pieces n g).
       file_pieces n f ! i \<noteq> file_pieces n g ! i \<and> rfc_sha1 (file_pieces n f ! i) = rfc_sha1 (file_pieces n g ! i)))"
proof
  show "piece_blob n f = piece_blob n g" using h by (simp add: piece_blob_def)
  have l: "length (file_pieces n f) = length (file_pieces n g)" using h by (rule map_eq_imp_length_eq)
  show "f = g \<or> (\<exists>i < length (file_pieces n g).
      file_pieces n f ! i \<noteq> file_pieces n g ! i \<and> rfc_sha1 (file_pieces n f ! i) = rfc_sha1 (file_pieces n g ! i))"
  proof (cases "file_pieces n f = file_pieces n g")
    case True
    then have "concat (file_pieces n f) = concat (file_pieces n g)" by (rule arg_cong)
    then have "f = g" by (simp only: concat_file_pieces [OF n])
    then show ?thesis ..
  next
    case False
    then obtain i where i: "i < length (file_pieces n g)" "file_pieces n f ! i \<noteq> file_pieces n g ! i"
      using l by (auto simp only: list_eq_iff_nth_eq)
    have "hash_buffer (file_pieces n f ! i) = hash_buffer (file_pieces n g ! i)"
      using arg_cong [OF h, of "\<lambda>xs. xs ! i"] i(1) l by (simp only: nth_map)
    then show ?thesis using i unfolding hash_buffer_rfc by blast
  qed
qed

lemma hash_file_ok:
  assumes "unat (hash_pc f ps) + hash_threads threads cores (hash_pc f ps) < 2 ^ 32"
    and "pool_joined (hash_pool ps ios threads cores sched f)"
    and "0 < ps" and "(length f + unat ps - 1) div unat ps < 2 ^ 32" and "\<And>i. io_calm (ios i)"
  shows "hash_file True ps ios threads cores sched f =
    Some (rfc_sha1 (piece_blob (unat ps) f), piece_blob (unat ps) f, of_nat (length f))"
proof -
  let ?p = "hash_pool ps ios threads cores sched f"
  have "\<not> (\<exists>i < length (file_pieces (unat ps) f). hash_job f ps ios i = None)"
    using hash_job_calm [of ios] assms(5) by blast
  with file_hash_pool [OF assms(1-4)]
  have "\<not> wp_failed ?p" "wp_slots ?p = map hash_buffer (file_pieces (unat ps) f)"
    by (metis (full_types))+
  then show ?thesis by (simp add: hash_file_def Let_def piece_blob_def hash_buffer_rfc)
qed

section \<open>The property of \<open>hash_file\<close>\<close>

text \<open>C30. With reads that succeed, the hash of a file is the SHA-1 of the concatenated hexadecimal SHA-1 of its pieces (not the SHA-1
  of its contents), whatever the number of threads and their interleaving and however the reads are split.\<close>

theorem hash_file_correct:
  assumes "unat (hash_pc f ps) + hash_threads threads cores (hash_pc f ps) < 2 ^ 32"
    and "pool_joined (hash_pool ps ios threads cores sched f)"
    and "0 < ps" and "(length f + unat ps - 1) div unat ps < 2 ^ 32" and "\<And>i. io_calm (ios i)"
  shows "hash_file True ps ios threads cores sched f =
    Some (rfc_sha1 (piece_blob (unat ps) f), piece_blob (unat ps) f, of_nat (length f))"
  using assms by (rule hash_file_ok)

theorem hash_file_correct_witness:
  "hash_file True 2 (\<lambda>i. [IoUpTo 1]) 2 1 [0, 1, 0, 1, 0, 1, 0, 1, 0, 1] [5, 6, 7] =
    Some (rfc_sha1 (piece_blob (unat (2 :: u32)) [5, 6, 7]), piece_blob (unat (2 :: u32)) [5, 6, 7], of_nat (length [5, 6, 7 :: u8]))"
proof (rule hash_file_correct)
  have n: "unat (hash_pc [5, 6, 7] 2) = 2" by (simp add: hash_pc_def)
  show "pool_joined (hash_pool 2 (\<lambda>i. [IoUpTo 1]) 2 1 [0, 1, 0, 1, 0, 1, 0, 1, 0, 1] [5, 6, 7])"
    unfolding hash_pool_def n Let_def
    by (rule pool_finishes) (auto simp: hash_threads_def n less_2_cases_iff)
  show "unat (hash_pc [5, 6, 7] 2) + hash_threads 2 1 (hash_pc [5, 6, 7] 2) < 2 ^ 32" by (simp add: n hash_threads_def)
qed (simp_all add: io_calm_def)

end
