(* ===== verification/Wire_Buffer.thy ===== *)
theory Wire_Buffer
  imports P2P_Prelude
begin

text \<open>
  \<open>common/buffer.hpp\<close> and \<open>common/buffer.cpp\<close>: the class \<open>Buffer\<close>, a byte string that grows at the end and
  a read position. \<open>put_u16\<close>, \<open>put_u32\<close> and \<open>put_u64\<close> copy the integer as it lies in memory; the model is of a
  little-endian host, the only kind the repository's README (section 33) supports.

  A \<open>get\<close> returns \<open>true\<close> and fills its out-parameter, or returns \<open>false\<close>: here a pair of an optional value
  and the buffer afterwards. \<open>get_str\<close> that fails after it has read the length leaves the read position
  behind the length, as the code does.

  The interface \<open>wire_codec\<close> says that a reader undoes a writer; it is interpreted for every integer
  width and for strings, and gives once the rules that run a decoder over encoded bytes.
\<close>

section \<open>The class\<close>

record buffer =
  buf_data :: bytes
  buf_rpos :: nat

definition new_buf :: buffer where
  "new_buf = \<lparr>buf_data = [], buf_rpos = 0\<rparr>"

definition of_bytes :: "bytes \<Rightarrow> buffer" where
  "of_bytes d = \<lparr>buf_data = d, buf_rpos = 0\<rparr>"

definition put_raw :: "bytes \<Rightarrow> buffer \<Rightarrow> buffer" where
  "put_raw p b = b\<lparr>buf_data := buf_data b @ p\<rparr>"

definition put_u8 :: "u8 \<Rightarrow> buffer \<Rightarrow> buffer" where
  "put_u8 v b = b\<lparr>buf_data := buf_data b @ [v]\<rparr>"

definition put_u16 :: "u16 \<Rightarrow> buffer \<Rightarrow> buffer" where
  "put_u16 v = put_raw (nat_le 2 (unat v))"

definition put_u32 :: "u32 \<Rightarrow> buffer \<Rightarrow> buffer" where
  "put_u32 v = put_raw (nat_le 4 (unat v))"

definition put_u64 :: "u64 \<Rightarrow> buffer \<Rightarrow> buffer" where
  "put_u64 v = put_raw (nat_le 8 (unat v))"

definition put_str :: "bytes \<Rightarrow> buffer \<Rightarrow> buffer" where
  "put_str s b = put_raw s (put_u32 (of_nat (length s)) b)"

definition remaining :: "buffer \<Rightarrow> nat" where
  "remaining b = length (buf_data b) - buf_rpos b"

definition get_raw :: "nat \<Rightarrow> buffer \<Rightarrow> bytes option \<times> buffer" where
  "get_raw n b =
    (if remaining b < n then (None, b)
     else (Some (take n (drop (buf_rpos b) (buf_data b))), b\<lparr>buf_rpos := buf_rpos b + n\<rparr>))"

definition get_int :: "nat \<Rightarrow> buffer \<Rightarrow> 'a::len word option \<times> buffer" where
  "get_int n b = (case get_raw n b of (d, b') \<Rightarrow> (map_option (\<lambda>bs. of_nat (le_nat bs)) d, b'))"

definition get_u8 :: "buffer \<Rightarrow> u8 option \<times> buffer" where
  "get_u8 = get_int 1"

definition get_u16 :: "buffer \<Rightarrow> u16 option \<times> buffer" where
  "get_u16 = get_int 2"

definition get_u32 :: "buffer \<Rightarrow> u32 option \<times> buffer" where
  "get_u32 = get_int 4"

definition get_u64 :: "buffer \<Rightarrow> u64 option \<times> buffer" where
  "get_u64 = get_int 8"

definition get_str :: "buffer \<Rightarrow> bytes option \<times> buffer" where
  "get_str b =
    (case get_u32 b of
       (None, b') \<Rightarrow> (None, b')
     | (Some n, b') \<Rightarrow>
         if remaining b' < unat n then (None, b')
         else (Some (take (unat n) (drop (buf_rpos b') (buf_data b'))),
               b'\<lparr>buf_rpos := buf_rpos b' + unat n\<rparr>))"

text \<open>
  The read position never passes the end, so the subtraction of \<open>remaining\<close> (on \<open>size_t\<close> in the code) does
  not wrap.
\<close>

definition buf_ok :: "buffer \<Rightarrow> bool" where
  "buf_ok b = (buf_rpos b \<le> length (buf_data b))"

lemma buf_ok_new [simp]: "buf_ok new_buf" "buf_ok (of_bytes d)"
  by (auto simp: buf_ok_def new_buf_def of_bytes_def)

lemma buf_ok_put [simp]: "buf_ok b \<Longrightarrow> buf_ok (put_raw p b)"
  by (simp add: buf_ok_def put_raw_def)

lemma buf_ok_get_raw: "buf_ok b \<Longrightarrow> get_raw n b = (x, b') \<Longrightarrow> buf_ok b'"
  by (auto simp: buf_ok_def get_raw_def remaining_def split: if_splits)

lemma buf_ok_get_int: "buf_ok b \<Longrightarrow> get_int n b = (x, b') \<Longrightarrow> buf_ok b'"
  by (auto simp: get_int_def split: prod.splits dest: buf_ok_get_raw)

lemma buf_ok_get_str: "buf_ok b \<Longrightarrow> get_str b = (x, b') \<Longrightarrow> buf_ok b'"
  by (auto simp: get_str_def get_u32_def remaining_def buf_ok_def
      split: prod.splits option.splits if_splits dest!: buf_ok_get_int [unfolded buf_ok_def, rotated])

text \<open>A reader as a step of a decoder: \<open>if (!in.get(x)) return false\<close>.\<close>

definition rd :: "(buffer \<Rightarrow> 'a option \<times> buffer) \<Rightarrow> buffer \<Rightarrow> ('a \<times> buffer) option" where
  "rd get b = (case get b of (None, _) \<Rightarrow> None | (Some x, b') \<Rightarrow> Some (x, b'))"

text \<open>The loop \<open>for (i = 0; i < n; i++) if (!in.get(x[i])) return false\<close>.\<close>

fun rd_list :: "(buffer \<Rightarrow> ('a \<times> buffer) option) \<Rightarrow> nat \<Rightarrow> buffer \<Rightarrow> ('a list \<times> buffer) option" where
  "rd_list g 0 b = Some ([], b)"
| "rd_list g (Suc n) b =
     do { (x, b) \<leftarrow> g b; (xs, b) \<leftarrow> rd_list g n b; Some (x # xs, b) }"

text \<open>The same loop where each element goes into a container: \<open>get(x); c.insert(x)\<close>.\<close>

fun rd_into ::
    "('a \<Rightarrow> 'c \<Rightarrow> 'c) \<Rightarrow> (buffer \<Rightarrow> ('a \<times> buffer) option) \<Rightarrow> nat \<Rightarrow> 'c \<Rightarrow> buffer \<Rightarrow> ('c \<times> buffer) option" where
  "rd_into ins g 0 c b = Some (c, b)"
| "rd_into ins g (Suc n) c b = do { (x, b) \<leftarrow> g b; rd_into ins g n (ins x c) b }"

text \<open>A bitfield: \<open>bits.resize(n); if (n > 0 && !in.get_raw(bits.data(), n)) return false\<close>.\<close>

definition rd_bits :: "u32 \<Rightarrow> buffer \<Rightarrow> (bytes \<times> buffer) option" where
  "rd_bits n b = (if n > 0 then rd (get_raw (unat n)) b else Some ([], b))"

section \<open>What the writers append\<close>

definition enc_u8 :: "u8 \<Rightarrow> bytes" where
  "enc_u8 v = [v]"

definition enc_u16 :: "u16 \<Rightarrow> bytes" where
  "enc_u16 v = nat_le 2 (unat v)"

definition enc_u32 :: "u32 \<Rightarrow> bytes" where
  "enc_u32 v = nat_le 4 (unat v)"

definition enc_u64 :: "u64 \<Rightarrow> bytes" where
  "enc_u64 v = nat_le 8 (unat v)"

definition enc_str :: "bytes \<Rightarrow> bytes" where
  "enc_str s = enc_u32 (of_nat (length s)) @ s"

lemma buf_data_put [simp]:
  "buf_data new_buf = []"
  "buf_data (of_bytes d) = d"
  "buf_data (put_raw p b) = buf_data b @ p"
  "buf_data (put_u8 v8 b) = buf_data b @ enc_u8 v8"
  "buf_data (put_u16 v16 b) = buf_data b @ enc_u16 v16"
  "buf_data (put_u32 v32 b) = buf_data b @ enc_u32 v32"
  "buf_data (put_u64 v64 b) = buf_data b @ enc_u64 v64"
  "buf_data (put_str s b) = buf_data b @ enc_str s"
  by (simp_all add: new_buf_def of_bytes_def put_raw_def put_u8_def put_u16_def put_u32_def put_u64_def
      put_str_def enc_u8_def enc_u16_def enc_u32_def enc_u64_def enc_str_def)

lemma fold_put: "(\<And>x b. buf_data (p x b) = buf_data b @ e x) \<Longrightarrow>
    buf_data (fold p xs b) = buf_data b @ concat (map e xs)"
  by (induction xs arbitrary: b) auto

lemma length_enc [simp]:
  "length (enc_u8 v8) = 1" "length (enc_u16 v16) = 2" "length (enc_u32 v32) = 4"
  "length (enc_u64 v64) = 8" "length (enc_str s) = 4 + length s"
  by (simp_all add: enc_u8_def enc_u16_def enc_u32_def enc_u64_def enc_str_def)

text \<open>A string whose length fits the 32-bit prefix.\<close>

definition str_ok :: "bytes \<Rightarrow> bool" where
  "str_ok s = (length s < 2 ^ 32)"

section \<open>Readers undo writers\<close>

text \<open>A buffer that has read \<open>pre\<close> and still holds \<open>rest\<close>.\<close>

definition buf_at :: "bytes \<Rightarrow> bytes \<Rightarrow> buffer" where
  "buf_at pre rest = \<lparr>buf_data = pre @ rest, buf_rpos = length pre\<rparr>"

lemma of_bytes_at [wire]: "of_bytes d = buf_at [] d"
  by (simp add: of_bytes_def buf_at_def)

lemma buf_ok_at [simp]: "buf_ok (buf_at pre rest)"
  by (simp add: buf_ok_def buf_at_def)

lemma buf_data_at [simp]: "buf_data (buf_at pre rest) = pre @ rest"
  by (simp add: buf_at_def)

lemma remaining_at [simp]: "remaining (buf_at pre rest) = length rest"
  by (simp add: remaining_def buf_at_def)

lemma buf_at_cases:
  assumes "buf_ok b"
  obtains pre rest where "b = buf_at pre rest"
proof
  show "b = buf_at (take (buf_rpos b) (buf_data b)) (drop (buf_rpos b) (buf_data b))"
    using assms by (cases b) (simp add: buf_ok_def buf_at_def)
qed

lemma buf_at_eq: "buf_at p r = buf_at q s \<longleftrightarrow> p = q \<and> r = s"
  by (auto simp: buf_at_def append_eq_append_conv)

lemma get_raw_at: "get_raw n (buf_at pre rest) =
    (if length rest < n then (None, buf_at pre rest)
     else (Some (take n rest), buf_at (pre @ take n rest) (drop n rest)))"
  by (simp add: get_raw_def) (simp add: buf_at_def)

lemma get_int_at: "get_int n (buf_at pre rest) =
    (if length rest < n then (None, buf_at pre rest)
     else (Some (of_nat (le_nat (take n rest))), buf_at (pre @ take n rest) (drop n rest)))"
  by (simp add: get_int_def get_raw_at)

text \<open>A decoder that recovers what was encoded.\<close>

locale wire_reader =
  fixes enc :: "'a \<Rightarrow> bytes"
    and dec :: "buffer \<Rightarrow> ('a \<times> buffer) option"
    and wf :: "'a \<Rightarrow> bool"
  assumes dec_enc: "wf x \<Longrightarrow> dec (buf_at pre (enc x @ rest)) = Some (x, buf_at (pre @ enc x) rest)"
begin

lemma dec_enc_end: "wf x \<Longrightarrow> dec (buf_at pre (enc x)) = Some (x, buf_at (pre @ enc x) [])"
  using dec_enc [where rest = "[]"] by simp

text \<open>The encoding is injective and no encoding is a proper prefix of another.\<close>

lemma enc_prefix_free:
  assumes "wf x" and "wf y" and eq: "enc x @ r = enc y @ s"
  shows "x = y \<and> r = s"
proof -
  have "Some (x, buf_at (enc x) r) = dec (buf_at [] (enc x @ r))"
    using dec_enc [OF assms(1), of "[]" r] by simp
  also have "\<dots> = Some (y, buf_at (enc y) s)"
    using dec_enc [OF assms(2), of "[]" s] by (simp add: eq)
  finally show ?thesis by (simp add: buf_at_eq)
qed

lemma dec_list: "list_all wf xs \<Longrightarrow>
    rd_list dec (length xs) (buf_at pre (concat (map enc xs) @ rest)) =
      Some (xs, buf_at (pre @ concat (map enc xs)) rest)"
proof (induction xs arbitrary: pre)
  case (Cons x xs)
  then show ?case using dec_enc [of x pre "concat (map enc xs) @ rest"] by simp
qed simp

lemma dec_into: "list_all wf xs \<Longrightarrow>
    rd_into ins dec (length xs) c (buf_at pre (concat (map enc xs) @ rest)) =
      Some (fold ins xs c, buf_at (pre @ concat (map enc xs)) rest)"
proof (induction xs arbitrary: pre c)
  case (Cons x xs)
  then show ?case using dec_enc [of x pre "concat (map enc xs) @ rest"] by simp
qed simp

lemma dec_list_end: "list_all wf xs \<Longrightarrow>
    rd_list dec (length xs) (buf_at pre (concat (map enc xs))) =
      Some (xs, buf_at (pre @ concat (map enc xs)) [])"
  using dec_list [where rest = "[]"] by simp

lemma dec_into_end: "list_all wf xs \<Longrightarrow>
    rd_into ins dec (length xs) c (buf_at pre (concat (map enc xs))) =
      Some (fold ins xs c, buf_at (pre @ concat (map enc xs)) [])"
  using dec_into [where rest = "[]"] by simp

end

text \<open>A reader of \<open>Buffer\<close> that undoes a writer and accepts nothing else.\<close>

locale wire_codec =
  fixes enc :: "'a \<Rightarrow> bytes"
    and get :: "buffer \<Rightarrow> 'a option \<times> buffer"
    and wf :: "'a \<Rightarrow> bool"
  assumes get_enc: "wf x \<Longrightarrow> get (buf_at pre (enc x @ rest)) = (Some x, buf_at (pre @ enc x) rest)"
    and get_only: "get (buf_at pre r) = (Some x, b) \<Longrightarrow>
      wf x \<and> (\<exists>rest. r = enc x @ rest \<and> b = buf_at (pre @ enc x) rest)"
begin

lemma rd_only: "rd get (buf_at pre r) = Some (x, b) \<Longrightarrow>
    wf x \<and> (\<exists>rest. r = enc x @ rest \<and> b = buf_at (pre @ enc x) rest)"
  by (auto simp: rd_def split: prod.splits option.splits dest: get_only)

lemma rd_list_only: "rd_list (rd get) n (buf_at pre r) = Some (xs, b) \<Longrightarrow>
    length xs = n \<and> list_all wf xs \<and>
    (\<exists>rest. r = concat (map enc xs) @ rest \<and> b = buf_at (pre @ concat (map enc xs)) rest)"
proof (induction n arbitrary: pre r xs)
  case (Suc n)
  then obtain x b' ys where 1: "rd get (buf_at pre r) = Some (x, b')"
    and 2: "rd_list (rd get) n b' = Some (ys, b)" and xs: "xs = x # ys"
    by (auto simp: bind_eq_Some_conv split: prod.splits)
  from rd_only [OF 1] obtain r1 where "wf x" and r: "r = enc x @ r1"
    and b': "b' = buf_at (pre @ enc x) r1" by auto
  from Suc.IH [OF 2 [unfolded b']] \<open>wf x\<close> show ?case by (auto simp: xs r)
qed simp

end

sublocale wire_codec \<subseteq> wire_reader enc "rd get" wf
  by unfold_locales (simp add: rd_def get_enc)

text \<open>The integers have a fixed width: reading fails only on too few bytes.\<close>

locale fixed_codec = wire_codec +
  fixes width :: nat
  assumes all_wf: "wf x"
    and length_enc: "length (enc x) = width"
    and get_enough: "width \<le> length r \<Longrightarrow> \<exists>x b. get (buf_at pre r) = (Some x, b)"
begin

lemma rd_None_iff: "rd get (buf_at pre r) = None \<longleftrightarrow> length r < width"
proof
  show "length r < width" if "rd get (buf_at pre r) = None"
  proof (rule ccontr)
    assume "\<not> length r < width"
    then obtain x b where "get (buf_at pre r) = (Some x, b)"
      using get_enough [of r pre] by auto
    with that show False by (simp add: rd_def)
  qed
  show "rd get (buf_at pre r) = None" if "length r < width"
  proof (rule ccontr)
    assume "rd get (buf_at pre r) \<noteq> None"
    then obtain x b where "rd get (buf_at pre r) = Some (x, b)" by auto
    from rd_only [OF this] that show False by (auto simp: length_enc)
  qed
qed

end

lemma int_codec:
  assumes n: "n \<noteq> 0" and w: "LENGTH('a) = 8 * n"
  shows "fixed_codec (\<lambda>v :: 'a::len word. nat_le n (unat v)) (get_int n) (\<lambda>_. True) n"
proof
  have p: "(2::nat) ^ LENGTH('a) = 256 ^ n" by (simp add: w power_mult)
  show "get_int n (buf_at pre (nat_le n (unat x) @ rest)) =
      (Some x, buf_at (pre @ nat_le n (unat x)) rest)" for x :: "'a word" and pre rest
    using unsigned_less [of x, where ?'a = nat] by (simp add: get_int_at le_nat_nat_le p)
  show "True \<and> (\<exists>rest. r = nat_le n (unat x) @ rest \<and> b = buf_at (pre @ nat_le n (unat x)) rest)"
    if get: "get_int n (buf_at pre r) = (Some x, b)" for pre r and x :: "'a word" and b
  proof -
    from get have r: "n \<le> length r" and x: "x = of_nat (le_nat (take n r))"
      and b: "b = buf_at (pre @ take n r) (drop n r)"
      by (auto simp: get_int_at split: if_splits)
    have "le_nat (take n r) < 2 ^ LENGTH('a)"
      using le_nat_less [of "take n r"] r by (simp add: p)
    then have "unat x = le_nat (take n r)" by (simp add: x unat_of_nat)
    then have "nat_le n (unat x) = take n r" using r by (simp add: nat_le_le_nat)
    then show ?thesis using b by (metis append_take_drop_id)
  qed
qed (auto simp: get_int_at)

interpretation u8_codec: fixed_codec enc_u8 get_u8 "\<lambda>_. True" 1
proof -
  have "enc_u8 = (\<lambda>v. nat_le 1 (unat v))" by (rule ext) (simp add: enc_u8_def)
  then show "fixed_codec enc_u8 get_u8 (\<lambda>_. True) 1"
    using int_codec [of 1, where ?'a = 8] by (simp add: get_u8_def)
qed

interpretation u16_codec: fixed_codec enc_u16 get_u16 "\<lambda>_. True" 2
  using int_codec [of 2, where ?'a = 16] by (simp add: get_u16_def enc_u16_def [abs_def])

interpretation u32_codec: fixed_codec enc_u32 get_u32 "\<lambda>_. True" 4
  using int_codec [of 4, where ?'a = 32] by (simp add: get_u32_def enc_u32_def [abs_def])

interpretation u64_codec: fixed_codec enc_u64 get_u64 "\<lambda>_. True" 8
  using int_codec [of 8, where ?'a = 64] by (simp add: get_u64_def enc_u64_def [abs_def])

lemma unat_len_str: "str_ok s \<Longrightarrow> unat (of_nat (length s) :: u32) = length s"
  by (simp add: str_ok_def unat_of_nat)

lemma get_str_at: "get_str (buf_at pre r) =
    (case get_u32 (buf_at pre r) of
       (None, b) \<Rightarrow> (None, b)
     | (Some n, b) \<Rightarrow>
         if length r < 4 + unat n then (None, b)
         else (Some (take (unat n) (drop 4 r)), buf_at (pre @ take (4 + unat n) r) (drop (4 + unat n) r)))"
proof (cases "length r < 4")
  case True
  then show ?thesis by (simp add: get_str_def get_u32_def get_int_at)
next
  case False
  define u v where "u = take 4 r" and "v = drop 4 r"
  have r: "r = u @ v" and u: "length u = 4" using False by (auto simp: u_def v_def)
  have step: "(let b' = buf_at (pre @ u) v in
      if remaining b' < n then (None, b')
      else (Some (take n (drop (buf_rpos b') (buf_data b'))), b'\<lparr>buf_rpos := buf_rpos b' + n\<rparr>)) =
     (if length r < 4 + n then (None, buf_at (pre @ u) v)
      else (Some (take n v), buf_at (pre @ take (4 + n) r) (drop (4 + n) r)))" for n
    by (simp add: Let_def remaining_def buf_at_def r u)
  show ?thesis using step by (simp add: get_str_def get_u32_def get_int_at Let_def r u)
qed

interpretation str_codec: wire_codec enc_str get_str str_ok
proof
  show "get_str (buf_at pre (enc_str x @ rest)) = (Some x, buf_at (pre @ enc_str x) rest)"
    if "str_ok x" for x pre rest
    using u32_codec.get_enc [where x = "of_nat (length x)" and pre = pre and rest = "x @ rest"] unat_len_str [OF that]
    by (simp add: get_str_at enc_str_def)
  show "str_ok x \<and> (\<exists>rest. r = enc_str x @ rest \<and> b = buf_at (pre @ enc_str x) rest)"
    if get: "get_str (buf_at pre r) = (Some x, b)" for pre r x b
  proof -
    from get obtain n b1 where 1: "get_u32 (buf_at pre r) = (Some n, b1)"
      and len: "4 + unat n \<le> length r" and x: "x = take (unat n) (drop 4 r)"
      and b: "b = buf_at (pre @ take (4 + unat n) r) (drop (4 + unat n) r)"
      by (auto simp: get_str_at split: prod.splits option.splits if_splits)
    from u32_codec.get_only [OF 1] obtain r1 where r: "r = enc_u32 n @ r1" by auto
    have lx: "length x = unat n" using len by (simp add: x)
    then have e: "enc_str x = take (4 + unat n) r"
      using len by (simp add: enc_str_def x r)
    have "str_ok x" using lx unsigned_less [of n, where ?'a = nat] by (simp add: str_ok_def)
    then show ?thesis using b e by (metis append_take_drop_id)
  qed
qed

lemmas [wire] =
  u8_codec.dec_enc u8_codec.dec_enc_end u16_codec.dec_enc u16_codec.dec_enc_end
  u32_codec.dec_enc u32_codec.dec_enc_end u64_codec.dec_enc u64_codec.dec_enc_end
  str_codec.dec_enc str_codec.dec_enc_end
  str_codec.dec_list str_codec.dec_list_end str_codec.dec_into str_codec.dec_into_end

lemma rd_raw [wire]: "length d = n \<Longrightarrow> rd (get_raw n) (buf_at pre (d @ rest)) = Some (d, buf_at (pre @ d) rest)"
  by (simp add: rd_def get_raw_at)

lemma rd_raw_end [wire]: "length d = n \<Longrightarrow> rd (get_raw n) (buf_at pre d) = Some (d, buf_at (pre @ d) [])"
  by (simp add: rd_def get_raw_at)

lemma rd_bits_enc [wire]:
  "str_ok d \<Longrightarrow> rd_bits (of_nat (length d)) (buf_at pre (d @ rest)) = Some (d, buf_at (pre @ d) rest)"
proof -
  assume "str_ok d"
  then have u: "unat (of_nat (length d) :: u32) = length d" by (rule unat_len_str)
  then have "(of_nat (length d) :: u32) > 0 \<longleftrightarrow> d \<noteq> []"
    by (simp add: word_less_nat_alt)
  then show ?thesis by (simp add: rd_bits_def u rd_raw)
qed

lemma rd_bits_end [wire]:
  "str_ok d \<Longrightarrow> rd_bits (of_nat (length d)) (buf_at pre d) = Some (d, buf_at (pre @ d) [])"
  using rd_bits_enc [where rest = "[]"] by simp

lemma str_ok_simps [simp]: "str_ok []"
  by (simp add: str_ok_def)

section \<open>Decoders look only at what they consume\<close>

text \<open>
  A decoder that succeeds takes a prefix of what is left, and takes the same prefix whatever follows. The
  trackers rely on it when they append fields to a payload that a client sent.
\<close>

locale stable_reader =
  fixes dec :: "buffer \<Rightarrow> ('a \<times> buffer) option"
  assumes stable: "dec (buf_at pre r) = Some (x, b) \<Longrightarrow>
    \<exists>u v. r = u @ v \<and> b = buf_at (pre @ u) v \<and>
      (\<forall>q. dec (buf_at pre (r @ q)) = Some (x, buf_at (pre @ u) (v @ q)))"
begin

text \<open>All of the input was consumed: anything may follow.\<close>

lemma extend_all:
  "dec (buf_at [] r) = Some (x, b) \<Longrightarrow> remaining b = 0 \<Longrightarrow> dec (buf_at [] (r @ q)) = Some (x, buf_at r q)"
  using stable [of "[]" r x b] by auto

lemma extend_any: "dec (buf_at [] r) = Some (x, b) \<Longrightarrow> \<exists>b'. dec (buf_at [] (r @ q)) = Some (x, b')"
  using stable [of "[]" r x b] by auto

end

sublocale wire_codec \<subseteq> stable_reader "rd get"
proof
  show "\<exists>u v. r = u @ v \<and> b = buf_at (pre @ u) v \<and>
      (\<forall>q. rd get (buf_at pre (r @ q)) = Some (x, buf_at (pre @ u) (v @ q)))"
    if dec: "rd get (buf_at pre r) = Some (x, b)" for pre r x b
  proof -
    from rd_only [OF dec] obtain v where x: "wf x" and r: "r = enc x @ v"
      and b: "b = buf_at (pre @ enc x) v" by auto
    have "rd get (buf_at pre (r @ q)) = Some (x, buf_at (pre @ enc x) (v @ q))" for q
      using dec_enc [OF x, of pre "v @ q"] by (simp add: r)
    then show ?thesis using r b by blast
  qed
qed

lemma stable_return: "stable_reader (\<lambda>b. Some (x, b))"
  by unfold_locales (rule exI [of _ "[]"], auto)

lemma stable_bind:
  assumes f: "stable_reader f" and g: "\<And>x. stable_reader (g x)"
  shows "stable_reader (\<lambda>b. do { (x, b) \<leftarrow> f b; g x b })"
proof
  fix pre r y b
  assume "(do { (x, b) \<leftarrow> f (buf_at pre r); g x b }) = Some (y, b)"
  then obtain x b1 where 1: "f (buf_at pre r) = Some (x, b1)" and 2: "g x b1 = Some (y, b)"
    by (auto simp: bind_eq_Some_conv)
  from stable_reader.stable [OF f 1] obtain u v where r: "r = u @ v" and b1: "b1 = buf_at (pre @ u) v"
    and fq: "\<forall>q. f (buf_at pre (r @ q)) = Some (x, buf_at (pre @ u) (v @ q))" by auto
  from stable_reader.stable [OF g 2 [unfolded b1]] obtain u' v' where v: "v = u' @ v'"
    and b: "b = buf_at ((pre @ u) @ u') v'"
    and gq: "\<forall>q. g x (buf_at (pre @ u) (v @ q)) = Some (y, buf_at ((pre @ u) @ u') (v' @ q))" by auto
  show "\<exists>u v. r = u @ v \<and> b = buf_at (pre @ u) v \<and>
      (\<forall>q. (do { (x, b) \<leftarrow> f (buf_at pre (r @ q)); g x b }) = Some (y, buf_at (pre @ u) (v @ q)))"
    using r v b fq gq by (intro exI [of _ "u @ u'"] exI [of _ v']) auto
qed

lemma stable_rd_list: "stable_reader g \<Longrightarrow> stable_reader (rd_list g n)"
proof (induction n)
  case 0
  show ?case using stable_return [of "[]"] by (simp add: rd_list.simps(1) [abs_def])
next
  case (Suc n)
  have "rd_list g (Suc n) = (\<lambda>b. do { (x, b) \<leftarrow> g b; (xs, b) \<leftarrow> rd_list g n b; Some (x # xs, b) })"
    by (rule ext) simp
  then show ?case using Suc by (simp only:) (intro stable_bind stable_return, auto)
qed

lemma stable_rd_raw: "stable_reader (rd (get_raw n))"
proof
  show "\<exists>u v. r = u @ v \<and> b = buf_at (pre @ u) v \<and>
      (\<forall>q. rd (get_raw n) (buf_at pre (r @ q)) = Some (x, buf_at (pre @ u) (v @ q)))"
    if "rd (get_raw n) (buf_at pre r) = Some (x, b)" for pre r x b
    using that
    by (intro exI [of _ "take n r"] exI [of _ "drop n r"]) (auto simp: rd_def get_raw_at split: if_splits)
qed

lemma stable_rd_bits: "stable_reader (rd_bits n)"
  using stable_rd_raw [of "unat n"] stable_return [of "[]"]
  by (cases "n > 0") (simp_all add: rd_bits_def [abs_def])

lemmas stable_intros = stable_bind stable_return stable_rd_list stable_rd_bits
  u8_codec.stable_reader_axioms u16_codec.stable_reader_axioms u32_codec.stable_reader_axioms
  u64_codec.stable_reader_axioms str_codec.stable_reader_axioms

section \<open>The property of the buffer\<close>

text \<open>A string that was appended to a buffer is read back from where it was written, whatever was there before and whatever
  follows, and the read position ends behind it.\<close>

lemma string_roundtrip:
  assumes "length s < 2 ^ 32"
  shows "get_str \<lparr>buf_data = buf_data (put_str s b) @ rest, buf_rpos = length (buf_data b)\<rparr> =
    (Some s, \<lparr>buf_data = buf_data (put_str s b) @ rest, buf_rpos = length (buf_data (put_str s b))\<rparr>)"
  using str_codec.get_enc [of s "buf_data b" rest] assms by (simp add: str_ok_def buf_at_def)

end
