(* ===== verification/Peer_Workers.thy ===== *)
theory Peer_Workers
  imports File_Hash Wire_Buffer
begin

text \<open>
  \<open>DownloadManager::peer_worker\<close>, \<open>announce\<close> and \<open>maybe_announce\<close> of \<open>client/download_manager.cpp\<close>: the threads that
  fetch the missing pieces of one download in one round. They share the store, the file and the queue.

  The threads are a step relation. A step is what one thread does between two points where another can come in:
  it takes a piece off the queue, one call of \<open>pwrite\<close> happens, it marks a piece, it gives one back. What the network
  answers is any of the rules of the step. A piece index is a \<open>nat\<close> here (the code's \<open>uint32_t\<close> ranges over the
  pieces of the job, so it does not wrap), and the back of the queue, where the code pushes and pops, is the end of the list.
\<close>

section \<open>The state of a round\<close>

definition max_consecutive_failures :: nat where
  "max_consecutive_failures = 3"

definition announce_every_pieces :: u32 where
  "announce_every_pieces = 32"

definition announce_interval :: nat where
  "announce_interval = 1000000000"

text \<open>
  Where a thread is. The number is \<open>consecutive_failures\<close>; \<open>W_Write n i d put\<close> is inside \<open>write_piece\<close> with \<open>put\<close> bytes
  written.
\<close>

datatype worker =
    W_Connect
  | W_Idle nat
  | W_Fetch nat nat
  | W_Write nat nat bytes nat
  | W_Tell
  | W_Announce
  | W_Done

record announcer =
  an_pieces :: u32
  an_last :: nat

record round =
  rd_store :: piece_store
  rd_disk :: disk
  rd_queue :: "nat list"
  rd_workers :: "worker list"
  rd_ann :: announcer
  rd_told :: "bytes list"

text \<open>\<open>maybe_announce\<close> up to the call of \<open>announce\<close>: whether it is due. Times are nanoseconds.\<close>

definition maybe_announce :: "nat \<Rightarrow> announcer \<Rightarrow> bool \<times> announcer" where
  "maybe_announce now a =
    (let a = a\<lparr>an_pieces := an_pieces a + 1\<rparr> in
     (an_pieces a \<ge> announce_every_pieces \<or> now - an_last a \<ge> announce_interval, a))"

definition announce_reset :: "nat \<Rightarrow> announcer \<Rightarrow> announcer" where
  "announce_reset now a = a\<lparr>an_pieces := 0, an_last := now\<rparr>"

definition have_bytes :: "bytes \<Rightarrow> bytes \<Rightarrow> bytes \<Rightarrow> bytes" where
  "have_bytes g f bits =
     buf_data (put_raw bits (put_u32 (of_nat (length bits)) (put_str f (put_str g new_buf))))"

section \<open>The steps\<close>

definition set_worker :: "nat \<Rightarrow> worker \<Rightarrow> round \<Rightarrow> round" where
  "set_worker t w s = s\<lparr>rd_workers := (rd_workers s)[t := w]\<rparr>"

text \<open>The piece goes back on the queue; the third failure in a row ends the thread.\<close>

definition give_back :: "nat \<Rightarrow> nat \<Rightarrow> nat \<Rightarrow> round \<Rightarrow> round" where
  "give_back t n i s =
     set_worker t (if max_consecutive_failures \<le> n + 1 then W_Done else W_Idle (n + 1))
       (s\<lparr>rd_queue := rd_queue s @ [i]\<rparr>)"

text \<open>The checks of \<open>write_piece\<close> before it touches the disk.\<close>

definition write_ready :: "bytes list \<Rightarrow> piece_store \<Rightarrow> nat \<Rightarrow> bytes \<Rightarrow> bool" where
  "write_ready hashes st i d \<longleftrightarrow> of_nat i < ps_count st \<and> length d = unat (piece_len st (of_nat i)) \<and>
     hash_buffer d = hashes ! i \<and> ps_fd st"

inductive worker_step :: "bytes list \<Rightarrow> nat \<Rightarrow> round \<Rightarrow> round \<Rightarrow> bool" for hashes t where
  connect_fails: "rd_workers s ! t = W_Connect \<Longrightarrow> worker_step hashes t s (set_worker t W_Done s)"
| connects: "rd_workers s ! t = W_Connect \<Longrightarrow> worker_step hashes t s (set_worker t (W_Idle 0) s)"
| queue_empty: "rd_workers s ! t = W_Idle n \<Longrightarrow> rd_queue s = [] \<Longrightarrow> worker_step hashes t s (set_worker t W_Done s)"
| takes: "rd_workers s ! t = W_Idle n \<Longrightarrow> rd_queue s \<noteq> [] \<Longrightarrow>
    worker_step hashes t s
      (set_worker t (W_Fetch n (last (rd_queue s))) (s\<lparr>rd_queue := butlast (rd_queue s)\<rparr>))"
| fetch_fails: "rd_workers s ! t = W_Fetch n i \<Longrightarrow> worker_step hashes t s (give_back t n i s)"
| rejected: "rd_workers s ! t = W_Fetch n i \<Longrightarrow> \<not> write_ready hashes (rd_store s) i d \<Longrightarrow>
    worker_step hashes t s (give_back t n i s)"
| fetched: "rd_workers s ! t = W_Fetch n i \<Longrightarrow> write_ready hashes (rd_store s) i d \<Longrightarrow>
    worker_step hashes t s (set_worker t (W_Write n i d 0) s)"
| writes: "rd_workers s ! t = W_Write n i d put \<Longrightarrow> 0 < k \<Longrightarrow> put + k \<le> length d \<Longrightarrow>
    worker_step hashes t s
      (set_worker t (W_Write n i d (put + k))
        (s\<lparr>rd_disk := disk_write (i * unat PIECE_SIZE + put) (take k (drop put d)) (rd_disk s)\<rparr>))"
| write_fails: "rd_workers s ! t = W_Write n i d put \<Longrightarrow> put < length d \<Longrightarrow>
    worker_step hashes t s (give_back t n i s)"
| marks: "rd_workers s ! t = W_Write n i d put \<Longrightarrow> put = length d \<Longrightarrow>
    worker_step hashes t s
      (set_worker t W_Tell (s\<lparr>rd_store := (rd_store s)\<lparr>ps_have := mark i (ps_have (rd_store s))\<rparr>\<rparr>))"
| tells: "rd_workers s ! t = W_Tell \<Longrightarrow> maybe_announce now (rd_ann s) = (due, a) \<Longrightarrow>
    worker_step hashes t s (set_worker t (if due then W_Announce else W_Idle 0) (s\<lparr>rd_ann := a\<rparr>))"
| announces: "rd_workers s ! t = W_Announce \<Longrightarrow>
    worker_step hashes t s
      (set_worker t (W_Idle 0)
        (s\<lparr>rd_ann := announce_reset now (rd_ann s), rd_told := rd_told s @ [bitfield (rd_store s)]\<rparr>))"

inductive_cases worker_stepE: "worker_step hashes t s s'"
inductive_simps worker_step_done: "worker_step hashes t s s'"

definition round_step :: "bytes list \<Rightarrow> round \<Rightarrow> round \<Rightarrow> bool" where
  "round_step hashes s s' \<longleftrightarrow> (\<exists>t < length (rd_workers s). worker_step hashes t s s')"

definition round_over :: "round \<Rightarrow> bool" where
  "round_over s = (\<forall>w \<in> set (rd_workers s). w = W_Done)"

section \<open>The invariant\<close>

fun holds :: "worker \<Rightarrow> nat option" where
  "holds (W_Fetch n i) = Some i"
| "holds (W_Write n i d put) = Some i"
| "holds w = None"

fun worker_ok :: "bytes list \<Rightarrow> round \<Rightarrow> worker \<Rightarrow> bool" where
  "worker_ok hashes s (W_Idle n) = (n < 3)"
| "worker_ok hashes s (W_Fetch n i) = (n < 3)"
| "worker_ok hashes s (W_Write n i d put) \<longleftrightarrow> n < 3 \<and> length d = unat (piece_len (rd_store s) (of_nat i)) \<and>
     hash_buffer d = hashes ! i \<and> put \<le> length d \<and>
     take put (drop (i * unat PIECE_SIZE) (rd_disk s)) = take put d"
| "worker_ok hashes s w = True"

abbreviation has_piece :: "round \<Rightarrow> nat \<Rightarrow> bool" where
  "has_piece s i \<equiv> bit_of (ps_have (rd_store s)) i"

abbreviation piece_total :: "round \<Rightarrow> nat" where
  "piece_total s \<equiv> unat (ps_count (rd_store s))"

text \<open>The store keeps its promise, and the file is large enough for every piece.\<close>

definition store_inv :: "bytes list \<Rightarrow> piece_store \<Rightarrow> disk \<Rightarrow> bool" where
  "store_inv hashes st f \<longleftrightarrow> ps_ok st \<and> verified hashes st f \<and> (\<forall>i < unat (ps_count st). piece_in st f i)"

definition missing :: "piece_store \<Rightarrow> nat set" where
  "missing st = {i. i < unat (ps_count st) \<and> \<not> bit_of (ps_have st) i}"

definition held :: "round \<Rightarrow> nat \<Rightarrow> nat option" where
  "held s t = (if t < length (rd_workers s) then holds (rd_workers s ! t) else None)"

text \<open>Every missing piece is in exactly one place: on the queue, or in the hands of one thread.\<close>

definition accounted :: "nat list \<Rightarrow> nat set \<Rightarrow> (nat \<Rightarrow> nat option) \<Rightarrow> bool" where
  "accounted q m h \<longleftrightarrow> distinct q \<and> (\<forall>i. i \<in> m \<longleftrightarrow> i \<in> set q \<or> (\<exists>t. h t = Some i)) \<and>
     (\<forall>t i. h t = Some i \<longrightarrow> i \<notin> set q) \<and> (\<forall>t u i. h t = Some i \<longrightarrow> h u = Some i \<longrightarrow> t = u)"

lemma ex_upd: "(\<exists>u. (h(t := x)) u = Some j) \<longleftrightarrow> x = Some j \<or> (\<exists>u. u \<noteq> t \<and> h u = Some j)"
  by auto

lemma accountedI:
  assumes "distinct q" and "\<And>i. i \<in> m \<longleftrightarrow> i \<in> set q \<or> (\<exists>t. h t = Some i)"
    and "\<And>t i. h t = Some i \<Longrightarrow> i \<notin> set q" and "\<And>t u i. h t = Some i \<Longrightarrow> h u = Some i \<Longrightarrow> t = u"
  shows "accounted q m h"
  unfolding accounted_def using assms by blast

lemma accountedD:
  assumes "accounted q m h"
  shows "distinct q" and "i \<in> m \<longleftrightarrow> i \<in> set q \<or> (\<exists>t. h t = Some i)"
    and "h t = Some i \<Longrightarrow> i \<notin> set q" and "h t = Some i \<Longrightarrow> h u = Some i \<Longrightarrow> t = u"
  using assms unfolding accounted_def by blast+

lemma accounted_take:
  assumes a: "accounted (q @ [i]) m h" and n: "h t = None"
  shows "accounted q m (h(t \<mapsto> i))"
proof (rule accountedI)
  show "distinct q" using accountedD(1) [OF a] by simp
  fix j
  have "u \<noteq> t" if "h u = Some j" for u using that n by auto
  then show "j \<in> m \<longleftrightarrow> j \<in> set q \<or> (\<exists>u. (h(t \<mapsto> i)) u = Some j)"
    using accountedD(2) [OF a, of j] unfolding ex_upd by auto
next
  fix u j assume "(h(t \<mapsto> i)) u = Some j"
  then show "j \<notin> set q"
    using accountedD(1,3) [OF a] by (cases "u = t") auto
next
  fix u v j assume "(h(t \<mapsto> i)) u = Some j" "(h(t \<mapsto> i)) v = Some j"
  then show "u = v"
    using accountedD(3,4) [OF a] by (cases "u = t"; cases "v = t") auto
qed

lemma accounted_leave:
  assumes a: "accounted q m h" and t: "h t = Some i"
  shows "accounted q (m - {i}) (h(t := None))" and "accounted (q @ [i]) m (h(t := None))"
proof -
  have ne: "u \<noteq> t \<longleftrightarrow> j \<noteq> i" if "h u = Some j" for u j
    using that t accountedD(4) [OF a, of u j t] by auto
  have ex: "(\<exists>u. (h(t := None)) u = Some j) \<longleftrightarrow> (\<exists>u. h u = Some j) \<and> j \<noteq> i" for j
    unfolding ex_upd using ne by auto
  have nq: "i \<notin> set q" using accountedD(3) [OF a t] .
  show "accounted q (m - {i}) (h(t := None))"
  proof (rule accountedI)
    show "j \<in> m - {i} \<longleftrightarrow> j \<in> set q \<or> (\<exists>u. (h(t := None)) u = Some j)" for j
      unfolding ex using accountedD(2) [OF a, of j] nq by auto
    show "u = v" if "(h(t := None)) u = Some j" "(h(t := None)) v = Some j" for u v j
      using that accountedD(4) [OF a, of u j v] by (auto split: if_splits)
    show "j \<notin> set q" if "(h(t := None)) u = Some j" for u j
      using that accountedD(3) [OF a, of u j] by (auto split: if_splits)
  qed (rule accountedD(1) [OF a])
  show "accounted (q @ [i]) m (h(t := None))"
  proof (rule accountedI)
    show "distinct (q @ [i])" using accountedD(1) [OF a] nq by simp
    show "j \<in> m \<longleftrightarrow> j \<in> set (q @ [i]) \<or> (\<exists>u. (h(t := None)) u = Some j)" for j
      unfolding ex using accountedD(2) [OF a, of j] t by auto
    show "u = v" if "(h(t := None)) u = Some j" "(h(t := None)) v = Some j" for u v j
      using that accountedD(4) [OF a, of u j v] by (auto split: if_splits)
    show "j \<notin> set (q @ [i])" if "(h(t := None)) u = Some j" for u j
      using that accountedD(3) [OF a, of u j] ne [of u j] by (auto split: if_splits)
  qed
qed

definition told_ok :: "round \<Rightarrow> bool" where
  "told_ok s \<longleftrightarrow> (\<forall>b \<in> set (rd_told s). \<forall>i < piece_total s. bit_of b i \<longrightarrow> has_piece s i)"

definition round_inv :: "bytes list \<Rightarrow> round \<Rightarrow> bool" where
  "round_inv hashes s \<longleftrightarrow> store_inv hashes (rd_store s) (rd_disk s) \<and>
     accounted (rd_queue s) (missing (rd_store s)) (held s) \<and> told_ok s \<and>
     (\<forall>t < length (rd_workers s). worker_ok hashes s (rd_workers s ! t))"

lemma set_worker_simps [simp]:
  "rd_store (set_worker t w s) = rd_store s" "rd_disk (set_worker t w s) = rd_disk s"
  "rd_queue (set_worker t w s) = rd_queue s" "rd_workers (set_worker t w s) = (rd_workers s)[t := w]"
  "rd_told (set_worker t w s) = rd_told s"
  by (simp_all add: set_worker_def)

lemma worker_ok_cong:
  "rd_store s' = rd_store s \<Longrightarrow> rd_disk s' = rd_disk s \<Longrightarrow> worker_ok hashes s' w = worker_ok hashes s w"
  by (cases w) simp_all

lemma held_set_worker: "t < length (rd_workers s) \<Longrightarrow> rd_workers s' = (rd_workers s)[t := w] \<Longrightarrow>
    held s' = (held s)(t := holds w)"
  by (auto simp: held_def fun_eq_iff nth_list_update)

section \<open>Every step keeps the invariant\<close>

lemma round_invD:
  assumes "round_inv hashes s"
  shows "store_inv hashes (rd_store s) (rd_disk s)" and "accounted (rd_queue s) (missing (rd_store s)) (held s)"
    and "told_ok s" and "t < length (rd_workers s) \<Longrightarrow> worker_ok hashes s (rd_workers s ! t)"
  using assms by (auto simp: round_inv_def)

lemma round_inv_worker:
  assumes "store_inv hashes (rd_store s') (rd_disk s')" and "accounted (rd_queue s') (missing (rd_store s')) (held s')"
    and "told_ok s'" and "rd_workers s' = (rd_workers s)[t := w]" and "worker_ok hashes s' w"
    and "\<And>u. u < length (rd_workers s) \<Longrightarrow> u \<noteq> t \<Longrightarrow> worker_ok hashes s' (rd_workers s ! u)"
  shows "round_inv hashes s'"
proof -
  have "worker_ok hashes s' ((rd_workers s)[t := w] ! u)" if "u < length (rd_workers s)" for u
    using assms(5,6) that by (cases "u = t") simp_all
  then show ?thesis using assms(1-4) by (simp add: round_inv_def)
qed

text \<open>Nothing but the thread's own position changes.\<close>

lemma inv_move:
  assumes inv: "round_inv hashes s" and t: "t < length (rd_workers s)"
    and "holds w = holds (rd_workers s ! t)" and "worker_ok hashes s w"
    and same: "rd_store s' = rd_store s" "rd_disk s' = rd_disk s" "rd_queue s' = rd_queue s"
      "rd_workers s' = (rd_workers s)[t := w]" "told_ok s'"
  shows "round_inv hashes s'"
proof (rule round_inv_worker [OF _ _ same(5,4)])
  have "held s' = held s"
    using held_set_worker [OF t same(4)] assms(3) t by (simp add: held_def fun_eq_iff)
  then show "accounted (rd_queue s') (missing (rd_store s')) (held s')"
    using round_invD(2) [OF inv] same by simp
qed (use round_invD(1,4) [OF inv] assms(4) worker_ok_cong [OF same(1,2)] same in auto)

lemma inv_take:
  assumes inv: "round_inv hashes s" and t: "t < length (rd_workers s)" "rd_workers s ! t = W_Idle n"
    and q: "rd_queue s \<noteq> []"
  shows "round_inv hashes
    (set_worker t (W_Fetch n (last (rd_queue s))) (s\<lparr>rd_queue := butlast (rd_queue s)\<rparr>))" (is "round_inv hashes ?s'")
proof (rule round_inv_worker)
  have "accounted (butlast (rd_queue s) @ [last (rd_queue s)]) (missing (rd_store s)) (held s)"
    using round_invD(2) [OF inv] q by simp
  moreover have "held s t = None" using t by (simp add: held_def)
  moreover have "held ?s' = (held s)(t \<mapsto> last (rd_queue s))" using held_set_worker [OF t(1), of ?s'] by simp
  ultimately show "accounted (rd_queue ?s') (missing (rd_store ?s')) (held ?s')" using accounted_take by simp
  show "worker_ok hashes ?s' (W_Fetch n (last (rd_queue s)))" using round_invD(4) [OF inv t(1)] t(2) by simp
  show "worker_ok hashes ?s' (rd_workers s ! u)" if "u < length (rd_workers s)" for u
    using round_invD(4) [OF inv that] worker_ok_cong [of ?s' s] by simp
qed (use round_invD [OF inv] in \<open>auto simp: told_ok_def\<close>)

lemma inv_give:
  assumes inv: "round_inv hashes s" and t: "t < length (rd_workers s)" "holds (rd_workers s ! t) = Some i"
  shows "round_inv hashes (give_back t n i s)" (is "round_inv hashes ?s'")
proof (rule round_inv_worker)
  let ?w = "if max_consecutive_failures \<le> n + 1 then W_Done else W_Idle (n + 1)"
  have "held s t = Some i" using t by (simp add: held_def)
  moreover have "held ?s' = (held s)(t := None)"
    using held_set_worker [OF t(1), of ?s' ?w] by (simp add: give_back_def)
  ultimately show "accounted (rd_queue ?s') (missing (rd_store ?s')) (held ?s')"
    using accounted_leave(2) [OF round_invD(2) [OF inv]] by (simp add: give_back_def)
  show "rd_workers ?s' = (rd_workers s)[t := ?w]" by (simp add: give_back_def)
  show "worker_ok hashes ?s' ?w" by (simp add: max_consecutive_failures_def)
  show "worker_ok hashes ?s' (rd_workers s ! u)" if "u < length (rd_workers s)" for u
    using round_invD(4) [OF inv that] worker_ok_cong [of ?s' s] by (simp add: give_back_def)
qed (use round_invD [OF inv] in \<open>auto simp: give_back_def told_ok_def\<close>)

lemma held_missing:
  assumes "round_inv hashes s" and "t < length (rd_workers s)" and "holds (rd_workers s ! t) = Some i"
  shows "i < piece_total s \<and> \<not> has_piece s i"
  using accountedD(2) [OF round_invD(2) [OF assms(1)], of i] assms(2,3)
  by (auto simp: held_def missing_def)

lemma held_other:
  assumes "round_inv hashes s" and "t < length (rd_workers s)" and "holds (rd_workers s ! t) = Some i"
    and "u < length (rd_workers s)" and "u \<noteq> t"
  shows "holds (rd_workers s ! u) \<noteq> Some i"
  using accountedD(4) [OF round_invD(2) [OF assms(1)], of t i u] assms(2-) by (auto simp: held_def)

lemma disk_write_same:
  "off + length d \<le> length f \<Longrightarrow> take (length d) (drop off f) = d \<Longrightarrow> disk_write off d f = f"
proof -
  assume a: "off + length d \<le> length f" "take (length d) (drop off f) = d"
  have "drop off f = take (length d) (drop off f) @ drop (length d) (drop off f)" by (rule append_take_drop_id [symmetric])
  then have "d @ drop (off + length d) f = drop off f" using a(2) by (simp add: add.commute)
  then show ?thesis using a(1) by (simp add: disk_write_in)
qed

text \<open>A partial write is a write of a longer prefix of the piece.\<close>

lemma write_prefix:
  assumes inv: "round_inv hashes s" and t: "t < length (rd_workers s)" "rd_workers s ! t = W_Write n i d put"
    and k: "put + k \<le> length d"
  shows "disk_write (i * unat PIECE_SIZE + put) (take k (drop put d)) (rd_disk s)
    = disk_write (i * unat PIECE_SIZE) (take (put + k) d) (rd_disk s)"
    and "length (take (put + k) d) \<le> unat (piece_len (rd_store s) (of_nat i))"
    and "piece_in (rd_store s) (rd_disk s) i"
proof -
  let ?off = "i * unat PIECE_SIZE"
  have w: "length d = unat (piece_len (rd_store s) (of_nat i))" "take put (drop ?off (rd_disk s)) = take put d"
    using round_invD(4) [OF inv t(1)] t(2) by auto
  have "i < piece_total s" using held_missing [OF inv t(1)] t(2) by simp
  then show p: "piece_in (rd_store s) (rd_disk s) i"
    using round_invD(1) [OF inv] by (simp add: store_inv_def)
  then have fit: "?off + length d \<le> length (rd_disk s)" using w(1) by (simp add: piece_in_def)
  have l: "length (take put d) = put" using k by simp
  have "disk_write ?off (take put d) (rd_disk s) = rd_disk s"
    by (rule disk_write_same) (use fit k w(2) l in auto)
  then have "disk_write (?off + put) (take k (drop put d)) (rd_disk s)
      = disk_write (?off + length (take put d)) (take k (drop put d)) (disk_write ?off (take put d) (rd_disk s))"
    using l by simp
  also have "\<dots> = disk_write ?off (take put d @ take k (drop put d)) (rd_disk s)"
    by (rule disk_write_append) (use fit k in auto)
  also have "take put d @ take k (drop put d) = take (put + k) d" by (simp add: take_add)
  finally show "disk_write (?off + put) (take k (drop put d)) (rd_disk s)
      = disk_write ?off (take (put + k) d) (rd_disk s)" .
  show "length (take (put + k) d) \<le> unat (piece_len (rd_store s) (of_nat i))" using w(1) by simp
qed

lemma inv_write:
  assumes inv: "round_inv hashes s" and t: "t < length (rd_workers s)" "rd_workers s ! t = W_Write n i d put"
    and k: "put + k \<le> length d"
  shows "round_inv hashes (set_worker t (W_Write n i d (put + k))
    (s\<lparr>rd_disk := disk_write (i * unat PIECE_SIZE + put) (take k (drop put d)) (rd_disk s)\<rparr>))"
    (is "round_inv hashes ?s'")
proof (rule round_inv_worker)
  let ?off = "i * unat PIECE_SIZE" and ?d = "take (put + k) d" and ?st = "rd_store s"
  note pre = write_prefix [OF inv t k]
  have f': "rd_disk ?s' = disk_write ?off ?d (rd_disk s)" using pre(1) by simp
  have i: "i < piece_total s" "\<not> has_piece s i" using held_missing [OF inv t(1)] t(2) by auto
  have fit: "?off + length ?d \<le> length (rd_disk s)" using pre(2,3) by (simp add: piece_in_def)
  have len: "length (rd_disk ?s') = length (rd_disk s)" unfolding f' by (rule length_disk_write [OF fit])
  have "verified hashes ?st (rd_disk ?s')"
    unfolding f' using verified_scratch [OF _ i pre(2,3)] round_invD(1) [OF inv] by (simp add: store_inv_def)
  then show "store_inv hashes (rd_store ?s') (rd_disk ?s')"
    using round_invD(1) [OF inv] len by (auto simp: store_inv_def piece_in_def)
  have "held ?s' = held s"
    using held_set_worker [OF t(1), of ?s'] t by (simp add: held_def fun_eq_iff)
  then show "accounted (rd_queue ?s') (missing (rd_store ?s')) (held ?s')" using round_invD(2) [OF inv] by simp
  have own: "take (length ?d) (drop ?off (rd_disk ?s')) = ?d" unfolding f' by (rule disk_slice_same [OF fit])
  show "worker_ok hashes ?s' (W_Write n i d (put + k))"
    using round_invD(4) [OF inv t(1)] t(2) k own by (simp add: min_absorb2)
  show "worker_ok hashes ?s' (rd_workers s ! u)" if u: "u < length (rd_workers s)" "u \<noteq> t" for u
  proof (cases "rd_workers s ! u")
    case (W_Write m j e p)
    have j: "j < piece_total s" "j \<noteq> i"
      using held_missing [OF inv u(1)] held_other [OF inv t(1) _ u, of i] W_Write t(2) by auto
    have "piece_in ?st (rd_disk s) j" using round_invD(1) [OF inv] j(1) by (simp add: store_inv_def)
    then have sl: "piece_slice ?st (rd_disk ?s') j = piece_slice ?st (rd_disk s) j"
      unfolding f' using write_other_slice [OF i(1) j(1) _ pre(2,3)] j(2) by simp
    have w: "worker_ok hashes s (W_Write m j e p)" using round_invD(4) [OF inv u(1)] W_Write by simp
    then have "take p (drop (j * unat PIECE_SIZE) (rd_disk ?s')) = take p (piece_slice ?st (rd_disk ?s') j)"
      by (simp add: piece_slice_def min_absorb1)
    also have "\<dots> = take p e" unfolding sl using w by (simp add: piece_slice_def min_absorb1)
    finally show ?thesis using w W_Write by simp
  qed (use round_invD(4) [OF inv u(1)] in auto)
qed (use round_invD [OF inv] in \<open>auto simp: told_ok_def\<close>)

lemma missing_mark:
  "ps_ok st \<Longrightarrow> i < unat (ps_count st) \<Longrightarrow> missing (st\<lparr>ps_have := mark i (ps_have st)\<rparr>) = missing st - {i}"
  using bit_of_mark [OF ps_ok_index, of st i] by (auto simp: missing_def)

lemma inv_mark:
  assumes inv: "round_inv hashes s" and t: "t < length (rd_workers s)" "rd_workers s ! t = W_Write n i d (length d)"
  shows "round_inv hashes
    (set_worker t W_Tell (s\<lparr>rd_store := (rd_store s)\<lparr>ps_have := mark i (ps_have (rd_store s))\<rparr>\<rparr>))"
    (is "round_inv hashes ?s'")
proof (rule round_inv_worker)
  let ?st = "rd_store s" and ?off = "i * unat PIECE_SIZE"
  have w: "length d = unat (piece_len ?st (of_nat i))" "hash_buffer d = hashes ! i"
      "take (length d) (drop ?off (rd_disk s)) = d"
    using round_invD(4) [OF inv t(1)] t(2) by auto
  have i: "i < piece_total s" "\<not> has_piece s i" using held_missing [OF inv t(1)] t(2) by auto
  have st: "ps_ok ?st" "verified hashes ?st (rd_disk s)" "piece_in ?st (rd_disk s) i"
    using round_invD(1) [OF inv] i(1) by (auto simp: store_inv_def)
  have "hash_buffer (piece_slice ?st (rd_disk s) i) = hashes ! i"
    using w by (simp add: piece_slice_def)
  then have "verified hashes (rd_store ?s') (rd_disk ?s')"
    using verified_mark [OF st(2,1) i(1) st(3)] by simp
  then show "store_inv hashes (rd_store ?s') (rd_disk ?s')"
    using round_invD(1) [OF inv] by (simp add: store_inv_def ps_ok_def)
  have "held s t = Some i" using t by (simp add: held_def)
  moreover have "held ?s' = (held s)(t := None)" using held_set_worker [OF t(1), of ?s'] by simp
  ultimately show "accounted (rd_queue ?s') (missing (rd_store ?s')) (held ?s')"
    using accounted_leave(1) [OF round_invD(2) [OF inv]] missing_mark [OF st(1) i(1)] by simp
  show "told_ok ?s'"
    using round_invD(3) [OF inv] bit_of_mark [OF ps_ok_index [OF st(1) i(1)]] by (auto simp: told_ok_def)
  show "worker_ok hashes ?s' (rd_workers s ! u)" if "u < length (rd_workers s)" for u
    using round_invD(4) [OF inv that] by (cases "rd_workers s ! u") (simp_all add: piece_len_def)
  show "worker_ok hashes ?s' W_Tell" by (rule worker_ok.simps [THEN iffD2]) (rule TrueI)
qed simp

lemma told_announce: "told_ok s \<Longrightarrow> told_ok (s\<lparr>rd_ann := a, rd_told := rd_told s @ [bitfield (rd_store s)]\<rparr>)"
  by (auto simp: told_ok_def bitfield_def)

lemma told_same:
  "rd_store s' = rd_store s \<Longrightarrow> rd_told s' = rd_told s \<Longrightarrow> told_ok s' = told_ok s"
  by (simp add: told_ok_def)

lemma worker_step_inv:
  assumes "worker_step hashes t s s'" and t: "t < length (rd_workers s)" and inv: "round_inv hashes s"
  shows "round_inv hashes s'"
  using assms(1)
proof cases
  case (announces now)
  have "told_ok (s\<lparr>rd_ann := announce_reset now (rd_ann s), rd_told := rd_told s @ [bitfield (rd_store s)]\<rparr>)"
    by (rule told_announce [OF round_invD(3) [OF inv]])
  then show ?thesis
    using announces by (intro inv_move [OF inv t, where w = "W_Idle 0"]) (simp_all add: told_ok_def)
next
  case (tells now due a)
  let ?w = "if due then W_Announce else W_Idle 0"
  show ?thesis
    by (rule inv_move [OF inv t, where w = ?w])
      (use tells round_invD(3) [OF inv] in \<open>simp_all add: told_ok_def\<close>)
next
  case (fetched n i d)
  have "n < 3" using round_invD(4) [OF inv t] fetched(2) by simp
  then show ?thesis
    using fetched round_invD(3) [OF inv]
    by (intro inv_move [OF inv t, where w = "W_Write n i d 0"]) (auto simp: told_ok_def write_ready_def)
next
  case connect_fails
  then show ?thesis
    using round_invD(3) [OF inv] by (intro inv_move [OF inv t, where w = W_Done]) (simp_all add: told_ok_def)
next
  case connects
  then show ?thesis
    using round_invD(3) [OF inv] by (intro inv_move [OF inv t, where w = "W_Idle 0"]) (simp_all add: told_ok_def)
next
  case (queue_empty n)
  then show ?thesis
    using round_invD(3) [OF inv] by (intro inv_move [OF inv t, where w = W_Done]) (simp_all add: told_ok_def)
qed (use inv_take [OF inv t] inv_give [OF inv t] inv_write [OF inv t] inv_mark [OF inv t] in auto)

lemma workers_step [simp]: "worker_step hashes t s s' \<Longrightarrow> length (rd_workers s') = length (rd_workers s)"
  by (cases rule: worker_step.cases) (auto simp: give_back_def)

lemma round_step_inv: "round_step hashes s s' \<Longrightarrow> round_inv hashes s \<Longrightarrow> round_inv hashes s'"
  using worker_step_inv by (auto simp: round_step_def)

text \<open>Marks are never taken back, and the size and count of the store and the size of the file stay.\<close>

definition grows :: "piece_store \<times> disk \<Rightarrow> piece_store \<times> disk \<Rightarrow> bool" where
  "grows p q \<longleftrightarrow> ps_fd (fst q) = ps_fd (fst p) \<and> ps_size (fst q) = ps_size (fst p) \<and>
     ps_count (fst q) = ps_count (fst p) \<and> length (snd q) = length (snd p) \<and> missing (fst q) \<subseteq> missing (fst p)"

lemma grows_refl [simp]: "grows p p"
  by (simp add: grows_def)

lemma grows_trans: "grows p q \<Longrightarrow> grows q r \<Longrightarrow> grows p r"
  by (auto simp: grows_def)

lemma worker_step_grows:
  assumes "worker_step hashes t s s'" and t: "t < length (rd_workers s)" and inv: "round_inv hashes s"
  shows "grows (rd_store s, rd_disk s) (rd_store s', rd_disk s')"
  using assms(1)
proof cases
  case (writes n i d put k)
  note pre = write_prefix [OF inv t writes(2) writes(4)]
  have "i * unat PIECE_SIZE + length (take (put + k) d) \<le> length (rd_disk s)"
    using pre(2,3) unfolding piece_in_def by linarith
  then show ?thesis
    using writes pre(1) by (simp add: grows_def length_disk_write)
next
  case (marks n i d put)
  have "i < piece_total s" using held_missing [OF inv t, of i] marks(2) by simp
  moreover have "ps_ok (rd_store s)" using round_invD(1) [OF inv] by (simp add: store_inv_def)
  ultimately show ?thesis using marks missing_mark by (auto simp: grows_def)
qed (simp_all add: give_back_def)

section \<open>The round ends\<close>

text \<open>A bound on the steps that are left: what a thread can still do before it next marks a piece, and all
  it can do after each piece that is still missing.\<close>

definition write_bound :: nat where
  "write_bound = 2 ^ 32 + 4"

fun worker_left :: "worker \<Rightarrow> nat" where
  "worker_left W_Connect = 3 * write_bound + 2"
| "worker_left (W_Idle n) = (3 - n) * write_bound + 1"
| "worker_left (W_Fetch n i) = (3 - n) * write_bound"
| "worker_left (W_Write n i d put) = (3 - n) * write_bound - 1 - put"
| "worker_left W_Tell = 3 * write_bound + 3"
| "worker_left W_Announce = 3 * write_bound + 2"
| "worker_left W_Done = 0"

definition round_left :: "round \<Rightarrow> nat" where
  "round_left s = card (missing (rd_store s)) * (3 * write_bound + 4) + sum_list (map worker_left (rd_workers s))"

lemma finite_missing [simp]: "finite (missing st)"
  by (simp add: missing_def)

lemma sum_workers_update:
  "t < length ws \<Longrightarrow> sum_list (map worker_left (ws[t := w])) + worker_left (ws ! t) =
    sum_list (map worker_left ws) + worker_left w"
proof (induction ws arbitrary: t)
  case (Cons x ws)
  then show ?case by (cases t) (simp_all add: add.assoc)
qed simp

lemma round_left_move:
  assumes "t < length (rd_workers s)" and "rd_workers s' = (rd_workers s)[t := w]"
    and "missing (rd_store s') = missing (rd_store s)" and "worker_left w < worker_left (rd_workers s ! t)"
  shows "round_left s' < round_left s"
  using sum_workers_update [OF assms(1), of w] assms by (simp add: round_left_def)

lemma give_back_left: "n < 3 \<Longrightarrow> p \<le> 2 ^ 32 \<Longrightarrow>
    worker_left (if max_consecutive_failures \<le> n + 1 then W_Done else W_Idle (n + 1)) < (3 - n) * write_bound - 1 - p"
proof -
  assume a: "n < 3" "p \<le> 2 ^ 32"
  then have "n = 0 \<or> n = 1 \<or> n = 2" by auto
  then show ?thesis using a(2) by (auto simp: max_consecutive_failures_def write_bound_def)
qed

lemma piece_len_bound: "unat (piece_len st i) < 2 ^ 32"
  using unat_u32 [of "piece_len st i"] by simp

lemma worker_step_left:
  assumes "worker_step hashes t s s'" and t: "t < length (rd_workers s)" and inv: "round_inv hashes s"
  shows "round_left s' < round_left s"
  using assms(1)
proof cases
  case (marks n i d put)
  have i: "i \<in> missing (rd_store s)" using held_missing [OF inv t, of i] marks(2) by (simp add: missing_def)
  have ok: "ps_ok (rd_store s)" using round_invD(1) [OF inv] by (simp add: store_inv_def)
  have m: "missing (rd_store s') = missing (rd_store s) - {i}"
    using marks(1) missing_mark [OF ok] i by (simp add: missing_def)
  have c: "card (missing (rd_store s)) = Suc (card (missing (rd_store s')))"
    using card_Suc_Diff1 [OF finite_missing i] by (simp add: m)
  have "sum_list (map worker_left (rd_workers s')) \<le> sum_list (map worker_left (rd_workers s)) + (3 * write_bound + 3)"
    using sum_workers_update [OF t, of W_Tell] marks(1) by simp
  then show ?thesis by (simp add: round_left_def c)
next
  case (fetch_fails n i)
  have "n < 3" using round_invD(4) [OF inv t] fetch_fails(2) by simp
  from give_back_left [OF this, of 0] show ?thesis
    using fetch_fails by (intro round_left_move [OF t]) (auto simp: give_back_def)
next
  case (rejected n i d)
  have "n < 3" using round_invD(4) [OF inv t] rejected(2) by simp
  from give_back_left [OF this, of 0] show ?thesis
    using rejected by (intro round_left_move [OF t]) (auto simp: give_back_def)
next
  case (write_fails n i d put)
  have "n < 3" "put < 2 ^ 32"
    using round_invD(4) [OF inv t] write_fails(2) piece_len_bound [of "rd_store s" "of_nat i"] by auto
  then show ?thesis
    using write_fails give_back_left [of n put] by (intro round_left_move [OF t]) (auto simp: give_back_def)
next
  case (fetched n i d)
  have "n < 3" using round_invD(4) [OF inv t] fetched(2) by simp
  then show ?thesis
    using fetched by (intro round_left_move [OF t]) (auto simp: write_bound_def)
next
  case (writes n i d put k)
  have "n < 3" "length d < 2 ^ 32"
    using round_invD(4) [OF inv t] writes(2) piece_len_bound [of "rd_store s" "of_nat i"] by auto
  then have "put + k < (3 - n) * write_bound - 1"
    using writes(4) by (auto simp: write_bound_def less_Suc_eq numeral_3_eq_3)
  then show ?thesis
    using writes by (intro round_left_move [OF t]) auto
qed (intro round_left_move [OF t], auto)+

lemma round_step_left: "round_step hashes s s' \<Longrightarrow> round_inv hashes s \<Longrightarrow> round_left s' < round_left s"
  using worker_step_left by (auto simp: round_step_def)

text \<open>A thread that is not done can always take a step.\<close>

lemma worker_progress:
  assumes "rd_workers s ! t \<noteq> W_Done" and "worker_ok hashes s (rd_workers s ! t)"
  shows "\<exists>s'. worker_step hashes t s s'"
proof (cases "rd_workers s ! t")
  case (W_Idle n)
  then show ?thesis using queue_empty takes by (cases "rd_queue s = []") blast+
next
  case (W_Write n i d put)
  then show ?thesis
    using assms(2) marks [of s t n i d put] write_fails [of s t n i d put] by (cases "put = length d") auto
next
  case W_Tell
  then show ?thesis by (cases "maybe_announce 0 (rd_ann s)") (blast intro: tells)
next
  case W_Connect
  then show ?thesis using connects by blast
next
  case (W_Fetch n i)
  then show ?thesis using fetch_fails by blast
next
  case W_Announce
  then show ?thesis using announces by blast
qed (use assms(1) in simp)

lemma round_progress:
  assumes "round_inv hashes s" and "\<not> round_over s"
  shows "\<exists>s'. round_step hashes s s'"
proof -
  obtain t where t: "t < length (rd_workers s)" "rd_workers s ! t \<noteq> W_Done"
    using assms(2) by (auto simp: round_over_def in_set_conv_nth)
  then show ?thesis
    using worker_progress [OF t(2) round_invD(4) [OF assms(1) t(1)]] by (auto simp: round_step_def)
qed

end
