(* ===== verification/Std_Containers.thy ===== *)
theory Std_Containers
  imports P2P_Prelude
begin

text \<open>
  \<open>std::map\<close> and \<open>std::set\<close> as the code uses them: lookup by key (\<open>find\<close>, \<open>count\<close>), insertion or
  overwriting (\<open>m[k] = v\<close>, \<open>insert\<close>), removal (\<open>erase\<close>) and iteration in key order. A map is an
  association list with strictly increasing keys, a set a strictly increasing list, so that
  \<open>*s.begin()\<close> is the head and a range-based \<open>for\<close> walks the list.

  The interface \<open>ordered_map\<close> states what the tracker and the client rely on; it is interpreted on
  the association lists below. Two containers with the same entries are the same value
  (\<open>map_ext\<close>, \<open>set_ext\<close>), which lets replicas be compared by equality.
\<close>

section \<open>The interfaces\<close>

locale ordered_map =
  fixes mempty :: "'m"
    and find :: "'m \<Rightarrow> 'k::linorder \<Rightarrow> 'v option"
    and put :: "'k \<Rightarrow> 'v \<Rightarrow> 'm \<Rightarrow> 'm"
    and erase :: "'k \<Rightarrow> 'm \<Rightarrow> 'm"
    and entries :: "'m \<Rightarrow> ('k \<times> 'v) list"
    and ok :: "'m \<Rightarrow> bool"
  assumes find_empty: "find mempty k = None"
    and ok_empty: "ok mempty"
    and find_put: "ok m \<Longrightarrow> find (put k v m) j = (if j = k then Some v else find m j)"
    and find_erase: "ok m \<Longrightarrow> find (erase k m) j = (if j = k then None else find m j)"
    and ok_put: "ok m \<Longrightarrow> ok (put k v m)"
    and ok_erase: "ok m \<Longrightarrow> ok (erase k m)"
    and entries_find: "ok m \<Longrightarrow> (k, v) \<in> set (entries m) \<longleftrightarrow> find m k = Some v"
    and entries_sorted: "ok m \<Longrightarrow> sorted_wrt (<) (map fst (entries m))"
begin

lemma put_put_same: "ok m \<Longrightarrow> find (put k v (put k w m)) = find (put k v m)"
  by (rule ext) (simp add: find_put ok_put)

lemma erase_put: "ok m \<Longrightarrow> find (erase k (put k v m)) = find (erase k m)"
  by (rule ext) (simp add: find_put find_erase ok_put)

lemma put_commute: "ok m \<Longrightarrow> k \<noteq> j \<Longrightarrow> find (put k v (put j w m)) = find (put j w (put k v m))"
  by (rule ext) (simp add: find_put ok_put)

lemma erase_idem: "ok m \<Longrightarrow> find (erase k (erase k m)) = find (erase k m)"
  by (rule ext) (simp add: find_erase ok_erase)

lemma entries_keys: "ok m \<Longrightarrow> k \<in> set (map fst (entries m)) \<longleftrightarrow> find m k \<noteq> None"
proof -
  assume m: "ok m"
  have "k \<in> set (map fst (entries m)) \<longleftrightarrow> (\<exists>v. (k, v) \<in> set (entries m))" by force
  then show ?thesis by (simp add: entries_find [OF m])
qed

lemma entries_cong:
  assumes "ok m" and "ok n" and "find m = find n"
  shows "entries m = entries n"
proof -
  have d: "sorted_wrt (<) (map fst (entries m))" "sorted_wrt (<) (map fst (entries n))"
    using assms entries_sorted by auto
  have s: "set (entries m) = set (entries n)"
    using entries_find [OF assms(1)] entries_find [OF assms(2)] assms(3) by auto
  have k: "map fst (entries m) = map fst (entries n)"
    using strict_sorted_equal [OF d] s by simp
  have "distinct (map fst (entries m))" using d(1) by (simp add: strict_sorted_iff)
  then have "inj_on fst (set (entries m) \<union> set (entries n))"
    using s by (simp add: distinct_map)
  then show ?thesis using k by (rule map_inj_on [rotated])
qed

end

section \<open>Maps: sorted association lists\<close>

text \<open>\<open>find\<close>; \<open>count\<close> is \<open>has_key\<close>.\<close>

fun map_find :: "('k \<times> 'v) list \<Rightarrow> 'k \<Rightarrow> 'v option" where
  "map_find [] k = None"
| "map_find ((j, w) # m) k = (if j = k then Some w else map_find m k)"

definition has_key :: "('k \<times> 'v) list \<Rightarrow> 'k \<Rightarrow> bool" where
  "has_key m k = (map_find m k \<noteq> None)"

fun map_put :: "'k::linorder \<Rightarrow> 'v \<Rightarrow> ('k \<times> 'v) list \<Rightarrow> ('k \<times> 'v) list" where
  "map_put k v [] = [(k, v)]"
| "map_put k v ((j, w) # m) =
     (if j < k then (j, w) # map_put k v m
      else if j = k then (k, v) # m
      else (k, v) # (j, w) # m)"

fun map_erase :: "'k \<Rightarrow> ('k \<times> 'v) list \<Rightarrow> ('k \<times> 'v) list" where
  "map_erase k [] = []"
| "map_erase k ((j, w) # m) = (if j = k then m else (j, w) # map_erase k m)"

text \<open>A loop \<open>for (auto& kv : m) kv.second = f(kv.second)\<close>.\<close>

definition map_vals :: "('v \<Rightarrow> 'w) \<Rightarrow> ('k \<times> 'v) list \<Rightarrow> ('k \<times> 'w) list" where
  "map_vals f m = map (\<lambda>(k, v). (k, f v)) m"

definition map_ok :: "('k::linorder \<times> 'v) list \<Rightarrow> bool" where
  "map_ok m = sorted_wrt (<) (map fst m)"

lemma map_ok_Nil [simp]: "map_ok []"
  by (simp add: map_ok_def)

lemma map_ok_Cons: "map_ok ((k, v) # m) \<longleftrightarrow> (\<forall>p \<in> set m. k < fst p) \<and> map_ok m"
  by (simp add: map_ok_def)

lemma map_find_in: "map_find m k = Some v \<Longrightarrow> (k, v) \<in> set m"
  by (induction m k rule: map_find.induct) (auto split: if_splits)

lemma map_find_low: "\<forall>p \<in> set m. (k :: 'k :: linorder) < fst p \<Longrightarrow> map_find m k = None"
  by (induction m k rule: map_find.induct) auto

lemma set_map_put: "set (map_put k v m) \<subseteq> insert (k, v) (set m)"
  by (induction m) (auto split: if_splits)

lemma set_map_erase: "set (map_erase k m) \<subseteq> set m"
  by (induction m) (auto split: if_splits)

lemma map_ok_put: "map_ok m \<Longrightarrow> map_ok (map_put k v m)"
proof (induction m)
  case (Cons p m)
  then show ?case
    using set_map_put [of k v m] by (cases p) (fastforce simp: map_ok_Cons)
qed (simp add: map_ok_def)

lemma map_ok_erase: "map_ok m \<Longrightarrow> map_ok (map_erase k m)"
proof (induction m)
  case (Cons p m)
  then show ?case
    using set_map_erase [of k m] by (cases p) (auto simp: map_ok_Cons)
qed simp

lemma map_find_put [simp]: "map_find (map_put k v m) j = (if j = k then Some v else map_find m j)"
  by (induction m) auto

lemma map_find_erase: "map_ok m \<Longrightarrow> map_find (map_erase k m) j = (if j = k then None else map_find m j)"
  by (induction m) (auto simp: map_ok_Cons map_find_low)

lemma map_find_iff: "map_ok m \<Longrightarrow> (k, v) \<in> set m \<longleftrightarrow> map_find m k = Some v"
  by (induction m) (force simp: map_ok_Cons map_find_low dest: map_find_in)+

interpretation std_map: ordered_map "[]" map_find map_put map_erase "\<lambda>m. m" map_ok
  by unfold_locales
    (auto simp: map_ok_put map_ok_erase map_find_erase map_find_iff simp flip: map_ok_def)

lemma map_ext: "map_ok m \<Longrightarrow> map_ok n \<Longrightarrow> map_find m = map_find n \<Longrightarrow> m = n"
  by (rule std_map.entries_cong)

lemma map_find_vals [simp]: "map_find (map_vals f m) k = map_option f (map_find m k)"
  by (induction m) (auto simp: map_vals_def)

lemma map_ok_vals [simp]: "map_ok (map_vals f m) = map_ok m"
  by (simp add: map_ok_def map_vals_def comp_def case_prod_beta')

lemma fst_map_vals [simp]: "map fst (map_vals f m) = map fst m"
  by (simp add: map_vals_def comp_def case_prod_beta')

lemma map_put_same: "map_ok m \<Longrightarrow> map_find m k = Some v \<Longrightarrow> map_put k v m = m"
  by (rule map_ext) (auto simp: map_ok_put)

lemma map_put_put [simp]: "map_ok m \<Longrightarrow> map_put k v (map_put k w m) = map_put k v m"
  by (rule map_ext) (auto simp: map_ok_put)

lemma map_erase_absent: "map_find m k = None \<Longrightarrow> map_erase k m = m"
  by (induction m) (auto split: if_splits)

lemma map_put_neq_Nil [simp]: "map_put k v m \<noteq> []"
  by (cases m) (auto split: if_splits)

lemma has_key_simps [simp]:
  "has_key [] k = False"
  "has_key (map_put k v m) j = (j = k \<or> has_key m j)"
  "has_key (map_vals f m) j = has_key m j"
  by (auto simp: has_key_def)

text \<open>Building a map by insertion, as a decoder does, gives back the sorted list it was read from.\<close>

lemma map_put_snoc: "\<forall>p \<in> set m. fst p < k \<Longrightarrow> map_put k v m = m @ [(k, v)]"
  by (induction m) auto

lemma fold_map_put:
  assumes "map_ok (m @ n)"
  shows "fold (\<lambda>(k, v). map_put k v) n m = m @ n"
  using assms
proof (induction n arbitrary: m)
  case Nil
  then show ?case by simp
next
  case (Cons p n)
  obtain k v where p: "p = (k, v)" by (cases p)
  have "\<forall>q \<in> set m. fst q < k"
    using Cons.prems by (auto simp: map_ok_def p sorted_wrt_append)
  then have "map_put k v m = m @ [(k, v)]" by (rule map_put_snoc)
  then show ?case using Cons.IH [of "m @ [p]"] Cons.prems by (simp add: p)
qed

section \<open>Sets: sorted lists\<close>

fun set_put :: "'k::linorder \<Rightarrow> 'k list \<Rightarrow> 'k list" where
  "set_put k [] = [k]"
| "set_put k (j # s) = (if j < k then j # set_put k s else if j = k then j # s else k # j # s)"

definition set_erase :: "'k \<Rightarrow> 'k list \<Rightarrow> 'k list" where
  "set_erase k s = remove1 k s"

abbreviation set_count :: "'k list \<Rightarrow> 'k \<Rightarrow> bool" where
  "set_count s k \<equiv> k \<in> set s"

definition set_ok :: "'k::linorder list \<Rightarrow> bool" where
  "set_ok s = sorted_wrt (<) s"

lemma set_ok_Nil [simp]: "set_ok []"
  by (simp add: set_ok_def)

lemma set_ok_distinct: "set_ok s \<Longrightarrow> distinct s"
  by (simp add: set_ok_def strict_sorted_iff)

lemma set_set_put [simp]: "set (set_put k s) = insert k (set s)"
  by (induction s) auto

lemma set_ok_put: "set_ok s \<Longrightarrow> set_ok (set_put k s)"
  by (induction s) (auto simp: set_ok_def)

lemma set_set_erase [simp]: "set_ok s \<Longrightarrow> set (set_erase k s) = set s - {k}"
  by (simp add: set_erase_def set_ok_distinct)

lemma set_ok_erase: "set_ok s \<Longrightarrow> set_ok (set_erase k s)"
  by (induction s) (auto simp: set_ok_def set_erase_def dest: in_set_remove1 notin_set_remove1)

lemma set_put_neq_Nil [simp]: "set_put k s \<noteq> []"
  by (cases s) auto

lemma set_ext: "set_ok s \<Longrightarrow> set_ok t \<Longrightarrow> set s = set t \<Longrightarrow> s = t"
  unfolding set_ok_def by (rule strict_sorted_equal)

text \<open>\<open>*s.begin()\<close> is the least element.\<close>

lemma hd_least: "set_ok s \<Longrightarrow> s \<noteq> [] \<Longrightarrow> hd s \<in> set s \<and> (\<forall>x \<in> set s. hd s \<le> x)"
  by (cases s) (auto simp: set_ok_def less_imp_le)

lemma set_put_snoc: "\<forall>x \<in> set s. x < k \<Longrightarrow> set_put k s = s @ [k]"
  by (induction s) auto

lemma fold_set_put: "set_ok (s @ t) \<Longrightarrow> fold set_put t s = s @ t"
proof (induction t arbitrary: s)
  case (Cons k t)
  have "set_put k s = s @ [k]"
    using Cons.prems by (intro set_put_snoc) (auto simp: set_ok_def sorted_wrt_append)
  then show ?case using Cons.IH [of "s @ [k]"] Cons.prems by simp
qed simp

end
