(* ===== verification/Seeder.thy ===== *)
theory Seeder
  imports Std_Containers Wire_Buffer Piece_Store
begin

text \<open>
  \<open>client/seeder.hpp\<close> and \<open>client/seeder.cpp\<close>: the map of shared files and the answers to peers. A peer connection
  is the sequence of messages received on it here; the sockets and the accept loop are in theory \<open>Seeder_Loop\<close>.

  A \<open>std::shared_ptr<PieceStore>\<close> is an address into a heap of stores, each with the file it has open, because
  the download that fills a store and the seeder that serves it share the object.
\<close>

section \<open>Keys\<close>

datatype share_key = ShareKey (sk_group: bytes) (sk_file: bytes)

lemma share_key_eq: "k = j \<longleftrightarrow> sk_group k = sk_group j \<and> sk_file k = sk_file j"
  by (cases k; cases j) simp

text \<open>\<open>ShareKey::operator<\<close>.\<close>

definition share_key_less :: "share_key \<Rightarrow> share_key \<Rightarrow> bool" where
  "share_key_less k o' = (if sk_group k \<noteq> sk_group o' then sk_group k < sk_group o' else sk_file k < sk_file o')"

instantiation share_key :: linorder
begin

definition less_share_key :: "share_key \<Rightarrow> share_key \<Rightarrow> bool" where
  "less_share_key = share_key_less"

definition less_eq_share_key :: "share_key \<Rightarrow> share_key \<Rightarrow> bool" where
  "less_eq_share_key k o' = (k < o' \<or> k = o')"

instance
  by standard
    (auto simp: less_share_key_def share_key_less_def less_eq_share_key_def share_key_eq neq_iff split: if_splits)

end

section \<open>The class\<close>

type_synonym store_ref = nat
type_synonym store_heap = "store_ref \<Rightarrow> piece_store \<times> disk"

record seeder =
  sd_port :: u16
  sd_running :: bool
  sd_shares :: "(share_key \<times> store_ref) list"

definition new_seeder :: seeder where
  "new_seeder = \<lparr>sd_port = 0, sd_running = False, sd_shares = []\<rparr>"

text \<open>\<open>listening\<close>: the result of \<open>tcp_listen\<close>.\<close>

definition seeder_start :: "bool \<Rightarrow> u16 \<Rightarrow> seeder \<Rightarrow> bool \<times> seeder" where
  "seeder_start listening port sd =
     (if \<not> listening then (False, sd) else (True, sd\<lparr>sd_port := port, sd_running := True\<rparr>))"

definition seeder_stop :: "seeder \<Rightarrow> seeder" where
  "seeder_stop sd = sd\<lparr>sd_running := False\<rparr>"

definition add_share :: "share_key \<Rightarrow> store_ref \<Rightarrow> seeder \<Rightarrow> seeder" where
  "add_share k r sd = sd\<lparr>sd_shares := map_put k r (sd_shares sd)\<rparr>"

definition remove_share :: "share_key \<Rightarrow> seeder \<Rightarrow> seeder" where
  "remove_share k sd = sd\<lparr>sd_shares := map_erase k (sd_shares sd)\<rparr>"

definition find_share :: "share_key \<Rightarrow> seeder \<Rightarrow> store_ref option" where
  "find_share k sd = map_find (sd_shares sd) k"

section \<open>Serving a peer\<close>

definition rd_piece_request :: "buffer \<Rightarrow> ((share_key \<times> u32) \<times> buffer) option" where
  "rd_piece_request b = do {
     (g, b) \<leftarrow> rd get_str b; (f, b) \<leftarrow> rd get_str b; (i, b) \<leftarrow> rd get_u32 b; Some ((ShareKey g f, i), b) }"

definition rd_share_key :: "buffer \<Rightarrow> (share_key \<times> buffer) option" where
  "rd_share_key b = do { (g, b) \<leftarrow> rd get_str b; (f, b) \<leftarrow> rd get_str b; Some (ShareKey g f, b) }"

definition piece_data_bytes :: "u32 \<Rightarrow> bytes \<Rightarrow> bytes" where
  "piece_data_bytes index d = buf_data (put_raw d (put_u32 index new_buf))"

text \<open>One turn of the loop of \<open>serve_peer\<close>: the opcode, status and payload of the answer.\<close>

definition serve_request ::
    "store_heap \<Rightarrow> io_ev list \<Rightarrow> seeder \<Rightarrow> u16 \<Rightarrow> bytes \<Rightarrow> msg_type \<times> status \<times> bytes" where
  "serve_request H es sd type payload =
    (if type = msg_code MSG_PIECE_REQUEST then
       (case rd_piece_request (of_bytes payload) of
          None \<Rightarrow> (MSG_PIECE_DATA, ST_MALFORMED, [])
        | Some ((k, index), _) \<Rightarrow>
            (case find_share k sd of
               None \<Rightarrow> (MSG_PIECE_DATA, ST_NOT_FOUND, [])
             | Some r \<Rightarrow>
                 (case read_piece (fst (H r)) index es (snd (H r)) of
                    None \<Rightarrow> (MSG_PIECE_DATA, ST_NOT_FOUND, [])
                  | Some d \<Rightarrow> (MSG_PIECE_DATA, ST_OK, piece_data_bytes index d))))
     else if type = msg_code MSG_BITFIELD_REQUEST then
       (case rd_share_key (of_bytes payload) of
          None \<Rightarrow> (MSG_BITFIELD_DATA, ST_MALFORMED, [])
        | Some (k, _) \<Rightarrow>
            (case find_share k sd of
               None \<Rightarrow> (MSG_BITFIELD_DATA, ST_NOT_FOUND, [])
             | Some r \<Rightarrow> (MSG_BITFIELD_DATA, ST_OK, bitfield (fst (H r)))))
     else (MSG_RESPONSE, ST_NOT_IMPLEMENTED, []))"

text \<open>
  The loop over the messages that arrive before \<open>recv_msg\<close> fails. What else the client does meanwhile may change the
  shares and the stores: each message comes with the state in which it is served.
\<close>

definition serve_peer :: "(store_heap \<times> io_ev list \<times> seeder \<times> u16 \<times> bytes) list \<Rightarrow> (msg_type \<times> status \<times> bytes) list" where
  "serve_peer ms = map (\<lambda>(H, es, sd, type, payload). serve_request H es sd type payload) ms"

section \<open>What is served\<close>

definition seeder_ok :: "seeder \<Rightarrow> bool" where
  "seeder_ok sd = map_ok (sd_shares sd)"

lemma seeder_ok_ops:
  "seeder_ok new_seeder"
  "seeder_ok sd \<Longrightarrow> seeder_ok (add_share k r sd)"
  "seeder_ok sd \<Longrightarrow> seeder_ok (remove_share k sd)"
  "seeder_ok sd \<Longrightarrow> seeder_ok (snd (seeder_start l port sd))"
  "seeder_ok sd \<Longrightarrow> seeder_ok (seeder_stop sd)"
  by (simp_all add: seeder_ok_def new_seeder_def add_share_def remove_share_def seeder_start_def
      seeder_stop_def map_ok_put map_ok_erase)

lemma find_share_ops:
  "find_share k (add_share j r sd) = (if k = j then Some r else find_share k sd)"
  "seeder_ok sd \<Longrightarrow> find_share k (remove_share j sd) = (if k = j then None else find_share k sd)"
  by (simp_all add: find_share_def add_share_def remove_share_def seeder_ok_def map_find_erase)

text \<open>The request that \<open>fetch_piece\<close> sends.\<close>

definition piece_request_bytes :: "bytes \<Rightarrow> bytes \<Rightarrow> u32 \<Rightarrow> bytes" where
  "piece_request_bytes g f index = buf_data (put_u32 index (put_str f (put_str g new_buf)))"

lemma rd_piece_request_bytes:
  "str_ok g \<Longrightarrow> str_ok f \<Longrightarrow>
   rd_piece_request (of_bytes (piece_request_bytes g f i)) = Some ((ShareKey g f, i), buf_at (piece_request_bytes g f i) [])"
  by (simp add: rd_piece_request_def piece_request_bytes_def wire)

text \<open>Data goes out only for a piece of a shared file that the store has marked, and it is the piece on disk.\<close>

lemma serve_piece_ok:
  assumes "serve_request H es sd (msg_code MSG_PIECE_REQUEST) payload = (mt, ST_OK, body)"
  shows "mt = MSG_PIECE_DATA \<and> (\<exists>k index b r.
    rd_piece_request (of_bytes payload) = Some ((k, index), b) \<and> find_share k sd = Some r \<and>
    have_piece (fst (H r)) index \<and>
    body = piece_data_bytes index (piece_slice (fst (H r)) (snd (H r)) (unat index)))"
  using assms read_piece_some
  by (fastforce simp: serve_request_def split: option.splits)

lemma serve_unshared:
  "find_share (ShareKey g f) sd = None \<Longrightarrow> str_ok g \<Longrightarrow> str_ok f \<Longrightarrow>
   serve_request H es sd (msg_code MSG_PIECE_REQUEST) (piece_request_bytes g f i) = (MSG_PIECE_DATA, ST_NOT_FOUND, [])"
  by (simp add: serve_request_def rd_piece_request_bytes)

lemma serve_have:
  assumes "find_share (ShareKey g f) sd = Some r" and "str_ok g" and "str_ok f"
    and "ps_fd (fst (H r))" and "have_piece (fst (H r)) i" and "piece_in (fst (H r)) (snd (H r)) (unat i)"
    and "io_calm es"
  shows "serve_request H es sd (msg_code MSG_PIECE_REQUEST) (piece_request_bytes g f i) =
    (MSG_PIECE_DATA, ST_OK, piece_data_bytes i (piece_slice (fst (H r)) (snd (H r)) (unat i)))"
  using assms by (simp add: serve_request_def rd_piece_request_bytes read_piece_calm)

section \<open>The property of the seeder\<close>

text \<open>C31. A peer is sent data only for a piece of a file that is shared at that moment and that the store has marked; the answer carries
  the index that was asked for and exactly the bytes that the file has there.\<close>

theorem serves_only_marked:
  assumes "serve_request H es sd (msg_code MSG_PIECE_REQUEST) payload = (mt, ST_OK, body)"
  shows "mt = MSG_PIECE_DATA \<and> (\<exists>k index b r.
    rd_piece_request (of_bytes payload) = Some ((k, index), b) \<and> find_share k sd = Some r \<and>
    have_piece (fst (H r)) index \<and>
    body = piece_data_bytes index (piece_slice (fst (H r)) (snd (H r)) (unat index)))"
  using assms by (rule serve_piece_ok)

theorem serves_only_marked_witness:
  "MSG_PIECE_DATA = MSG_PIECE_DATA \<and> (\<exists>k index b r.
    rd_piece_request (of_bytes (piece_request_bytes [1] [2] 0)) = Some ((k, index), b) \<and>
    find_share k (add_share (ShareKey [1] [2]) 0 new_seeder) = Some r \<and>
    have_piece \<lparr>ps_fd = True, ps_size = 2, ps_count = 1, ps_have = mark 0 [0]\<rparr> index \<and>
    piece_data_bytes 0 [7, 8] = piece_data_bytes index (piece_slice
      \<lparr>ps_fd = True, ps_size = 2, ps_count = 1, ps_have = mark 0 [0]\<rparr> [7, 8] (unat index)))"
proof -
  let ?s = "\<lparr>ps_fd = True, ps_size = 2, ps_count = 1, ps_have = mark 0 [0]\<rparr>"
  have l: "unat (piece_len ?s 0) = 2" by (simp add: piece_len_def)
  have "serve_request (\<lambda>_. (?s, [7, 8])) [] (add_share (ShareKey [1] [2]) 0 new_seeder) (msg_code MSG_PIECE_REQUEST)
      (piece_request_bytes [1] [2] 0) = (MSG_PIECE_DATA, ST_OK, piece_data_bytes 0 (piece_slice ?s [7, 8] 0))"
    using serve_have [of "[1]" "[2]" "add_share (ShareKey [1] [2]) 0 new_seeder" 0 "\<lambda>_. (?s, [7, 8])" 0 "[]"] l
    by (simp add: find_share_ops str_ok_def have_piece_iff bit_of_mark piece_in_def)
  moreover have "piece_slice ?s [7, 8] 0 = [7, 8]" using l by (simp add: piece_slice_def)
  ultimately show ?thesis
    using serves_only_marked [of "\<lambda>_. (?s, [7, 8])" "[]" "add_share (ShareKey [1] [2]) 0 new_seeder"
        "piece_request_bytes [1] [2] 0" MSG_PIECE_DATA "piece_data_bytes 0 [7, 8]"] by simp
qed

end
