(* ===== verification/Net.thy ===== *)
theory Net
  imports Protocol Wire_Buffer
begin

text \<open>
  \<open>common/net.cpp\<close>: the loops \<open>send_all\<close> and \<open>recv_all\<close> over partial transfers, the framing of \<open>send_msg\<close>
  and \<open>recv_msg\<close>, and \<open>parse_endpoint\<close>.

  The operating system is an argument: the list of things that happen on a socket, in order. A \<open>recv\<close> takes at
  most as many bytes as it asked for from what has arrived and leaves the rest; an empty list is a socket on
  which nothing more happens, so that the call blocks (\<open>None\<close>). The return codes are those of the code: 1 for
  success, 0 for a closed peer, -1 for an error. \<open>tcp_connect\<close> and \<open>tcp_listen\<close> are in
  theory \<open>Sockets\<close>.
\<close>

section \<open>Sending and receiving all of it\<close>

text \<open>What happens to the calls of \<open>send\<close>: so many bytes accepted, \<open>EINTR\<close>, or another error.\<close>

datatype tx_ev = TxSent nat | TxIntr | TxError

text \<open>The code, the bytes that went out, and the events left.\<close>

fun send_all :: "bytes \<Rightarrow> tx_ev list \<Rightarrow> (int \<times> bytes \<times> tx_ev list) option" where
  "send_all d es =
     (if d = [] then Some (1, [], es)
      else (case es of
          [] \<Rightarrow> None
        | TxError # es' \<Rightarrow> Some (-1, [], es')
        | TxIntr # es' \<Rightarrow> send_all d es'
        | TxSent k # es' \<Rightarrow>
            if k = 0 then Some (0, [], es')
            else do { (r, out, es'') \<leftarrow> send_all (drop k d) es'; Some (r, take k d @ out, es'') }))"

text \<open>What happens on the receiving side: bytes arrive, the peer closes, \<open>EINTR\<close>, or another error.\<close>

datatype rx_ev = RxData bytes | RxClosed | RxIntr | RxError

datatype rx_ans = RxGot bytes | RxEintr | RxFail

fun os_recv :: "nat \<Rightarrow> rx_ev list \<Rightarrow> (rx_ans \<times> rx_ev list) option" where
  "os_recv n [] = None"
| "os_recv n (RxData d # es) =
     (if d = [] then os_recv n es
      else Some (RxGot (take n d), if length d \<le> n then es else RxData (drop n d) # es))"
| "os_recv n (RxClosed # es) = Some (RxGot [], RxClosed # es)"
| "os_recv n (RxIntr # es) = Some (RxEintr, es)"
| "os_recv n (RxError # es) = Some (RxFail, es)"

lemma os_recv_len: "os_recv n es = Some (RxEintr, es') \<Longrightarrow> length es' < length es"
  by (induction n es rule: os_recv.induct) (auto split: if_splits)

lemma os_recv_got: "os_recv n es = Some (RxGot d, es') \<Longrightarrow> length d \<le> n"
  by (induction n es rule: os_recv.induct) (auto split: if_splits)

text \<open>
  \<open>recv_all\<close> with \<open>n\<close> bytes still to get: the code, the bytes received so far, and the events left.
\<close>

function recv_all :: "nat \<Rightarrow> rx_ev list \<Rightarrow> (int \<times> bytes \<times> rx_ev list) option" where
  "recv_all n es =
     (if n = 0 then Some (1, [], es)
      else (case os_recv n es of
          None \<Rightarrow> None
        | Some (RxFail, es') \<Rightarrow> Some (-1, [], es')
        | Some (RxEintr, es') \<Rightarrow> recv_all n es'
        | Some (RxGot d, es') \<Rightarrow>
            if d = [] then Some (0, [], es')
            else do { (r, ds, es'') \<leftarrow> recv_all (n - length d) es'; Some (r, d @ ds, es'') }))"
  by pat_completeness auto
termination
  by (relation "measures [\<lambda>(n, es). n, \<lambda>(n, es). length es]") (auto dest: os_recv_len)

declare send_all.simps [simp del] recv_all.simps [simp del]

section \<open>Framing\<close>

definition header_bytes :: "u16 \<Rightarrow> u16 \<Rightarrow> nat \<Rightarrow> bytes" where
  "header_bytes type status n =
    nat_be 4 (unat PROTO_MAGIC) @ nat_be 2 (unat type) @ nat_be 2 (unat status) @
    nat_be 4 (unat (of_nat n :: u32))"

definition send_msg :: "u16 \<Rightarrow> u16 \<Rightarrow> bytes \<Rightarrow> tx_ev list \<Rightarrow> (int \<times> bytes \<times> tx_ev list) option" where
  "send_msg type status payload es =
    do { (r, out, es) \<leftarrow> send_all (header_bytes type status (length payload)) es;
         if r \<noteq> 1 then Some (r, out, es)
         else if payload = [] then Some (1, out, es)
         else do { (r', out', es) \<leftarrow> send_all payload es; Some (r', out @ out', es) } }"

definition be_word :: "bytes \<Rightarrow> 'a::len word" where
  "be_word bs = of_nat (be_nat bs)"

definition parse_header :: "bytes \<Rightarrow> msg_header" where
  "parse_header h =
    \<lparr>h_magic = be_word (take 4 h), h_type = be_word (take 2 (drop 4 h)),
     h_status = be_word (take 2 (drop 6 h)), h_length = be_word (take 4 (drop 8 h))\<rparr>"

text \<open>
  The code, the header and the payload as they stand when the call returns (both only filled in as far as the
  call came: the caller's header and payload before that), and the events left.
\<close>

definition recv_msg :: "msg_header \<times> bytes \<Rightarrow> rx_ev list \<Rightarrow> (int \<times> msg_header \<times> bytes \<times> rx_ev list) option" where
  "recv_msg old es =
    do { (r, h, es) \<leftarrow> recv_all 12 es;
         if r \<noteq> 1 then Some (r, fst old, snd old, es)
         else (let hdr = parse_header h in
           if h_magic hdr \<noteq> PROTO_MAGIC then Some (-1, hdr, snd old, es)
           else if h_length hdr > MAX_PAYLOAD then Some (-1, hdr, snd old, es)
           else if h_length hdr = 0 then Some (1, hdr, [], es)
           else do { (r', d, es) \<leftarrow> recv_all (unat (h_length hdr)) es;
                     Some (r', hdr, d @ replicate (unat (h_length hdr) - length d) 0, es) }) }"

text \<open>A header variable before the first message.\<close>

definition no_header :: msg_header where
  "no_header = \<lparr>h_magic = 0, h_type = 0, h_status = 0, h_length = 0\<rparr>"

section \<open>Addresses\<close>

definition is_space :: "u8 \<Rightarrow> bool" where
  "is_space c = (c = 32 \<or> 9 \<le> c \<and> c \<le> 13)"

definition is_digit :: "u8 \<Rightarrow> bool" where
  "is_digit c = (48 \<le> c \<and> c \<le> 57)"

definition LONG_MAX :: int where
  "LONG_MAX = 2 ^ 63 - 1"

text \<open>\<open>strtol(s, nullptr, 10)\<close>: white space, a sign, digits; out of range saturates.\<close>

definition digits_val :: "bytes \<Rightarrow> int" where
  "digits_val ds = foldl (\<lambda>v c. 10 * v + (int (unat c) - 48)) 0 ds"

definition strtol10 :: "bytes \<Rightarrow> int" where
  "strtol10 s =
    (let t = dropWhile is_space s;
         neg = (t \<noteq> [] \<and> hd t = 45);
         u = (if t \<noteq> [] \<and> (hd t = 45 \<or> hd t = 43) then tl t else t);
         v = digits_val (takeWhile is_digit u)
     in if neg then max (- LONG_MAX - 1) (- v) else min LONG_MAX v)"

definition parse_endpoint :: "bytes \<Rightarrow> (bytes \<times> u16) option" where
  "parse_endpoint s =
    (let ip = takeWhile (\<lambda>c. c \<noteq> 58) s in
     if length ip = length s then None
     else (let p = strtol10 (drop (length ip + 1) s) in
       if p \<le> 0 \<or> p > 65535 then None else Some (ip, of_int p)))"

section \<open>The byte stream behind the events\<close>

fun rx_bytes :: "rx_ev list \<Rightarrow> bytes" where
  "rx_bytes (RxData d # es) = d @ rx_bytes es"
| "rx_bytes (RxIntr # es) = rx_bytes es"
| "rx_bytes _ = []"

text \<open>How the stream ends: not at all, closed (0), or in an error (-1).\<close>

fun rx_end :: "rx_ev list \<Rightarrow> int option" where
  "rx_end [] = None"
| "rx_end (RxData d # es) = rx_end es"
| "rx_end (RxIntr # es) = rx_end es"
| "rx_end (RxClosed # es) = Some 0"
| "rx_end (RxError # es) = Some (-1)"

lemma os_recv_spec:
  assumes "0 < n"
  shows "case os_recv n es of
      None \<Rightarrow> rx_bytes es = [] \<and> rx_end es = None
    | Some (RxFail, es') \<Rightarrow> rx_bytes es = [] \<and> rx_end es = Some (-1)
    | Some (RxEintr, es') \<Rightarrow> rx_bytes es' = rx_bytes es \<and> rx_end es' = rx_end es
    | Some (RxGot d, es') \<Rightarrow>
        if d = [] then rx_bytes es = [] \<and> rx_end es = Some 0
        else length d \<le> n \<and> rx_bytes es = d @ rx_bytes es' \<and> rx_end es' = rx_end es"
  using assms by (induction n es rule: os_recv.induct) (auto split: option.splits rx_ans.splits)

lemma recv_all_enough:
  "n \<le> length (rx_bytes es) \<Longrightarrow>
    \<exists>es'. recv_all n es = Some (1, take n (rx_bytes es), es') \<and>
      rx_bytes es' = drop n (rx_bytes es) \<and> rx_end es' = rx_end es"
proof (induction n es rule: recv_all.induct)
  case (1 n es)
  show ?case
  proof (cases "n = 0")
    case True
    then show ?thesis by (simp add: recv_all.simps)
  next
    case False
    then have n: "0 < n" by simp
    show ?thesis
    proof (cases "os_recv n es")
      case None
      then show ?thesis using os_recv_spec [OF n, of es] "1.prems" n by simp
    next
      case (Some p)
      obtain a es1 where p: "p = (a, es1)" by (cases p)
      note sp = os_recv_spec [OF n, of es, unfolded Some p, simplified]
      show ?thesis
      proof (cases a)
        case (RxGot d)
        show ?thesis
        proof (cases "d = []")
          case True
          then show ?thesis using sp RxGot "1.prems" n by simp
        next
          case d: False
          then have s: "length d \<le> n" "rx_bytes es = d @ rx_bytes es1" "rx_end es1 = rx_end es"
            using sp RxGot by auto
          then have "n - length d \<le> length (rx_bytes es1)" using "1.prems" by simp
          from "1.IH"(1) [OF False Some p [symmetric] RxGot d this] obtain es2 where
            "recv_all (n - length d) es1 = Some (1, take (n - length d) (rx_bytes es1), es2)"
            and "rx_bytes es2 = drop (n - length d) (rx_bytes es1)" "rx_end es2 = rx_end es1" by blast
          then show ?thesis
            using Some p RxGot False d s by (simp add: recv_all.simps [of n es])
        qed
      next
        case RxEintr
        then have s: "rx_bytes es1 = rx_bytes es" "rx_end es1 = rx_end es" using sp by auto
        then show ?thesis
          using "1.IH"(2) [OF False Some p [symmetric] RxEintr] "1.prems" Some p RxEintr False
          by (simp add: recv_all.simps [of n es])
      next
        case RxFail
        then show ?thesis using sp "1.prems" n by simp
      qed
    qed
  qed
qed

lemma recv_all_short:
  "length (rx_bytes es) < n \<Longrightarrow>
    \<exists>es'. recv_all n es = map_option (\<lambda>c. (c, rx_bytes es, es')) (rx_end es)"
proof (induction n es rule: recv_all.induct)
  case (1 n es)
  then have n: "0 < n" and n0: "n \<noteq> 0" by auto
  note sp = os_recv_spec [OF n, of es]
  show ?case
  proof (cases "os_recv n es")
    case None
    then show ?thesis using sp n by (simp add: recv_all.simps [of n es])
  next
    case (Some p)
    obtain a es1 where p: "p = (a, es1)" by (cases p)
    show ?thesis
    proof (cases a)
      case (RxGot d)
      show ?thesis
      proof (cases "d = []")
        case True
        then show ?thesis using sp Some p RxGot n by (simp add: recv_all.simps [of n es])
      next
        case d: False
        then have s: "rx_bytes es = d @ rx_bytes es1" "rx_end es1 = rx_end es"
          using sp Some p RxGot by auto
        then have "length (rx_bytes es1) < n - length d" using "1.prems" by simp
        from "1.IH"(1) [OF n0 Some p [symmetric] RxGot d this] obtain es2 where
          "recv_all (n - length d) es1 = map_option (\<lambda>c. (c, rx_bytes es1, es2)) (rx_end es1)" ..
        then show ?thesis using Some p RxGot n d s
          by (cases "rx_end es") (simp_all add: recv_all.simps [of n es])
      qed
    next
      case RxEintr
      then have "rx_bytes es1 = rx_bytes es" "rx_end es1 = rx_end es" using sp Some p by auto
      then show ?thesis using "1.IH"(2) [OF n0 Some p [symmetric] RxEintr] "1.prems" Some p RxEintr n
        by (simp add: recv_all.simps [of n es])
    next
      case RxFail
      then show ?thesis using sp Some p n by (simp add: recv_all.simps [of n es])
    qed
  qed
qed

section \<open>What a send puts on the wire\<close>

text \<open>How often the kernel takes at least one byte before it reports an error or a closed peer.\<close>

fun tx_steps :: "tx_ev list \<Rightarrow> nat" where
  "tx_steps [] = 0"
| "tx_steps (TxIntr # es) = tx_steps es"
| "tx_steps (TxError # es) = 0"
| "tx_steps (TxSent k # es) = (if k = 0 then 0 else Suc (tx_steps es))"

lemma send_all_prefix: "send_all d es = Some (r, out, es') \<Longrightarrow>
    (\<exists>t. d = out @ t) \<and> (r = 1 \<longleftrightarrow> out = d)"
proof (induction d es arbitrary: r out es' rule: send_all.induct)
  case (1 d es)
  show ?case
  proof (cases "d = []")
    case True
    then show ?thesis using "1.prems" by (simp add: send_all.simps)
  next
    case False
    then obtain e es1 where es: "es = e # es1"
      using "1.prems" by (cases es) (auto simp: send_all.simps)
    show ?thesis
    proof (cases e)
      case (TxSent k)
      show ?thesis
      proof (cases "k = 0")
        case True
        then show ?thesis using "1.prems" False es TxSent by (simp add: send_all.simps)
      next
        case k: False
        then obtain out1 where s: "send_all (drop k d) es1 = Some (r, out1, es')" "out = take k d @ out1"
          using "1.prems" False es TxSent
          by (auto simp: send_all.simps [of d] bind_eq_Some_conv split: prod.splits)
        from "1.IH"(1) [OF False es TxSent k s(1)] obtain t where "drop k d = out1 @ t"
          and "r = 1 \<longleftrightarrow> out1 = drop k d" by blast
        then have "d = out @ t" using s(2) by (metis append.assoc append_take_drop_id)
        moreover have "r = 1 \<longleftrightarrow> out = d"
          using \<open>r = 1 \<longleftrightarrow> out1 = drop k d\<close> s(2) by (metis append_take_drop_id same_append_eq)
        ultimately show ?thesis by blast
      qed
    qed (use "1.prems" "1.IH" False es in \<open>auto simp: send_all.simps [of d]\<close>)
  qed
qed

lemma send_all_done: "length d \<le> tx_steps es \<Longrightarrow>
    \<exists>es'. send_all d es = Some (1, d, es') \<and> tx_steps es \<le> tx_steps es' + length d"
proof (induction d es rule: send_all.induct)
  case (1 d es)
  show ?case
  proof (cases "d = []")
    case True
    then show ?thesis by (simp add: send_all.simps)
  next
    case False
    then obtain e es1 where es: "es = e # es1" using "1.prems" by (cases es) auto
    show ?thesis
    proof (cases e)
      case (TxSent k)
      then have k: "k \<noteq> 0" using "1.prems" False es by (auto split: if_splits)
      then have "length (drop k d) \<le> tx_steps es1" using "1.prems" es TxSent False by simp
      from "1.IH"(1) [OF False es TxSent k this] obtain es' where
        "send_all (drop k d) es1 = Some (1, drop k d, es')"
        "tx_steps es1 \<le> tx_steps es' + length (drop k d)" by blast
      then have "Suc (tx_steps es1) \<le> tx_steps es' + length d"
        using k False by (cases d) auto
      then show ?thesis
        using es TxSent k False \<open>send_all (drop k d) es1 = _\<close>
        by (simp add: send_all.simps [of d])
    qed (use "1.prems" "1.IH" False es in \<open>auto simp: send_all.simps [of d]\<close>)
  qed
qed

lemma send_msg_prefix: "send_msg t st p es = Some (r, out, es') \<Longrightarrow>
    (\<exists>rest. header_bytes t st (length p) @ p = out @ rest) \<and>
    (r = 1 \<longleftrightarrow> out = header_bytes t st (length p) @ p)"
  unfolding send_msg_def bind_eq_Some_conv
  by (auto simp: bind_eq_Some_conv dest!: send_all_prefix split: if_splits prod.splits)

lemma be_word_nat_be [simp]:
  "(2::nat) ^ LENGTH('a) \<le> 256 ^ n \<Longrightarrow> be_word (nat_be n (unat (x :: 'a::len word))) = x"
proof -
  assume "(2::nat) ^ LENGTH('a) \<le> 256 ^ n"
  then have "unat x < 256 ^ n" using unsigned_less [of x] by (rule less_le_trans [rotated])
  then show ?thesis by (simp add: be_word_def be_nat_nat_be)
qed

lemma length_header [simp]: "length (header_bytes t st n) = 12"
  by (simp add: header_bytes_def)

lemma parse_header_bytes: "parse_header (header_bytes t st n) =
    \<lparr>h_magic = PROTO_MAGIC, h_type = t, h_status = st, h_length = of_nat n\<rparr>"
  by (simp add: parse_header_def header_bytes_def)

lemma recv_msg_frame:
  assumes len: "length p \<le> unat MAX_PAYLOAD"
    and rx: "rx_bytes es = header_bytes t st (length p) @ p @ rest"
  shows "\<exists>es'. recv_msg old es =
      Some (1, \<lparr>h_magic = PROTO_MAGIC, h_type = t, h_status = st, h_length = of_nat (length p)\<rparr>, p, es') \<and>
      rx_bytes es' = rest \<and> rx_end es' = rx_end es"
proof -
  have l: "unat (of_nat (length p) :: u32) = length p" using len by (simp add: unat_of_nat)
  have cmp: "\<not> (of_nat (length p) :: u32) > MAX_PAYLOAD"
    using len by (simp add: word_less_nat_alt l)
  obtain es1 where 1: "recv_all 12 es = Some (1, header_bytes t st (length p), es1)"
    "rx_bytes es1 = p @ rest" "rx_end es1 = rx_end es"
    using recv_all_enough [of 12 es] rx by auto
  obtain es2 where 2: "recv_all (length p) es1 = Some (1, p, es2)"
    "rx_bytes es2 = rest" "rx_end es2 = rx_end es"
    using recv_all_enough [of "length p" es1] 1 by auto
  have z: "(of_nat (length p) :: u32) = 0 \<longleftrightarrow> p = []"
    using l by (metis length_0_conv unsigned_0 unat_eq_zero of_nat_0)
  show ?thesis
    using 1 2 cmp z l by (cases "p = []") (auto simp: recv_msg_def parse_header_bytes Let_def)
qed

lemma recv_msg_reject:
  assumes rx: "rx_bytes es = header_bytes t st n @ rest"
    and big: "unat MAX_PAYLOAD < unat (of_nat n :: u32)"
  shows "\<exists>hdr es'. recv_msg old es = Some (-1, hdr, snd old, es') \<and> rx_bytes es' = rest"
proof -
  obtain es1 where 1: "recv_all 12 es = Some (1, header_bytes t st n, es1)" "rx_bytes es1 = rest"
    using recv_all_enough [of 12 es] rx by auto
  have "(of_nat n :: u32) > MAX_PAYLOAD" using big by (simp add: word_less_nat_alt)
  then show ?thesis using 1 by (simp add: recv_msg_def parse_header_bytes)
qed

section \<open>Decimal ports\<close>

fun decimal :: "nat \<Rightarrow> bytes" where
  "decimal n = (if n < 10 then [of_nat (48 + n)] else decimal (n div 10) @ [of_nat (48 + n mod 10)])"

declare decimal.simps [simp del]

lemma unat_digit: "k < 10 \<Longrightarrow> unat (48 + of_nat k :: u8) = 48 + k"
  using unat_of_nat_u8 [of "48 + k"] by simp

lemma is_digit_of_nat: "k < 10 \<Longrightarrow> is_digit (48 + of_nat k)"
  by (simp add: is_digit_def word_le_nat_alt unat_digit)

lemma decimal_digits: "list_all is_digit (decimal n)"
  by (induction n rule: decimal.induct) (subst decimal.simps, simp add: is_digit_of_nat)

lemma digits_val_digit: "k < 10 \<Longrightarrow> digits_val (ds @ [48 + of_nat k]) = 10 * digits_val ds + int k"
proof -
  assume k: "k < 10"
  have "digits_val (ds @ [c]) = 10 * digits_val ds + (int (unat c) - 48)" for c by (simp add: digits_val_def)
  then show ?thesis by (simp only: unat_digit [OF k])
qed

lemma decimal_val: "digits_val (decimal n) = int n"
proof (induction n rule: decimal.induct)
  case (1 n)
  show ?case
  proof (cases "n < 10")
    case True
    then have "digits_val ([] @ [48 + of_nat n]) = int n" by (subst digits_val_digit) (simp_all add: digits_val_def)
    then show ?thesis using True by (simp add: decimal.simps [of n])
  next
    case False
    then have "digits_val (decimal n) = 10 * digits_val (decimal (n div 10)) + int (n mod 10)"
      using digits_val_digit [of "n mod 10" "decimal (n div 10)"] by (simp add: decimal.simps [of n])
    also have "\<dots> = 10 * int (n div 10) + int (n mod 10)" using 1 False by simp
    also have "\<dots> = int n" by presburger
    finally show ?thesis .
  qed
qed

lemma decimal_Cons: "\<exists>c ds. decimal n = c # ds \<and> is_digit c"
proof -
  have "decimal n \<noteq> []" by (simp add: decimal.simps [of n])
  then show ?thesis using decimal_digits [of n] by (cases "decimal n") auto
qed

lemma digit_not_space: "is_digit c \<Longrightarrow> \<not> is_space c \<and> c \<noteq> 45 \<and> c \<noteq> 43"
  by (auto simp: is_digit_def is_space_def word_le_nat_alt)

lemma strtol10_decimal: "int n \<le> LONG_MAX \<Longrightarrow> strtol10 (decimal n) = int n"
proof -
  assume n: "int n \<le> LONG_MAX"
  obtain c ds where c: "decimal n = c # ds" "is_digit c" using decimal_Cons by blast
  have t: "dropWhile is_space (decimal n) = decimal n" using c digit_not_space by simp
  have w: "takeWhile is_digit (decimal n) = decimal n"
    using decimal_digits [of n] by (simp add: list_all_iff takeWhile_eq_all_conv)
  have "\<not> (hd (decimal n) = 45 \<or> hd (decimal n) = 43)" using c digit_not_space by auto
  then show ?thesis
    using n by (simp add: strtol10_def Let_def decimal_val t w)
qed

lemma send_msg_two:
  assumes "p \<noteq> []"
  shows "send_msg t st p [TxSent 12, TxSent (length p)] = Some (1, header_bytes t st (length p) @ p, [])"
proof -
  have "header_bytes t st (length p) \<noteq> []" using length_header [of t st "length p"] by force
  then show ?thesis using assms by (simp add: send_msg_def send_all.simps)
qed

section \<open>The properties of the network layer\<close>



text \<open>A send that does not succeed has put out a proper prefix of the frame, and one that succeeds exactly the frame.\<close>

lemma send_is_prefix:
  assumes "send_msg type status payload tx = Some (r, out, tx')"
  shows "(\<exists>rest. header_bytes type status (length payload) @ payload = out @ rest) \<and>
    (r = 1) = (out = header_bytes type status (length payload) @ payload)"
  using send_msg_prefix [OF assms] by simp

text \<open>A read that asks for \<open>n\<close> bytes returns the first \<open>n\<close> bytes of the stream however they arrive; when the stream
  ends before, it returns how it ended (0 closed, -1 error), and it blocks only on a stream that neither goes on nor ends.\<close>

lemma recv_all_reads_stream:
  "\<exists>es'. recv_all n es =
    (if n \<le> length (rx_bytes es) then Some (1, take n (rx_bytes es), es')
     else map_option (\<lambda>c. (c, rx_bytes es, es')) (rx_end es))"
  using recv_all_enough [of n es] recv_all_short [of es n] by (cases "n \<le> length (rx_bytes es)") auto

text \<open>C24. The receiver refuses a frame whose length field exceeds \<open>MAX_PAYLOAD\<close> without reading the payload, although
  \<open>send_msg\<close> sends payloads of any length: such a message never arrives, and the stream is out of step after it.\<close>

theorem oversized_message_refused:
  assumes "send_msg type status payload tx = Some (1, out, tx')"
    and "unat MAX_PAYLOAD < length payload" and "length payload < 2 ^ 32" and "rx_bytes rx = out @ rest"
  shows "\<exists>hdr rx'. recv_msg old rx = Some (-1, hdr, snd old, rx') \<and> rx_bytes rx' = payload @ rest"
proof -
  have "rx_bytes rx = header_bytes type status (length payload) @ payload @ rest"
    using send_msg_prefix [OF assms(1)] assms(4) by simp
  then show ?thesis
    using recv_msg_reject [of rx type status "length payload"] assms(2,3) by (simp add: unat_of_nat)
qed

theorem oversized_message_refused_witness:
  "\<exists>hdr rx'. recv_msg (no_header, [1]) [RxData (header_bytes 7 0 532481), RxData (replicate 532481 65)] = Some (-1, hdr, [1], rx') \<and>
    rx_bytes rx' = replicate 532481 65"
proof -
  have len: "length (replicate 532481 (65 :: u8)) = 532481" by (rule length_replicate)
  have ne: "replicate 532481 (65 :: u8) \<noteq> []" by (rule ccontr) (use len in simp)
  show ?thesis
    using oversized_message_refused [OF send_msg_two [OF ne], where old = "(no_header, [1])" and rest = "[]"
        and rx = "[RxData (header_bytes 7 0 532481), RxData (replicate 532481 65)]"] len
    by simp
qed

text \<open>Every address that consists of an IP part without a colon, a colon, and a number from 1 to 65535 in decimal is accepted,
  with that IP part and that port.\<close>

lemma parse_endpoint_decimal:
  assumes "58 \<notin> set ip" and "0 < p" and "p < 65536"
  shows "parse_endpoint (ip @ [58] @ decimal p) = Some (ip, of_nat p)"
proof -
  have s: "ip @ [58] @ decimal p = ip @ 58 # decimal p" by simp
  have ip: "takeWhile (\<lambda>c. c \<noteq> 58) (ip @ 58 # decimal p) = ip"
    using assms(1) by (subst takeWhile_append2) auto
  have d: "drop (length ip + 1) (ip @ 58 # decimal p) = decimal p" by simp
  have "strtol10 (decimal p) = int p" using assms(3) by (simp add: strtol10_decimal LONG_MAX_def)
  then show ?thesis using assms(2,3) unfolding s parse_endpoint_def Let_def ip d by simp
qed

end
