(* ===== verification/Download_Manager.thy ===== *)
theory Download_Manager
  imports Peer_Workers Seeder Net
begin

text \<open>
  \<open>client/download_manager.hpp\<close> and \<open>client/download_manager.cpp\<close> around the peer threads of theory
  \<open>Peer_Workers\<close>: fetching one piece over a connection, the peer list, the rounds of a job, and the table of jobs.
\<close>

section \<open>Fetching a piece\<close>

text \<open>The checks on what came back.\<close>

definition accept_reply :: "u32 \<Rightarrow> msg_header \<Rightarrow> bytes \<Rightarrow> bytes option" where
  "accept_reply index hdr payload =
    (if h_type hdr \<noteq> msg_code MSG_PIECE_DATA \<or> h_status hdr \<noteq> status_code ST_OK then None
     else case rd get_u32 (of_bytes payload) of
       None \<Rightarrow> None
     | Some (got, _) \<Rightarrow> if got \<noteq> index then None else Some (drop 4 payload))"

text \<open>
  \<open>fetch_piece\<close>: the outer option is \<open>None\<close> where a call blocks, which the timeouts that \<open>peer_worker\<close> sets on the
  socket rule out; the inner one is the result.
\<close>

definition fetch_piece ::
    "bytes \<Rightarrow> bytes \<Rightarrow> u32 \<Rightarrow> tx_ev list \<Rightarrow> rx_ev list \<Rightarrow> (bytes option \<times> tx_ev list \<times> rx_ev list) option" where
  "fetch_piece g f index tx rx =
    do { (r, _, tx) \<leftarrow> send_msg (msg_code MSG_PIECE_REQUEST) 0 (piece_request_bytes g f index) tx;
         if r \<noteq> 1 then Some (None, tx, rx)
         else do { (r, hdr, payload, rx) \<leftarrow> recv_msg (no_header, []) rx;
                   Some (if r \<noteq> 1 then None else accept_reply index hdr payload, tx, rx) } }"

lemma rd_piece_data [simp]: "rd get_u32 (of_bytes (piece_data_bytes i d)) = Some (i, buf_at (enc_u32 i) d)"
  by (simp add: piece_data_bytes_def wire)

lemma drop_piece_data [simp]: "drop 4 (piece_data_bytes i d) = d"
  by (simp add: piece_data_bytes_def)

lemma length_piece_data [simp]: "length (piece_data_bytes i d) = 4 + length d"
  by (simp add: piece_data_bytes_def)

text \<open>An answer is accepted only if it is \<open>MSG_PIECE_DATA\<close>, \<open>ST_OK\<close> and carries the index that was asked for.\<close>

lemma accept_reply_some:
  "accept_reply index hdr payload = Some d \<Longrightarrow>
   h_type hdr = msg_code MSG_PIECE_DATA \<and> h_status hdr = status_code ST_OK \<and> payload = piece_data_bytes index d"
proof -
  assume a: "accept_reply index hdr payload = Some d"
  then obtain b where r: "rd get_u32 (buf_at [] payload) = Some (index, b)" and d: "d = drop 4 payload"
    and h: "h_type hdr = msg_code MSG_PIECE_DATA" "h_status hdr = status_code ST_OK"
    by (auto simp: accept_reply_def of_bytes_at split: if_splits option.splits)
  from u32_codec.rd_only [OF r] obtain q where "payload = enc_u32 index @ q" by auto
  then show ?thesis using d h by (simp add: piece_data_bytes_def)
qed

lemma fetch_reply:
  assumes sent: "send_msg (msg_code MSG_PIECE_REQUEST) 0 (piece_request_bytes g f i) tx = Some (1, out, tx')"
    and len: "length (piece_data_bytes i d) \<le> unat MAX_PAYLOAD"
    and rx: "rx_bytes rx = header_bytes (msg_code MSG_PIECE_DATA) (status_code ST_OK) (length (piece_data_bytes i d)) @
      piece_data_bytes i d @ rest"
  shows "\<exists>rx'. fetch_piece g f i tx rx = Some (Some d, tx', rx') \<and> rx_bytes rx' = rest"
proof -
  obtain rx' where "recv_msg (no_header, []) rx =
      Some (1, \<lparr>h_magic = PROTO_MAGIC, h_type = msg_code MSG_PIECE_DATA, h_status = status_code ST_OK,
        h_length = of_nat (length (piece_data_bytes i d))\<rparr>, piece_data_bytes i d, rx')" "rx_bytes rx' = rest"
    using recv_msg_frame [OF len rx, of "(no_header, [])"] by auto
  then show ?thesis using sent by (simp add: fetch_piece_def accept_reply_def)
qed

section \<open>The list of peers\<close>

record peer_addr =
  pa_user_id :: bytes
  pa_ip :: bytes
  pa_port :: u16

definition rd_seeder :: "buffer \<Rightarrow> (peer_addr \<times> buffer) option" where
  "rd_seeder b = do {
     (uid, b) \<leftarrow> rd get_str b;
     (ip, b) \<leftarrow> rd get_str b;
     (port, b) \<leftarrow> rd get_u16 b;
     (nbits, b) \<leftarrow> rd get_u32 b;
     (bits, b) \<leftarrow> rd_bits nbits b;
     Some (\<lparr>pa_user_id = uid, pa_ip = ip, pa_port = port\<rparr>, b) }"

text \<open>The loop keeps what it has decoded when it fails.\<close>

fun rd_seeders :: "bytes \<Rightarrow> nat \<Rightarrow> peer_addr list \<Rightarrow> buffer \<Rightarrow> bool \<times> peer_addr list" where
  "rd_seeders self 0 out b = (True, out)"
| "rd_seeders self (Suc n) out b =
     (case rd_seeder b of
        None \<Rightarrow> (False, out)
      | Some (pa, b) \<Rightarrow> rd_seeders self n (if pa_user_id pa \<noteq> self then out @ [pa] else out) b)"

definition rd_file_meta_head :: "buffer \<Rightarrow> ((u64 \<times> bytes \<times> bytes list \<times> u32) \<times> buffer) option" where
  "rd_file_meta_head b = do {
     (sz, b) \<leftarrow> rd get_u64 b;
     (fhash, b) \<leftarrow> rd get_str b;
     (pc, b) \<leftarrow> rd get_u32 b;
     (hs, b) \<leftarrow> rd_list (rd get_str) (unat pc) b;
     (npeers, b) \<leftarrow> rd get_u32 b;
     Some ((sz, fhash, hs, npeers), b) }"

definition decode_peer_list :: "bytes \<Rightarrow> bytes \<Rightarrow> peer_addr list \<Rightarrow> bool \<times> peer_addr list" where
  "decode_peer_list resp self_uid out =
    (case rd_file_meta_head (of_bytes resp) of
       None \<Rightarrow> (False, out)
     | Some ((_, _, _, npeers), b) \<Rightarrow> rd_seeders self_uid (unat npeers) [] b)"

section \<open>\<open>write_piece\<close> as steps\<close>

text \<open>The steps of thread \<open>t\<close>, run by itself, while it has a piece in its hands.\<close>

definition writing_step :: "bytes list \<Rightarrow> nat \<Rightarrow> round \<Rightarrow> round \<Rightarrow> bool" where
  "writing_step hashes t s s' \<longleftrightarrow> worker_step hashes t s s' \<and> holds (rd_workers s ! t) \<noteq> None"

text \<open>Whatever the kernel answers to its \<open>pwrite\<close> calls, \<open>write_piece\<close> is a sequence of such steps.\<close>

lemma pwrite_steps:
  assumes "rd_workers s ! t = W_Write n i d put" and "t < length (rd_workers s)" and "put \<le> length d"
    and "pwrite_all (drop put d) (i * unat PIECE_SIZE + put) es (rd_disk s) = (ok, f')"
  shows "\<exists>put' \<le> length d. (writing_step hashes t)\<^sup>*\<^sup>* s (set_worker t (W_Write n i d put') (s\<lparr>rd_disk := f'\<rparr>)) \<and>
    (ok \<longleftrightarrow> put' = length d)"
  using assms
proof (induction "length d - put" arbitrary: put es s rule: less_induct)
  case less
  have here: "set_worker t (W_Write n i d put) s = s"
    using less.prems(1,2) by (simp add: set_worker_def list_update_same_conv)
  show ?case
  proof (cases "put = length d")
    case True
    then have "ok" "f' = rd_disk s" using less.prems(4) by (auto simp: pwrite_all.simps)
    then show ?thesis using here True by (intro exI [of _ put]) simp
  next
    case False
    then have rest: "drop put d \<noteq> []" using less.prems(3) by simp
    show ?thesis
    proof (cases "io_count es (length (drop put d)) = None \<or> io_count es (length (drop put d)) = Some 0")
      case True
      then have "\<not> ok" "f' = rd_disk s" using less.prems(4) rest by (auto simp: pwrite_all.simps [of "drop put d"])
      then show ?thesis using here False less.prems(3) by (intro exI [of _ put]) simp
    next
      case more: False
      then obtain k where k: "io_count es (length (drop put d)) = Some k" "0 < k" by auto
      have kd: "put + k \<le> length d"
        using k(1) less.prems(3) by (cases "(es, length (drop put d))" rule: io_count.cases) auto
      let ?s = "set_worker t (W_Write n i d (put + k))
        (s\<lparr>rd_disk := disk_write (i * unat PIECE_SIZE + put) (take k (drop put d)) (rd_disk s)\<rparr>)"
      have w: "writing_step hashes t s ?s" using writes [OF less.prems(1) k(2) kd] less.prems(1) by (simp add: writing_step_def)
      have "pwrite_all (drop (put + k) d) (i * unat PIECE_SIZE + (put + k)) (tl es) (rd_disk ?s) = (ok, f')"
        using less.prems(4) rest k by (simp add: pwrite_all.simps [of "drop put d"] ac_simps)
      moreover have "length d - (put + k) < length d - put" using k(2) kd by simp
      ultimately obtain p where p: "p \<le> length d" "ok \<longleftrightarrow> p = length d"
        "(writing_step hashes t)\<^sup>*\<^sup>* ?s (set_worker t (W_Write n i d p) (?s\<lparr>rd_disk := f'\<rparr>))"
        using less.hyps [of "put + k" ?s "tl es"] less.prems(2) kd by auto
      have "set_worker t (W_Write n i d p) (?s\<lparr>rd_disk := f'\<rparr>) = set_worker t (W_Write n i d p) (s\<lparr>rd_disk := f'\<rparr>)"
        by (simp add: set_worker_def)
      then show ?thesis using p w by (intro exI [of _ p]) (simp add: converse_rtranclp_into_rtranclp)
    qed
  qed
qed

lemma write_piece_steps:
  assumes t: "rd_workers s ! t = W_Fetch n i" "t < length (rd_workers s)" and i: "i < 2 ^ 32"
    and w: "write_piece (of_nat i) d (hashes ! i) es (rd_store s) (rd_disk s) = (ok, st', f')"
  shows "(writing_step hashes t)\<^sup>*\<^sup>* s
    (if ok then set_worker t W_Tell (s\<lparr>rd_store := st', rd_disk := f'\<rparr>)
     else give_back t n i (s\<lparr>rd_store := st', rd_disk := f'\<rparr>))"
proof (cases "write_ready hashes (rd_store s) i d")
  case False
  then have e: "\<not> ok" "st' = rd_store s" "f' = rd_disk s"
    using w by (auto simp: write_piece_def write_ready_def not_le split: if_splits)
  have "s\<lparr>rd_store := rd_store s, rd_disk := rd_disk s\<rparr> = s" by simp
  then show ?thesis using e rejected [OF t(1) False] t(1) by (simp add: writing_step_def r_into_rtranclp)
next
  case ready: True
  obtain ok' g where p: "pwrite_all d (i * unat PIECE_SIZE) es (rd_disk s) = (ok', g)"
    by (cases "pwrite_all d (i * unat PIECE_SIZE) es (rd_disk s)")
  have iu: "unat (of_nat i :: u32) = i" using i by (simp add: unat_of_nat)
  have res: "ok = ok'" "f' = g"
      "st' = (if ok' then (rd_store s)\<lparr>ps_have := mark i (ps_have (rd_store s))\<rparr> else rd_store s)"
    using w p ready by (auto simp: write_piece_def write_ready_def not_le piece_off_def iu split: if_splits bool.splits)
  let ?s0 = "set_worker t (W_Write n i d 0) s"
  have 0: "writing_step hashes t s ?s0" using fetched [OF t(1) ready] t(1) by (simp add: writing_step_def)
  obtain put where put: "put \<le> length d" "ok \<longleftrightarrow> put = length d"
    "(writing_step hashes t)\<^sup>*\<^sup>* ?s0 (set_worker t (W_Write n i d put) (?s0\<lparr>rd_disk := f'\<rparr>))"
    using pwrite_steps [of ?s0 t n i d 0 es ok f' hashes] t p res by auto
  let ?s1 = "set_worker t (W_Write n i d put) (?s0\<lparr>rd_disk := f'\<rparr>)"
  have at: "rd_workers ?s1 ! t = W_Write n i d put" using t(2) by simp
  have "writing_step hashes t ?s1
      (if ok then set_worker t W_Tell (s\<lparr>rd_store := st', rd_disk := f'\<rparr>)
       else give_back t n i (s\<lparr>rd_store := st', rd_disk := f'\<rparr>))"
  proof (cases ok)
    case True
    have "set_worker t W_Tell (?s1\<lparr>rd_store := (rd_store ?s1)\<lparr>ps_have := mark i (ps_have (rd_store ?s1))\<rparr>\<rparr>)
        = set_worker t W_Tell (s\<lparr>rd_store := st', rd_disk := f'\<rparr>)"
      using True res by (cases s) (simp add: set_worker_def)
    then show ?thesis using marks [OF at] put(2) True at by (simp add: writing_step_def)
  next
    case False
    then have "writing_step hashes t ?s1 (give_back t n i ?s1)" using write_fails [OF at] put at by (simp add: writing_step_def)
    then show ?thesis using False res by (simp add: set_worker_def give_back_def)
  qed
  then show ?thesis using 0 put(3) by (meson converse_rtranclp_into_rtranclp rtranclp.rtrancl_into_rtrancl)
qed

text \<open>Conversely, every way in which the thread comes to be rid of the piece is a call of \<open>write_piece\<close>.\<close>

lemma writing_worker: "(writing_step hashes t)\<^sup>*\<^sup>* s s' \<Longrightarrow> (worker_step hashes t)\<^sup>*\<^sup>* s s'"
  by (rule rtranclp_mono [THEN predicate2D]) (auto simp: writing_step_def)

lemma writing_stops: "(writing_step hashes t)\<^sup>*\<^sup>* s s' \<Longrightarrow> holds (rd_workers s ! t) = None \<Longrightarrow> s' = s"
  by (erule converse_rtranclpE) (auto simp: writing_step_def)

lemma give_back_holds: "t < length (rd_workers s) \<Longrightarrow> holds (rd_workers (give_back t n i s) ! t) = None"
  by (simp add: give_back_def)

lemma writing_run:
  assumes "(writing_step hashes t)\<^sup>*\<^sup>* s s'" and "holds (rd_workers s' ! t) = None"
    and "rd_workers s ! t = W_Write n i d put" and "put \<le> length d" and "t < length (rd_workers s)"
  shows "\<exists>es ok f'. pwrite_all (drop put d) (i * unat PIECE_SIZE + put) es (rd_disk s) = (ok, f') \<and>
    s' = (if ok then set_worker t W_Tell (s\<lparr>rd_store := (rd_store s)\<lparr>ps_have := mark i (ps_have (rd_store s))\<rparr>, rd_disk := f'\<rparr>)
          else give_back t n i (s\<lparr>rd_disk := f'\<rparr>))"
  using assms
proof (induction arbitrary: put rule: converse_rtranclp_induct)
  case (step s y)
  have "worker_step hashes t s y" using step.hyps(1) by (simp add: writing_step_def)
  then show ?case
  proof cases
    case (writes n' i' d' p k)
    then have e: "n' = n" "i' = i" "d' = d" "p = put" using step.prems(2) by auto
    let ?f = "disk_write (i * unat PIECE_SIZE + put) (take k (drop put d)) (rd_disk s)"
    have y: "y = set_worker t (W_Write n i d (put + k)) (s\<lparr>rd_disk := ?f\<rparr>)" using writes(1) e by simp
    have k: "0 < k" "put + k \<le> length d" using writes(3,4) e by auto
    obtain es ok f' where w: "pwrite_all (drop (put + k) d) (i * unat PIECE_SIZE + (put + k)) es ?f = (ok, f')"
      and s': "s' = (if ok then set_worker t W_Tell (y\<lparr>rd_store := (rd_store y)\<lparr>ps_have := mark i (ps_have (rd_store y))\<rparr>, rd_disk := f'\<rparr>)
          else give_back t n i (y\<lparr>rd_disk := f'\<rparr>))"
      using step.IH [of "put + k"] step.prems(1,4) y k by auto
    have "pwrite_all (drop put d) (i * unat PIECE_SIZE + put) (IoUpTo k # es) (rd_disk s) = (ok, f')"
      using w k by (simp add: pwrite_all.simps [of "drop put d"] ac_simps)
    moreover have "s' = (if ok then set_worker t W_Tell (s\<lparr>rd_store := (rd_store s)\<lparr>ps_have := mark i (ps_have (rd_store s))\<rparr>, rd_disk := f'\<rparr>)
          else give_back t n i (s\<lparr>rd_disk := f'\<rparr>))"
      using s' y by (cases s) (simp add: set_worker_def give_back_def)
    ultimately show ?thesis by blast
  next
    case (write_fails n' i' d' p)
    then have y: "y = give_back t n i s" "put < length d" using step.prems(2) by auto
    then have "s' = y" using writing_stops [OF step.hyps(2)] give_back_holds step.prems(4) by simp
    moreover have "pwrite_all (drop put d) (i * unat PIECE_SIZE + put) [IoError] (rd_disk s) = (False, rd_disk s)"
      using y(2) by (simp add: pwrite_all.simps [of "drop put d"])
    ultimately show ?thesis using y(1) by (intro exI [of _ "[IoError]"] exI [of _ False] exI [of _ "rd_disk s"]) simp
  next
    case (marks n' i' d' p)
    then have y: "y = set_worker t W_Tell (s\<lparr>rd_store := (rd_store s)\<lparr>ps_have := mark i (ps_have (rd_store s))\<rparr>\<rparr>)" "put = length d"
      using step.prems(2) by auto
    then have "s' = y" using writing_stops [OF step.hyps(2)] step.prems(4) by simp
    moreover have "pwrite_all (drop put d) (i * unat PIECE_SIZE + put) [] (rd_disk s) = (True, rd_disk s)"
      using y(2) by (simp add: pwrite_all.simps)
    ultimately show ?thesis using y(1) by (intro exI [of _ "[]"] exI [of _ True] exI [of _ "rd_disk s"]) simp
  qed (use step.prems(2) in simp_all)
qed simp

lemma fetched_run:
  assumes run: "(writing_step hashes t)\<^sup>*\<^sup>* s s'" and h: "holds (rd_workers s' ! t) = None"
    and t: "rd_workers s ! t = W_Fetch n i" "t < length (rd_workers s)" and i: "i < 2 ^ 32"
  shows "\<exists>d es ok st' f'. write_piece (of_nat i) d (hashes ! i) es (rd_store s) (rd_disk s) = (ok, st', f') \<and>
    s' = (if ok then set_worker t W_Tell (s\<lparr>rd_store := st', rd_disk := f'\<rparr>) else give_back t n i (s\<lparr>rd_store := st', rd_disk := f'\<rparr>))"
proof -
  have same: "s\<lparr>rd_store := rd_store s, rd_disk := rd_disk s\<rparr> = s" by simp
  have refused: "\<exists>d es ok st' f'. write_piece (of_nat i) d (hashes ! i) es (rd_store s) (rd_disk s) = (ok, st', f') \<and>
      s' = (if ok then set_worker t W_Tell (s\<lparr>rd_store := st', rd_disk := f'\<rparr>) else give_back t n i (s\<lparr>rd_store := st', rd_disk := f'\<rparr>))"
    if "s' = give_back t n i s" and "\<not> write_ready hashes (rd_store s) i d" for d
  proof -
    have "write_piece (of_nat i) d (hashes ! i) [] (rd_store s) (rd_disk s) = (False, rd_store s, rd_disk s)"
      using that(2) by (auto simp: write_piece_def write_ready_def not_le)
    then show ?thesis using that(1)
      by (intro exI [of _ d] exI [of _ "[]"] exI [of _ False] exI [of _ "rd_store s"] exI [of _ "rd_disk s"]) (simp add: same)
  qed
  have "s \<noteq> s'" using h t(1) by auto
  then obtain y where y: "writing_step hashes t s y" "(writing_step hashes t)\<^sup>*\<^sup>* y s'" using run by (metis converse_rtranclpE)
  have "worker_step hashes t s y" using y(1) by (simp add: writing_step_def)
  then show ?thesis
  proof cases
    case (fetch_fails n' i')
    then have "y = give_back t n i s" using t(1) by simp
    then have "s' = give_back t n i s" using writing_stops [OF y(2)] give_back_holds t(2) by simp
    moreover have "\<not> write_ready hashes (rd_store s) i (replicate (unat (piece_len (rd_store s) (of_nat i)) + 1) 0)"
      by (simp add: write_ready_def)
    ultimately show ?thesis by (rule refused)
  next
    case (rejected n' i' d)
    then have "y = give_back t n i s" "\<not> write_ready hashes (rd_store s) i d" using t(1) by auto
    then show ?thesis using refused writing_stops [OF y(2)] give_back_holds t(2) by simp
  next
    case (fetched n' i' d)
    then have e: "y = set_worker t (W_Write n i d 0) s" and ready: "write_ready hashes (rd_store s) i d" using t(1) by auto
    obtain es ok f' where w: "pwrite_all d (i * unat PIECE_SIZE) es (rd_disk s) = (ok, f')"
      and s': "s' = (if ok then set_worker t W_Tell (y\<lparr>rd_store := (rd_store y)\<lparr>ps_have := mark i (ps_have (rd_store y))\<rparr>, rd_disk := f'\<rparr>)
          else give_back t n i (y\<lparr>rd_disk := f'\<rparr>))"
      using writing_run [OF y(2) h, of n i d 0] e t(2) by auto
    have iu: "unat (of_nat i :: u32) = i" using i by (simp add: unat_of_nat)
    let ?st = "if ok then (rd_store s)\<lparr>ps_have := mark i (ps_have (rd_store s))\<rparr> else rd_store s"
    have "write_piece (of_nat i) d (hashes ! i) es (rd_store s) (rd_disk s) = (ok, ?st, f')"
      using ready w by (cases ok) (auto simp: write_piece_def write_ready_def not_le [symmetric] piece_off_def iu)
    moreover have "s' = (if ok then set_worker t W_Tell (s\<lparr>rd_store := ?st, rd_disk := f'\<rparr>)
        else give_back t n i (s\<lparr>rd_store := ?st, rd_disk := f'\<rparr>))"
      using s' e by (cases s) (simp add: set_worker_def give_back_def)
    ultimately show ?thesis by blast
  qed (use t(1) in simp_all)
qed

section \<open>The rounds of a job\<close>

definition k_target_connections :: nat where
  "k_target_connections = 8"

definition k_max_rounds :: nat where
  "k_max_rounds = 5"

record download_job =
  dj_group :: bytes
  dj_file :: bytes
  dj_dest_path :: bytes
  dj_size :: u64
  dj_file_hash :: bytes
  dj_piece_hashes :: "bytes list"
  dj_peers :: "peer_addr list"
  dj_user_id :: bytes
  dj_store :: store_ref
  dj_done :: bool
  dj_failed :: bool

text \<open>
  What happens around one job: whether \<open>open\<close> and \<open>ftruncate\<close> succeed, the holes of the file, the kernel's answers
  while it is scanned, the number of cores, the order in which the scanning threads run, and the tracker's answer to the
  \<open>MSG_GET_FILE_META\<close> of each round (\<open>None\<close>: no tracker reachable).
\<close>

record job_env =
  je_opened :: bool
  je_resized :: bool
  je_seek :: "nat \<Rightarrow> nat option"
  je_ios :: "nat \<Rightarrow> io_ev list"
  je_cores :: nat
  je_sched :: "nat list"
  je_resp :: "nat \<Rightarrow> (u16 \<times> bytes) option"

definition fresh_peers :: "job_env \<Rightarrow> download_job \<Rightarrow> nat \<Rightarrow> peer_addr list" where
  "fresh_peers E job r =
    (case je_resp E r of
       None \<Rightarrow> []
     | Some (status, resp) \<Rightarrow>
         if status = status_code ST_OK then snd (decode_peer_list resp (dj_user_id job) []) else [])"

definition conns_per_peer :: "peer_addr list \<Rightarrow> nat" where
  "conns_per_peer peers = max 1 (k_target_connections div length peers)"

definition round_begin :: "peer_addr list \<Rightarrow> round \<Rightarrow> round" where
  "round_begin peers s =
     s\<lparr>rd_queue := filter (\<lambda>i. \<not> have_piece (rd_store s) (of_nat i)) [0..<unat (ps_count (rd_store s))],
       rd_workers := replicate (length peers * conns_per_peer peers) W_Connect\<rparr>"

definition round_flush :: "nat \<Rightarrow> round \<Rightarrow> round" where
  "round_flush now s =
     s\<lparr>rd_ann := announce_reset now (rd_ann s), rd_told := rd_told s @ [bitfield (rd_store s)]\<rparr>"

text \<open>
  \<open>for (round = r; round < kMaxRounds && !complete(); ++round)\<close>. There is no rule for a first round without peers,
  where the code divides by zero; \<open>main.cpp\<close> starts no such job.
\<close>

inductive job_rounds :: "job_env \<Rightarrow> download_job \<Rightarrow> nat \<Rightarrow> peer_addr list \<Rightarrow> round \<Rightarrow> round \<Rightarrow> bool" for E job where
  rounds_stop: "k_max_rounds \<le> r \<or> complete (rd_store s) \<Longrightarrow> job_rounds E job r peers s s"
| rounds_skip: "r < k_max_rounds \<Longrightarrow> \<not> complete (rd_store s) \<Longrightarrow> 0 < r \<Longrightarrow> fresh_peers E job r = [] \<Longrightarrow>
    job_rounds E job (r + 1) [] s s' \<Longrightarrow> job_rounds E job r peers s s'"
| rounds_work: "r < k_max_rounds \<Longrightarrow> \<not> complete (rd_store s) \<Longrightarrow>
    peers' = (if r = 0 then peers else fresh_peers E job r) \<Longrightarrow> peers' \<noteq> [] \<Longrightarrow>
    (round_step (dj_piece_hashes job))\<^sup>*\<^sup>* (round_begin peers' s) s1 \<Longrightarrow> round_over s1 \<Longrightarrow>
    job_rounds E job (r + 1) peers' (round_flush now s1) s' \<Longrightarrow> job_rounds E job r peers s s'"

section \<open>A job\<close>

definition round_zero :: "piece_store \<Rightarrow> disk \<Rightarrow> round" where
  "round_zero st f = \<lparr>rd_store = st, rd_disk = f, rd_queue = [], rd_workers = [],
     rd_ann = \<lparr>an_pieces = 0, an_last = 0\<rparr>, rd_told = []\<rparr>"

definition job_open :: "job_env \<Rightarrow> download_job \<Rightarrow> disk \<Rightarrow> bool \<times> piece_store \<times> disk" where
  "job_open E job f =
     open_for_download (je_opened E) (je_resized E) (dj_size job) (of_nat (length (dj_piece_hashes job))) ps_new f"

definition job_scan :: "job_env \<Rightarrow> download_job \<Rightarrow> piece_store \<Rightarrow> disk \<Rightarrow> piece_store" where
  "job_scan E job = resume_scan (dj_piece_hashes job) (je_seek E) (je_ios E) (je_cores E) (je_sched E)"

definition job_scan_joined :: "job_env \<Rightarrow> download_job \<Rightarrow> piece_store \<Rightarrow> disk \<Rightarrow> bool" where
  "job_scan_joined E job st f =
     pool_joined (scan_pool (dj_piece_hashes job) (je_seek E) (je_ios E) (je_cores E) (je_sched E) st f)"

definition job_key :: "download_job \<Rightarrow> share_key" where
  "job_key job = ShareKey (dj_group job) (dj_file job)"

text \<open>\<open>run_job\<close>: the job and the seeder afterwards, and the store and the file.\<close>

inductive run_job ::
    "job_env \<Rightarrow> download_job \<Rightarrow> disk \<Rightarrow> seeder \<Rightarrow> download_job \<times> seeder \<times> piece_store \<times> disk \<Rightarrow> bool" for E job f sd where
  no_file: "job_open E job f = (False, st, f') \<Longrightarrow> run_job E job f sd (job\<lparr>dj_failed := True\<rparr>, sd, st, f')"
| gives_up: "job_open E job f = (True, st, f0) \<Longrightarrow> job_scan_joined E job st f0 \<Longrightarrow>
    job_rounds E job 0 (dj_peers job) (round_zero (job_scan E job st f0) f0) s \<Longrightarrow> \<not> complete (rd_store s) \<Longrightarrow>
    run_job E job f sd (job\<lparr>dj_failed := True\<rparr>, sd, rd_store s, rd_disk s)"
| finishes: "job_open E job f = (True, st, f0) \<Longrightarrow> job_scan_joined E job st f0 \<Longrightarrow>
    job_rounds E job 0 (dj_peers job) (round_zero (job_scan E job st f0) f0) s \<Longrightarrow> complete (rd_store s) \<Longrightarrow>
    run_job E job f sd
      (job\<lparr>dj_done := True\<rparr>, add_share (job_key job) (dj_store job) sd, rd_store s, rd_disk s)"

section \<open>The table of jobs\<close>

type_synonym job_ref = nat
type_synonym job_heap = "job_ref \<Rightarrow> download_job"

record download_manager =
  dm_jobs :: "(bytes \<times> job_ref) list"
  dm_threads :: "job_ref list"

definition dm_key :: "download_job \<Rightarrow> bytes" where
  "dm_key job = dj_group job @ str ''/'' @ dj_file job"

text \<open>\<open>start\<close>: the new threads run \<open>run_job\<close> on the jobs in \<open>dm_threads\<close>.\<close>

definition dm_start :: "job_heap \<Rightarrow> job_ref \<Rightarrow> download_manager \<Rightarrow> bool \<times> download_manager" where
  "dm_start J j dm =
    (case map_find (dm_jobs dm) (dm_key (J j)) of
       Some old \<Rightarrow>
         if \<not> dj_done (J old) \<and> \<not> dj_failed (J old) then (False, dm)
         else (True, \<lparr>dm_jobs = map_put (dm_key (J j)) j (dm_jobs dm), dm_threads = dm_threads dm @ [j]\<rparr>)
     | None \<Rightarrow> (True, \<lparr>dm_jobs = map_put (dm_key (J j)) j (dm_jobs dm), dm_threads = dm_threads dm @ [j]\<rparr>))"

definition status_line :: "download_job \<Rightarrow> bytes" where
  "status_line j =
    (if dj_done j then str ''[C] ['' @ dj_group j @ str ''] '' @ dj_file j
     else if dj_failed j then str ''[F] ['' @ dj_group j @ str ''] '' @ dj_file j
     else str ''[D] ['' @ dj_group j @ str ''] '' @ dj_file j)"

definition status_lines :: "job_heap \<Rightarrow> download_manager \<Rightarrow> bytes list" where
  "status_lines J dm = map (\<lambda>kv. status_line (J (snd kv))) (dm_jobs dm)"

definition join_all :: "download_manager \<Rightarrow> download_manager" where
  "join_all dm = dm\<lparr>dm_threads := []\<rparr>"

section \<open>A round\<close>

text \<open>Between two rounds.\<close>

definition rest_inv :: "bytes list \<Rightarrow> round \<Rightarrow> bool" where
  "rest_inv hashes s \<longleftrightarrow> store_inv hashes (rd_store s) (rd_disk s) \<and> told_ok s"

lemma round_begin_inv:
  assumes "rest_inv hashes s"
  shows "round_inv hashes (round_begin peers s)"
proof -
  let ?s = "round_begin peers s"
  have "held ?s t = None" for t by (simp add: held_def round_begin_def)
  moreover have "distinct (rd_queue ?s)" by (simp add: round_begin_def)
  moreover have "set (rd_queue ?s) = missing (rd_store ?s)"
  proof -
    have "unat (of_nat i :: u32) = i" if "i < unat (ps_count (rd_store s))" for i
      using that unat_u32 [of "ps_count (rd_store s)"] by (simp add: unat_of_nat)
    then show ?thesis by (auto simp: round_begin_def missing_def have_piece_iff)
  qed
  ultimately have "accounted (rd_queue ?s) (missing (rd_store ?s)) (held ?s)" by (simp add: accounted_def)
  moreover have "worker_ok hashes ?s (rd_workers ?s ! t)" if "t < length (rd_workers ?s)" for t
    using that by (simp add: round_begin_def)
  ultimately show ?thesis
    using assms by (simp add: round_inv_def rest_inv_def) (simp add: round_begin_def told_ok_def)
qed

lemma steps_inv:
  "(round_step hashes)\<^sup>*\<^sup>* s s' \<Longrightarrow> round_inv hashes s \<Longrightarrow>
   round_inv hashes s' \<and> grows (rd_store s, rd_disk s) (rd_store s', rd_disk s')"
proof (induction rule: rtranclp_induct)
  case (step y z)
  then have "round_inv hashes y" by simp
  moreover from this have "grows (rd_store y, rd_disk y) (rd_store z, rd_disk z)"
    using step.hyps(2) worker_step_grows by (auto simp: round_step_def)
  ultimately show ?case using step round_step_inv grows_trans by blast
qed simp

lemma round_flush_inv: "round_inv hashes s \<Longrightarrow> rest_inv hashes (round_flush now s)"
  by (auto simp: rest_inv_def round_flush_def round_inv_def told_ok_def bitfield_def)

text \<open>At the end of a round the queue holds exactly the pieces that are still missing.\<close>

lemma round_over_queue:
  assumes "round_inv hashes s" and "round_over s"
  shows "set (rd_queue s) = missing (rd_store s)"
proof -
  have "rd_workers s ! t = W_Done" if "t < length (rd_workers s)" for t
    using assms(2) nth_mem [OF that] by (simp add: round_over_def)
  then have "held s t = None" for t by (simp add: held_def)
  then show ?thesis using accountedD(2) [OF round_invD(2) [OF assms(1)]] by auto
qed

lemma round_finishes: "round_inv hashes s \<Longrightarrow> \<exists>s'. (round_step hashes)\<^sup>*\<^sup>* s s' \<and> round_over s'"
proof (induction "round_left s" arbitrary: s rule: less_induct)
  case less
  show ?case
  proof (cases "round_over s")
    case False
    then obtain y where y: "round_step hashes s y" using round_progress [OF less.prems] by blast
    then obtain z where "(round_step hashes)\<^sup>*\<^sup>* y z" "round_over z"
      using less.hyps [OF round_step_left [OF y less.prems]] round_step_inv [OF y less.prems] by blast
    then show ?thesis using y by (meson converse_rtranclp_into_rtranclp)
  qed blast
qed

text \<open>No schedule of the threads goes on for ever.\<close>

lemma round_steps_bound: "(round_step hashes ^^ n) s s' \<Longrightarrow> round_inv hashes s \<Longrightarrow> n + round_left s' \<le> round_left s"
proof (induction n arbitrary: s')
  case (Suc n)
  then obtain y where y: "(round_step hashes ^^ n) s y" "round_step hashes y s'" by auto
  have "round_inv hashes y" using steps_inv [OF relpowp_imp_rtranclp [OF y(1)] Suc.prems(2)] ..
  then show ?case using Suc.IH [OF y(1) Suc.prems(2)] round_step_left [OF y(2)] by simp
qed simp

section \<open>All rounds\<close>

lemma job_rounds_inv:
  "job_rounds E job r peers s s' \<Longrightarrow> rest_inv (dj_piece_hashes job) s \<Longrightarrow>
   rest_inv (dj_piece_hashes job) s' \<and> grows (rd_store s, rd_disk s) (rd_store s', rd_disk s')"
proof (induction rule: job_rounds.induct)
  case (rounds_work r s peers' peers s1 now s')
  have b: "rd_store (round_begin peers' s) = rd_store s" "rd_disk (round_begin peers' s) = rd_disk s"
      "rd_store (round_flush now s1) = rd_store s1" "rd_disk (round_flush now s1) = rd_disk s1"
    by (simp_all add: round_begin_def round_flush_def)
  note 1 = steps_inv [OF rounds_work.hyps(5) round_begin_inv [OF rounds_work.prems]]
  then have "rest_inv (dj_piece_hashes job) (round_flush now s1)" using round_flush_inv by blast
  with rounds_work.IH have 2: "rest_inv (dj_piece_hashes job) s'"
      "grows (rd_store s1, rd_disk s1) (rd_store s', rd_disk s')" by (simp_all add: b)
  have "grows (rd_store s, rd_disk s) (rd_store s1, rd_disk s1)" using 1 by (simp add: b)
  then show ?case using 2 grows_trans by blast
qed simp_all

lemma job_rounds_end:
  assumes "rest_inv (dj_piece_hashes job) s" and "r = 0 \<longrightarrow> peers \<noteq> []"
  shows "\<exists>s'. job_rounds E job r peers s s'"
  using assms
proof (induction "k_max_rounds - r" arbitrary: r peers s)
  case 0
  then show ?case by (auto intro: rounds_stop)
next
  case (Suc n)
  then have r: "r < k_max_rounds" "n = k_max_rounds - (r + 1)" by auto
  let ?p = "if r = 0 then peers else fresh_peers E job r"
  show ?case
  proof (cases "complete (rd_store s)")
    case False
    show ?thesis
    proof (cases "?p = []")
      case True
      then have "0 < r" "fresh_peers E job r = []" using Suc.prems(2) by (auto split: if_splits)
      moreover obtain s' where "job_rounds E job (r + 1) [] s s'"
        using Suc.hyps(1) [OF r(2) Suc.prems(1), of "[]"] by auto
      ultimately show ?thesis using rounds_skip [OF r(1) False] by blast
    next
      case ne: False
      obtain s1 where s1: "(round_step (dj_piece_hashes job))\<^sup>*\<^sup>* (round_begin ?p s) s1" "round_over s1"
        using round_finishes [OF round_begin_inv [OF Suc.prems(1)]] by blast
      have "rest_inv (dj_piece_hashes job) (round_flush 0 s1)"
        using steps_inv [OF s1(1) round_begin_inv [OF Suc.prems(1)]] round_flush_inv by blast
      then obtain s' where "job_rounds E job (r + 1) ?p (round_flush 0 s1) s'"
        using Suc.hyps(1) [OF r(2)] by fastforce
      then show ?thesis using rounds_work [OF r(1) False refl ne s1] by blast
    qed
  qed (auto intro: rounds_stop)
qed

section \<open>What a finished job has done\<close>

text \<open>The metadata fit together: as many hashes as a file of the size has pieces.\<close>

definition meta_ok :: "download_job \<Rightarrow> bool" where
  "meta_ok job \<longleftrightarrow> length (dj_piece_hashes job) = (unat (dj_size job) + 524287) div 524288 \<and>
     2 * length (dj_piece_hashes job) + 8 < 2 ^ 32"

lemma job_opened:
  assumes "meta_ok job" and o': "job_open E job f = (True, st, f0)" and j: "job_scan_joined E job st f0"
  shows "rest_inv (dj_piece_hashes job) (round_zero (job_scan E job st f0) f0)"
    and "layout_ok (job_scan E job st f0) f0"
proof -
  let ?h = "dj_piece_hashes job" and ?st = "job_scan E job st f0"
  have n: "2 * length ?h + 8 < 2 ^ 32" "length ?h = (unat (dj_size job) + 524287) div 524288"
    using assms(1) by (auto simp: meta_ok_def)
  have u: "unat (of_nat (length ?h) :: u32) = length ?h" using n(1) by (simp add: unat_of_nat)
  have st: "st = \<lparr>ps_fd = True, ps_size = dj_size job, ps_count = of_nat (length ?h),
      ps_have = replicate (unat (bitmap_bytes (of_nat (length ?h)))) 0\<rparr>" and f0: "f0 = ftruncate (unat (dj_size job)) f"
    using o' by (auto simp: job_open_def open_for_download_def split: if_splits)
  have l: "layout_ok st f0" using n(2) u by (simp add: st f0 layout_ok_def)
  have ok: "ps_ok st" using n(1) u by (simp add: st ps_ok_def)
  have pin: "\<forall>i < unat (ps_count st). piece_in st f0 i" using layout_slice [OF l] by blast
  have "\<not> bit_of (ps_have st) i" if "i < unat (ps_count st)" for i
    using ps_ok_index [OF ok that] by (simp add: st)
  then have v: "verified ?h st f0" using u by (simp add: verified_def st)
  have b: "scan_count st ?h + pool_size c (scan_count st ?h) < 2 ^ 32" for c
  proof -
    have "scan_count st ?h \<le> length ?h" using scan_count_le [of st ?h] u by (simp add: st)
    moreover have "pool_size c (scan_count st ?h) \<le> scan_count st ?h + 1" by (simp add: pool_size_def)
    ultimately show ?thesis using n(1) by linarith
  qed
  note j' = j [unfolded job_scan_joined_def]
  have "ps_fd st" by (simp add: st)
  then have "ps_ok ?st" using resume_scan_bits [OF ok _ b j'] by (simp add: job_scan_def)
  moreover have "verified ?h ?st f0"
    using resume_scan_verified [OF ok v pin b j'] by (simp add: job_scan_def)
  moreover have same: "ps_count ?st = ps_count st" "ps_size ?st = ps_size st" by (simp_all add: job_scan_def)
  ultimately show "rest_inv ?h (round_zero ?st f0)"
    using pin piece_fun_cong(3) [OF same]
    by (simp add: rest_inv_def round_zero_def store_inv_def told_ok_def)
  show "layout_ok ?st f0" using l by (simp add: layout_ok_def same)
qed

lemma run_job_done:
  assumes "run_job E job f sd (job', sd', st, f')" and "meta_ok job" and "dj_done job'" and "\<not> dj_done job"
  shows "map hash_buffer (file_pieces (unat PIECE_SIZE) f') = dj_piece_hashes job \<and>
    length f' = unat (dj_size job) \<and> find_share (job_key job) sd' = Some (dj_store job) \<and>
    complete st \<and> store_inv (dj_piece_hashes job) st f'"
  using assms(1)
proof cases
  case (finishes st0 f0 s)
  let ?s0 = "round_zero (job_scan E job st0 f0) f0"
  note 0 = job_opened [OF assms(2) finishes(5,6)]
  from job_rounds_inv [OF finishes(7) 0(1)] have r: "rest_inv (dj_piece_hashes job) s"
    "grows (rd_store ?s0, rd_disk ?s0) (rd_store s, rd_disk s)" by auto
  have l: "layout_ok (rd_store s) (rd_disk s)"
    using 0(2) r(2) by (simp add: layout_ok_def grows_def round_zero_def)
  have len: "length f0 = unat (dj_size job)"
    using finishes(5) by (auto simp: job_open_def open_for_download_def split: if_splits)
  have "map hash_buffer (file_pieces (unat PIECE_SIZE) (rd_disk s)) = dj_piece_hashes job"
    using complete_file [OF finishes(8) _ l] r(1) by (simp add: rest_inv_def store_inv_def)
  then show ?thesis
    using finishes r len by (simp add: find_share_ops rest_inv_def grows_def round_zero_def)
qed (use assms(3,4) in simp_all)

lemma run_job_failed:
  assumes "run_job E job f sd (job', sd', st, f')" and "meta_ok job" and "dj_failed job'" and "\<not> dj_failed job"
  shows "sd' = sd \<and>
    (if fst (job_open E job f) then missing st \<noteq> {} \<and> store_inv (dj_piece_hashes job) st f' else f' = f \<and> \<not> ps_fd st)"
  using assms(1)
proof cases
  case no_file
  then show ?thesis by (auto simp: job_open_def open_for_download_def split: if_splits)
next
  case (gives_up st0 f0 s)
  note 0 = job_opened [OF assms(2) gives_up(5,6)]
  have "rest_inv (dj_piece_hashes job) s" using job_rounds_inv [OF gives_up(7) 0(1)] by simp
  then show ?thesis using gives_up by (auto simp: rest_inv_def missing_def complete_iff)
qed (use assms(3,4) in auto)

lemma run_job_decides:
  assumes "run_job E job f sd (job', sd', st, f')" and "\<not> dj_done job" and "\<not> dj_failed job"
  shows "dj_done job' \<noteq> dj_failed job'"
  using assms by cases auto

text \<open>Every job comes to an end, whatever the network and the schedule do.\<close>

lemma run_job_ends:
  assumes "meta_ok job" and "dj_peers job \<noteq> []"
    and "\<forall>t < length (dj_piece_hashes job) + 1. 2 * length (dj_piece_hashes job) + 1 \<le> count_list (je_sched E) t"
  shows "\<exists>r. run_job E job f sd r"
proof (cases "job_open E job f")
  case (fields ok st f0)
  show ?thesis
  proof (cases ok)
    case True
    then have o': "job_open E job f = (True, st, f0)" using fields by simp
    let ?n = "scan_count st (dj_piece_hashes job)"
    have hs: "2 * length (dj_piece_hashes job) + 8 < 2 ^ 32" using assms(1) by (simp add: meta_ok_def)
    then have "unat (of_nat (length (dj_piece_hashes job)) :: u32) = length (dj_piece_hashes job)"
      by (simp add: unat_of_nat)
    then have "?n \<le> length (dj_piece_hashes job)"
      by (auto simp: scan_count_def min_def word_le_nat_alt)
    moreover have "pool_size (je_cores E) ?n \<le> ?n + 1" by (simp add: pool_size_def)
    ultimately have p: "?n + pool_size (je_cores E) ?n < 2 ^ 32" "2 * ?n + 1 \<le> 2 * length (dj_piece_hashes job) + 1"
      "pool_size (je_cores E) ?n \<le> length (dj_piece_hashes job) + 1"
      using hs by simp_all
    have "\<forall>t < pool_size (je_cores E) ?n. 2 * ?n + 1 \<le> count_list (je_sched E) t"
      using assms(3) p(2,3) by (meson le_trans less_le_trans)
    with p(1) have j: "job_scan_joined E job st f0"
      unfolding job_scan_joined_def scan_pool_def Let_def by (rule pool_finishes)
    obtain s where s: "job_rounds E job 0 (dj_peers job) (round_zero (job_scan E job st f0) f0) s"
      using job_rounds_end [OF job_opened(1) [OF assms(1) o' j]] assms(2) by blast
    show ?thesis
      using finishes [OF o' j s] gives_up [OF o' j s] by (cases "complete (rd_store s)") blast+
  next
    case False
    then have "job_open E job f = (False, st, f0)" using fields by simp
    from no_file [OF this] show ?thesis by blast
  qed
qed

section \<open>The properties of downloads\<close>

lemma worker_steps_round:
  "(worker_step hashes t)\<^sup>*\<^sup>* s s' \<Longrightarrow> t < length (rd_workers s) \<Longrightarrow>
   (round_step hashes)\<^sup>*\<^sup>* s s' \<and> length (rd_workers s') = length (rd_workers s)"
proof (induction rule: rtranclp_induct)
  case (step y z)
  then have "round_step hashes y z" by (auto simp: round_step_def)
  then show ?case using step by (auto intro: rtranclp.rtrancl_into_rtrancl)
qed simp

text \<open>A store of one piece, empty, and the round that begins with one peer.\<close>

definition sample_round :: round where
  "sample_round = round_begin [\<lparr>pa_user_id = [1], pa_ip = [9], pa_port = 80\<rparr>]
    (round_zero \<lparr>ps_fd = True, ps_size = 2, ps_count = 1, ps_have = [0]\<rparr> [0, 0])"

lemma sample_rest: "rest_inv [hash_buffer [7, 8]] (round_zero \<lparr>ps_fd = True, ps_size = 2, ps_count = 1, ps_have = [0]\<rparr> [0, 0])"
  using sample_store by (simp add: rest_inv_def round_zero_def store_inv_def told_ok_def verified_def bit_of_iff piece_in_def)

lemma sample_begin:
  "rd_store sample_round = \<lparr>ps_fd = True, ps_size = 2, ps_count = 1, ps_have = [0]\<rparr>" "rd_disk sample_round = [0, 0]"
  "rd_queue sample_round = [0]" "rd_workers sample_round = replicate 8 W_Connect"
  using sample_store(3) by (simp_all add: sample_round_def round_begin_def round_zero_def conns_per_peer_def k_target_connections_def)

lemma sample_fetch:
  "\<exists>s'. (round_step [hash_buffer [7, 8]])\<^sup>*\<^sup>* sample_round s' \<and> rd_disk s' = [7, 8] \<and> rd_queue s' = [] \<and>
    ps_have (rd_store s') = mark 0 [0]"
proof -
  let ?h = "[hash_buffer [7, 8]]"
  let ?s1 = "set_worker 0 (W_Idle 0) sample_round"
  let ?s2 = "set_worker 0 (W_Fetch 0 0) (?s1\<lparr>rd_queue := []\<rparr>)"
  have a: "worker_step ?h 0 sample_round ?s1" by (rule connects) (simp add: sample_begin)
  have b: "worker_step ?h 0 ?s1 ?s2"
    using takes [of ?s1 0 0 ?h] by (simp add: sample_begin)
  note 1 = converse_rtranclp_into_rtranclp [of "worker_step ?h 0", OF a r_into_rtranclp [of "worker_step ?h 0", OF b]]
  let ?st = "\<lparr>ps_fd = True, ps_size = 2, ps_count = 1, ps_have = mark 0 [0]\<rparr> :: piece_store"
  have w: "write_piece (of_nat 0) [7, 8] (?h ! 0) [] (rd_store ?s2) (rd_disk ?s2) = (True, ?st, [7, 8])"
    by (simp add: sample_begin write_piece_def sample_store pwrite_all.simps piece_off_def disk_write_def)
  have "(worker_step ?h 0)\<^sup>*\<^sup>* ?s2 (set_worker 0 W_Tell (?s2\<lparr>rd_store := ?st, rd_disk := [7, 8]\<rparr>))"
    using write_piece_steps [OF _ _ _ w, of 0 0] by (intro writing_worker) (simp add: sample_begin)
  with 1 have "(worker_step ?h 0)\<^sup>*\<^sup>* sample_round (set_worker 0 W_Tell (?s2\<lparr>rd_store := ?st, rd_disk := [7, 8]\<rparr>))" by simp
  from worker_steps_round [OF this] show ?thesis by (auto simp: sample_begin)
qed

text \<open>C8. However the threads of a round interleave and whatever the peers and the disk answer, no piece is lost or
  corrupted: every marked piece is on disk with its hash, every missing piece is on the queue or with exactly one thread, the
  tracker has only been told of pieces that are there, and when all threads have ended the queue holds what is missing.\<close>

theorem round_loses_no_piece:
  assumes "rest_inv hashes s" and "(round_step hashes)\<^sup>*\<^sup>* (round_begin peers s) s'"
  shows "store_inv hashes (rd_store s') (rd_disk s') \<and>
    accounted (rd_queue s') (missing (rd_store s')) (held s') \<and> told_ok s' \<and>
    missing (rd_store s') \<subseteq> missing (rd_store s) \<and>
    (round_over s' \<longrightarrow> set (rd_queue s') = missing (rd_store s'))"
proof -
  note 1 = steps_inv [OF assms(2) round_begin_inv [OF assms(1)]]
  then have "missing (rd_store s') \<subseteq> missing (rd_store s)" by (simp add: grows_def round_begin_def)
  then show ?thesis using 1 round_invD [of hashes s'] round_over_queue by blast
qed

theorem round_loses_no_piece_witness:
  "\<exists>s'. (round_step [hash_buffer [7, 8]])\<^sup>*\<^sup>* sample_round s' \<and> rd_disk s' = [7, 8] \<and>
    store_inv [hash_buffer [7, 8]] (rd_store s') (rd_disk s') \<and>
    accounted (rd_queue s') (missing (rd_store s')) (held s') \<and> told_ok s'"
proof -
  obtain s' where s': "(round_step [hash_buffer [7, 8]])\<^sup>*\<^sup>* sample_round s'" "rd_disk s' = [7, 8]"
    using sample_fetch by blast
  from round_loses_no_piece [OF sample_rest s'(1) [unfolded sample_round_def]] show ?thesis using s' by blast
qed

text \<open>C9. A round comes to an end: no schedule of its threads goes on for ever (the bound is in the pieces that are missing and
  the threads), and from every state that can be reached there is a way to the end.\<close>

theorem round_terminates:
  assumes "rest_inv hashes s" and "(round_step hashes ^^ n) (round_begin peers s) s'"
  shows "n \<le> round_left (round_begin peers s) \<and> (\<exists>s''. (round_step hashes)\<^sup>*\<^sup>* s' s'' \<and> round_over s'')"
proof -
  note b = round_begin_inv [OF assms(1), of peers]
  have "n + round_left s' \<le> round_left (round_begin peers s)" by (rule round_steps_bound [OF assms(2) b])
  moreover have "round_inv hashes s'" using steps_inv [OF relpowp_imp_rtranclp [OF assms(2)] b] ..
  ultimately show ?thesis using round_finishes by auto
qed

theorem round_terminates_witness:
  "0 \<le> round_left sample_round \<and> (\<exists>s''. (round_step [hash_buffer [7, 8]])\<^sup>*\<^sup>* sample_round s'' \<and> round_over s'')"
  using round_terminates [OF sample_rest, of 0 "[\<lparr>pa_user_id = [1], pa_ip = [9], pa_port = 80\<rparr>]" sample_round]
  by (simp add: sample_round_def)

text \<open>C32. What a thread does with a piece that it has asked for, when no other thread comes in between, is exactly \<open>write_piece\<close>:
  the states in which it is rid of the piece are those with the store, the file and the result of \<open>write_piece\<close> on some data, for
  some answers of the kernel to its calls of \<open>pwrite\<close>; on failure the piece is back on the queue. (A fetch that fails counts as data
  of the wrong length.) No step writes or marks what \<open>write_piece\<close> would not. (Piece indices have 32 bits.)\<close>

theorem write_piece_refined:
  assumes "rd_workers s ! t = W_Fetch n i" and "t < length (rd_workers s)" and "i < 2 ^ 32"
  shows "(writing_step hashes t)\<^sup>*\<^sup>* s s' \<and> holds (rd_workers s' ! t) = None \<longleftrightarrow>
    (\<exists>d es ok st' f'. write_piece (of_nat i) d (hashes ! i) es (rd_store s) (rd_disk s) = (ok, st', f') \<and>
       s' = (if ok then set_worker t W_Tell (s\<lparr>rd_store := st', rd_disk := f'\<rparr>) else give_back t n i (s\<lparr>rd_store := st', rd_disk := f'\<rparr>)))"
proof
  assume "(writing_step hashes t)\<^sup>*\<^sup>* s s' \<and> holds (rd_workers s' ! t) = None"
  then show "\<exists>d es ok st' f'. write_piece (of_nat i) d (hashes ! i) es (rd_store s) (rd_disk s) = (ok, st', f') \<and>
      s' = (if ok then set_worker t W_Tell (s\<lparr>rd_store := st', rd_disk := f'\<rparr>) else give_back t n i (s\<lparr>rd_store := st', rd_disk := f'\<rparr>))"
    using fetched_run [OF _ _ assms] by blast
next
  assume "\<exists>d es ok st' f'. write_piece (of_nat i) d (hashes ! i) es (rd_store s) (rd_disk s) = (ok, st', f') \<and>
      s' = (if ok then set_worker t W_Tell (s\<lparr>rd_store := st', rd_disk := f'\<rparr>) else give_back t n i (s\<lparr>rd_store := st', rd_disk := f'\<rparr>))"
  then show "(writing_step hashes t)\<^sup>*\<^sup>* s s' \<and> holds (rd_workers s' ! t) = None"
    using write_piece_steps [OF assms] assms(2) give_back_holds by (fastforce split: if_splits)
qed

theorem write_piece_refined_witness:
  "(writing_step [hash_buffer [7, 8]] 0)\<^sup>*\<^sup>* (set_worker 0 (W_Fetch 2 0) (sample_round\<lparr>rd_queue := []\<rparr>))
    (set_worker 0 W_Tell (set_worker 0 (W_Fetch 2 0) (sample_round\<lparr>rd_queue := []\<rparr>)
        \<lparr>rd_store := \<lparr>ps_fd = True, ps_size = 2, ps_count = 1, ps_have = mark 0 [0]\<rparr>, rd_disk := [7, 8]\<rparr>))"
proof -
  let ?s = "set_worker 0 (W_Fetch 2 0) (sample_round\<lparr>rd_queue := []\<rparr>)" and ?h = "[hash_buffer [7, 8]]"
  let ?st = "\<lparr>ps_fd = True, ps_size = 2, ps_count = 1, ps_have = mark 0 [0]\<rparr> :: piece_store"
  have w: "write_piece (of_nat 0) [7, 8] (?h ! 0) [IoUpTo 1] (rd_store ?s) (rd_disk ?s) = (True, ?st, [7, 8])"
    by (simp add: sample_begin write_piece_def sample_store pwrite_all.simps piece_off_def disk_write_def)
  have t: "rd_workers ?s ! 0 = W_Fetch 2 0" "0 < length (rd_workers ?s)" by (simp_all add: sample_begin)
  have i: "(0 :: nat) < 2 ^ 32" by simp
  let ?s' = "set_worker 0 W_Tell (?s\<lparr>rd_store := ?st, rd_disk := [7, 8]\<rparr>)"
  have "\<exists>d es ok st' f'. write_piece (of_nat 0) d (?h ! 0) es (rd_store ?s) (rd_disk ?s) = (ok, st', f') \<and>
      ?s' = (if ok then set_worker 0 W_Tell (?s\<lparr>rd_store := st', rd_disk := f'\<rparr>)
        else give_back 0 2 0 (?s\<lparr>rd_store := st', rd_disk := f'\<rparr>))"
    by (rule exI [of _ "[7, 8]"], rule exI [of _ "[IoUpTo 1]"], rule exI [of _ True], rule exI [of _ ?st],
        rule exI [of _ "[7, 8]"]) (simp only: w if_True simp_thms)
  from iffD2 [OF write_piece_refined [OF t i] this] show ?thesis by (rule conjunct1)
qed

text \<open>A job for that piece in a fresh file, which is one hole, with nobody to ask after the first round.\<close>

definition sample_job :: download_job where
  "sample_job = \<lparr>dj_group = [2], dj_file = [3], dj_dest_path = [4], dj_size = 2,
     dj_file_hash = hash_buffer (hash_buffer [7, 8]), dj_piece_hashes = [hash_buffer [7, 8]],
     dj_peers = [\<lparr>pa_user_id = [1], pa_ip = [9], pa_port = 80\<rparr>], dj_user_id = [5], dj_store = 0,
     dj_done = False, dj_failed = False\<rparr>"

definition sample_env :: job_env where
  "sample_env = \<lparr>je_opened = True, je_resized = True, je_seek = (\<lambda>_. None), je_ios = (\<lambda>_. []), je_cores = 1,
     je_sched = [0, 0, 0, 1, 1, 1], je_resp = (\<lambda>_. None)\<rparr>"

lemma sample_meta: "meta_ok sample_job"
  by (simp add: meta_ok_def sample_job_def)

lemma sample_opened:
  "job_open sample_env sample_job [] = (True, \<lparr>ps_fd = True, ps_size = 2, ps_count = 1, ps_have = [0]\<rparr>, [0, 0])"
proof -
  have "unat (bitmap_bytes 1) = 1" by (simp add: unat_bitmap_bytes)
  moreover have "replicate 2 (0 :: u8) = [0, 0]" by (simp add: numeral_2_eq_2)
  ultimately show ?thesis
    by (simp add: job_open_def sample_env_def sample_job_def open_for_download_def ftruncate_def)
qed

lemma sample_scanned:
  "job_scan_joined sample_env sample_job \<lparr>ps_fd = True, ps_size = 2, ps_count = 1, ps_have = [0]\<rparr> [0, 0]" (is ?j)
  "job_scan sample_env sample_job \<lparr>ps_fd = True, ps_size = 2, ps_count = 1, ps_have = [0]\<rparr> [0, 0] =
    \<lparr>ps_fd = True, ps_size = 2, ps_count = 1, ps_have = [0]\<rparr>"
proof -
  let ?st = "\<lparr>ps_fd = True, ps_size = 2, ps_count = 1, ps_have = [0]\<rparr>" and ?h = "[hash_buffer [7, 8]]"
  have n: "scan_count ?st ?h = 1" by (simp add: scan_count_def)
  show j: ?j
    unfolding job_scan_joined_def scan_pool_def sample_job_def Let_def download_job.simps n
    by (rule pool_finishes) (simp_all add: sample_env_def pool_size_def)
  have "wp_slots (scan_pool ?h (\<lambda>_. None) (\<lambda>_. []) 1 [0, 0, 0, 1, 1, 1] ?st [0, 0]) = [False]"
    using scan_slots [of ?st ?h 1 "\<lambda>_. None" "\<lambda>_. []" "[0, 0, 0, 1, 1, 1]" "[0, 0]"] j
    by (simp add: n pool_size_def job_scan_joined_def sample_env_def sample_job_def scan_piece_def Let_def)
  then show "job_scan sample_env sample_job ?st [0, 0] = ?st"
    by (simp add: job_scan_def sample_env_def sample_job_def resume_scan_def mark_valid_def)
qed

lemma sample_run:
  "\<exists>st f'. run_job sample_env sample_job [] new_seeder
    (sample_job\<lparr>dj_done := True\<rparr>, add_share (ShareKey [2] [3]) 0 new_seeder, st, f')"
proof -
  let ?st = "\<lparr>ps_fd = True, ps_size = 2, ps_count = 1, ps_have = [0]\<rparr>" and ?h = "[hash_buffer [7, 8]]"
  obtain s where s: "(round_step ?h)\<^sup>*\<^sup>* sample_round s" "ps_have (rd_store s) = mark 0 [0]"
    using sample_fetch by blast
  have b: "round_inv ?h sample_round" unfolding sample_round_def by (rule round_begin_inv [OF sample_rest])
  note 1 = steps_inv [OF s(1) b]
  obtain s1 where s1: "(round_step ?h)\<^sup>*\<^sup>* s s1" "round_over s1" using round_finishes 1 by blast
  have c: "ps_count (rd_store s) = 1" using 1 by (simp add: grows_def sample_begin)
  have "missing (rd_store s) = {}" using c s(2) bit_of_mark [of 0 "[0]" 0] by (auto simp: missing_def intro: gr0I)
  then have "missing (rd_store s1) = {}" using steps_inv [OF s1(1)] 1 by (simp add: grows_def)
  then have whole: "complete (rd_store (round_flush 0 s1))"
    by (auto simp: complete_iff missing_def round_flush_def)
  have open0: "\<not> complete ?st" by (auto simp: complete_iff bit_of_iff)
  have "job_rounds sample_env sample_job 0 (dj_peers sample_job) (round_zero ?st [0, 0]) (round_flush 0 s1)"
  proof (rule rounds_work [OF _ _ refl])
    show "(round_step (dj_piece_hashes sample_job))\<^sup>*\<^sup>*
        (round_begin (if 0 = (0::nat) then dj_peers sample_job else fresh_peers sample_env sample_job 0) (round_zero ?st [0, 0])) s1"
      using s(1) s1(1) by (simp add: sample_job_def sample_round_def)
    show "job_rounds sample_env sample_job (0 + 1)
        (if 0 = (0::nat) then dj_peers sample_job else fresh_peers sample_env sample_job 0) (round_flush 0 s1) (round_flush 0 s1)"
      using whole by (intro rounds_stop) simp
  qed (use open0 s1(2) in \<open>simp_all add: k_max_rounds_def round_zero_def sample_job_def\<close>)
  then have "job_rounds sample_env sample_job 0 (dj_peers sample_job)
      (round_zero (job_scan sample_env sample_job ?st [0, 0]) [0, 0]) (round_flush 0 s1)"
    by (simp only: sample_scanned)
  from finishes [OF sample_opened sample_scanned(1) this whole, of new_seeder] show ?thesis
    by (auto simp: job_key_def sample_job_def)
qed

lemma download_done:
  assumes "run_job E job f sd (job', sd', st, f')" and "meta_ok job" and "dj_done job'" and "\<not> dj_done job"
    and "dj_piece_hashes job = map hash_buffer (file_pieces (unat PIECE_SIZE) g)" and "unat (dj_size job) = length g"
  shows "length f' = length g \<and> piece_blob (unat PIECE_SIZE) f' = piece_blob (unat PIECE_SIZE) g \<and>
    (f' = g \<or> (\<exists>i < length (file_pieces (unat PIECE_SIZE) g).
       file_pieces (unat PIECE_SIZE) f' ! i \<noteq> file_pieces (unat PIECE_SIZE) g ! i \<and>
       rfc_sha1 (file_pieces (unat PIECE_SIZE) f' ! i) = rfc_sha1 (file_pieces (unat PIECE_SIZE) g ! i))) \<and>
    find_share (job_key job) sd' = Some (dj_store job)"
proof -
  note d = run_job_done [OF assms(1-4)]
  have "0 < unat PIECE_SIZE" by simp
  note s = same_piece_hashes [OF _ this, of f' g]
  show ?thesis using d s assms(5,6) by presburger
qed

text \<open>C5. A download that reports success has put the published file on disk: the file has the published size and the published
  hashes, so it is the published file, byte for byte, unless two different pieces of the same index have the same SHA-1; and the
  client shares it from then on.\<close>

theorem download_is_published:
  assumes "run_job E job f sd (job', sd', st, f')" and "meta_ok job" and "dj_done job'" and "\<not> dj_done job"
    and "dj_piece_hashes job = map hash_buffer (file_pieces (unat PIECE_SIZE) g)" and "unat (dj_size job) = length g"
  shows "length f' = length g \<and> piece_blob (unat PIECE_SIZE) f' = piece_blob (unat PIECE_SIZE) g \<and>
    (f' = g \<or> (\<exists>i < length (file_pieces (unat PIECE_SIZE) g).
       file_pieces (unat PIECE_SIZE) f' ! i \<noteq> file_pieces (unat PIECE_SIZE) g ! i \<and>
       rfc_sha1 (file_pieces (unat PIECE_SIZE) f' ! i) = rfc_sha1 (file_pieces (unat PIECE_SIZE) g ! i))) \<and>
    find_share (job_key job) sd' = Some (dj_store job)"
  using assms by (rule download_done)

theorem download_is_published_witness:
  "\<exists>st f'. run_job sample_env sample_job [] new_seeder
      (sample_job\<lparr>dj_done := True\<rparr>, add_share (ShareKey [2] [3]) 0 new_seeder, st, f') \<and>
    length f' = length [7, 8 :: u8] \<and> piece_blob (unat PIECE_SIZE) f' = piece_blob (unat PIECE_SIZE) [7, 8]"
proof -
  obtain st f' where r: "run_job sample_env sample_job [] new_seeder
      (sample_job\<lparr>dj_done := True\<rparr>, add_share (ShareKey [2] [3]) 0 new_seeder, st, f')"
    using sample_run by blast
  have "length f' = length [7, 8 :: u8] \<and> piece_blob (unat PIECE_SIZE) f' = piece_blob (unat PIECE_SIZE) [7, 8]"
    using download_is_published [OF r sample_meta, of "[7, 8]"] by (simp add: sample_job_def file_pieces_def)
  then show ?thesis using r by blast
qed

text \<open>C34. A download that fails shares nothing. If its file could not be opened or resized, the file is as it was and the
  store is closed. Otherwise what it leaves on disk is progress: the pieces it has marked are there with their hashes, and some
  piece is missing. (The job is new, and its metadata fit together: as many hashes as a file of its size has pieces, and not too
  many for 32 bits.)\<close>

theorem failed_job_keeps_progress:
  assumes "run_job E job f sd (job', sd', st, f')" and "meta_ok job" and "dj_failed job'" and "\<not> dj_failed job"
  shows "sd' = sd \<and>
    (if fst (job_open E job f) then missing st \<noteq> {} \<and> store_inv (dj_piece_hashes job) st f' else f' = f \<and> \<not> ps_fd st)"
  using assms by (rule run_job_failed)

lemma connects_all_fail:
  "rd_workers s = replicate k W_Done @ replicate m W_Connect \<Longrightarrow>
   (round_step hashes)\<^sup>*\<^sup>* s (s\<lparr>rd_workers := replicate (k + m) W_Done\<rparr>)"
proof (induction m arbitrary: k s)
  case (Suc m)
  have k: "rd_workers s ! k = W_Connect" "k < length (rd_workers s)" using Suc.prems by (simp_all add: nth_append)
  let ?s = "set_worker k W_Done s"
  have "round_step hashes s ?s" using connect_fails [OF k(1)] k(2) by (auto simp: round_step_def)
  moreover have "rd_workers ?s = replicate (Suc k) W_Done @ replicate m W_Connect"
    using Suc.prems by (simp add: list_update_append replicate_append_same)
  from Suc.IH [OF this]
  have "(round_step hashes)\<^sup>*\<^sup>* ?s (s\<lparr>rd_workers := replicate (k + Suc m) W_Done\<rparr>)" by (simp add: set_worker_def)
  ultimately show ?case by (rule converse_rtranclp_into_rtranclp)
next
  case 0
  then have "s\<lparr>rd_workers := replicate k W_Done\<rparr> = s" by simp
  then show ?case by simp
qed

text \<open>The one peer cannot be reached, and later nobody has the file.\<close>

lemma sample_failed:
  "run_job sample_env sample_job [] new_seeder (sample_job\<lparr>dj_failed := True\<rparr>, new_seeder,
    \<lparr>ps_fd = True, ps_size = 2, ps_count = 1, ps_have = [0]\<rparr>, [0, 0])"
proof -
  let ?st = "\<lparr>ps_fd = True, ps_size = 2, ps_count = 1, ps_have = [0]\<rparr>"
  let ?s1 = "sample_round\<lparr>rd_workers := replicate 8 W_Done\<rparr>" and ?s2 = "round_flush 0 (sample_round\<lparr>rd_workers := replicate 8 W_Done\<rparr>)"
  have none: "fresh_peers sample_env sample_job r = []" for r by (simp add: fresh_peers_def sample_env_def)
  have st: "rd_store ?s2 = ?st" "rd_disk ?s2 = [0, 0]" by (simp_all add: round_flush_def sample_begin)
  have open0: "\<not> complete ?st" by (auto simp: complete_iff bit_of_iff)
  have open2: "\<not> complete (rd_store ?s2)" unfolding st by (rule open0)
  have skip: "r < 5 \<Longrightarrow> 0 < r \<Longrightarrow> job_rounds sample_env sample_job (r + 1) [] ?s2 ?s2 \<Longrightarrow>
      job_rounds sample_env sample_job r ps ?s2 ?s2" for r ps
    by (rule rounds_skip [OF _ open2 _ none]) (simp_all only: k_max_rounds_def)
  have "job_rounds sample_env sample_job 5 [] ?s2 ?s2" by (rule rounds_stop) (simp add: k_max_rounds_def)
  then have rest: "job_rounds sample_env sample_job (0 + 1) ps ?s2 ?s2" for ps
    using skip [of 1 ps] skip [of 2 "[]"] skip [of 3 "[]"] skip [of 4 "[]"] by (simp add: eval_nat_numeral)
  have steps: "(round_step [hash_buffer [7, 8]])\<^sup>*\<^sup>* sample_round ?s1"
    using connects_all_fail [of sample_round 0 8] by (simp add: sample_begin)
  have "job_rounds sample_env sample_job 0 (dj_peers sample_job) (round_zero ?st [0, 0]) ?s2"
    by (rule rounds_work [OF _ _ refl _ _ _ rest])
      (use open0 steps in \<open>simp_all add: k_max_rounds_def round_zero_def sample_job_def sample_round_def round_over_def\<close>)
  then have "job_rounds sample_env sample_job 0 (dj_peers sample_job)
      (round_zero (job_scan sample_env sample_job ?st [0, 0]) [0, 0]) ?s2"
    by (simp only: sample_scanned)
  from gives_up [OF sample_opened sample_scanned(1) this, of new_seeder] show ?thesis using open0 by (simp add: st)
qed

theorem failed_job_keeps_progress_witness:
  "missing \<lparr>ps_fd = True, ps_size = 2, ps_count = 1, ps_have = [0]\<rparr> \<noteq> {} \<and>
    store_inv (dj_piece_hashes sample_job) \<lparr>ps_fd = True, ps_size = 2, ps_count = 1, ps_have = [0]\<rparr> [0, 0]"
proof -
  have "dj_failed (sample_job\<lparr>dj_failed := True\<rparr>)" "\<not> dj_failed sample_job" by (simp_all add: sample_job_def)
  from failed_job_keeps_progress [OF sample_failed sample_meta this] show ?thesis by (simp add: sample_opened)
qed

end
