(* ===== verification/Tracker_State.thy ===== *)
theory Tracker_State
  imports Std_Containers Protocol Sha1
begin

text \<open>
  \<open>tracker/tracker_state.hpp\<close> and \<open>tracker/tracker_state.cpp\<close>: the metadata a tracker keeps and the
  operations on it, without \<open>snapshot\<close> and \<open>restore\<close> (theory \<open>Tracker_Snapshot\<close>).

  Every method takes the state's mutex for its whole body, so it is one function from the state to the status
  and the new state. A method with an out-parameter takes its old value and returns the new one.
\<close>

section \<open>Data\<close>

record peer_ref =
  pr_user_id :: bytes
  pr_ip :: bytes
  pr_port :: u16
  pr_bitfield :: bytes

record file_meta =
  fm_name :: bytes
  fm_size :: u64
  fm_hash :: bytes
  fm_piece_hashes :: "bytes list"
  fm_seeders :: "(bytes \<times> peer_ref) list"

record group =
  g_id :: bytes
  g_owner :: bytes
  g_members :: "bytes list"
  g_pending :: "bytes list"
  g_files :: "(bytes \<times> file_meta) list"

record user =
  u_id :: bytes
  u_password :: bytes
  u_online :: bool
  u_ip :: bytes
  u_port :: u16

record tracker_state =
  ts_users :: "(bytes \<times> user) list"
  ts_groups :: "(bytes \<times> group) list"

definition new_tracker :: tracker_state where
  "new_tracker = \<lparr>ts_users = [], ts_groups = []\<rparr>"

definition set_user :: "bytes \<Rightarrow> user \<Rightarrow> tracker_state \<Rightarrow> tracker_state" where
  "set_user uid u st = st\<lparr>ts_users := map_put uid u (ts_users st)\<rparr>"

definition set_group :: "bytes \<Rightarrow> group \<Rightarrow> tracker_state \<Rightarrow> tracker_state" where
  "set_group gid g st = st\<lparr>ts_groups := map_put gid g (ts_groups st)\<rparr>"

definition set_file :: "bytes \<Rightarrow> file_meta \<Rightarrow> group \<Rightarrow> group" where
  "set_file fname f g = g\<lparr>g_files := map_put fname f (g_files g)\<rparr>"

section \<open>Users\<close>

definition hash_password :: "bytes \<Rightarrow> bytes" where
  "hash_password pwd = hash_buffer pwd"

definition create_user :: "bytes \<Rightarrow> bytes \<Rightarrow> tracker_state \<Rightarrow> status \<times> tracker_state" where
  "create_user uid pwd st =
    (if uid = [] \<or> pwd = [] then (ST_MALFORMED, st)
     else if has_key (ts_users st) uid then (ST_ALREADY_EXISTS, st)
     else (ST_OK, set_user uid
       \<lparr>u_id = uid, u_password = hash_password pwd, u_online = False, u_ip = [], u_port = 0\<rparr> st))"

definition login :: "bytes \<Rightarrow> bytes \<Rightarrow> bytes \<Rightarrow> u16 \<Rightarrow> tracker_state \<Rightarrow> status \<times> tracker_state" where
  "login uid pwd ip port st =
    (case map_find (ts_users st) uid of
       None \<Rightarrow> (ST_NOT_FOUND, st)
     | Some u \<Rightarrow>
         if u_password u \<noteq> hash_password pwd then (ST_BAD_CREDENTIALS, st)
         else (ST_OK, set_user uid (u\<lparr>u_online := True, u_ip := ip, u_port := port\<rparr>) st))"

definition drop_seeder :: "bytes \<Rightarrow> file_meta \<Rightarrow> file_meta" where
  "drop_seeder uid f = f\<lparr>fm_seeders := map_erase uid (fm_seeders f)\<rparr>"

definition logout :: "bytes \<Rightarrow> tracker_state \<Rightarrow> status \<times> tracker_state" where
  "logout uid st =
    (case map_find (ts_users st) uid of
       None \<Rightarrow> (ST_NOT_FOUND, st)
     | Some u \<Rightarrow>
         (ST_OK, (set_user uid (u\<lparr>u_online := False\<rparr>) st)
            \<lparr>ts_groups := map_vals (\<lambda>g. g\<lparr>g_files := map_vals (drop_seeder uid) (g_files g)\<rparr>) (ts_groups st)\<rparr>))"

definition is_online :: "bytes \<Rightarrow> tracker_state \<Rightarrow> bool" where
  "is_online uid st = (case map_find (ts_users st) uid of None \<Rightarrow> False | Some u \<Rightarrow> u_online u)"

definition ts_empty :: "tracker_state \<Rightarrow> bool" where
  "ts_empty st = (ts_users st = [] \<and> ts_groups st = [])"

section \<open>Groups\<close>

definition list_groups :: "tracker_state \<Rightarrow> bytes list" where
  "list_groups st = map fst (ts_groups st)"

definition create_group :: "bytes \<Rightarrow> bytes \<Rightarrow> tracker_state \<Rightarrow> status \<times> tracker_state" where
  "create_group gid owner st =
    (if gid = [] \<or> owner = [] then (ST_MALFORMED, st)
     else if \<not> has_key (ts_users st) owner then (ST_NOT_FOUND, st)
     else if has_key (ts_groups st) gid then (ST_ALREADY_EXISTS, st)
     else (ST_OK, set_group gid
       \<lparr>g_id = gid, g_owner = owner, g_members = set_put owner [], g_pending = [], g_files = []\<rparr> st))"

definition join_group :: "bytes \<Rightarrow> bytes \<Rightarrow> tracker_state \<Rightarrow> status \<times> tracker_state" where
  "join_group gid uid st =
    (if gid = [] \<or> uid = [] then (ST_MALFORMED, st)
     else case map_find (ts_groups st) gid of
       None \<Rightarrow> (ST_NOT_FOUND, st)
     | Some g \<Rightarrow>
         if \<not> has_key (ts_users st) uid then (ST_NOT_FOUND, st)
         else if set_count (g_members g) uid \<or> set_count (g_pending g) uid then (ST_ALREADY_EXISTS, st)
         else (ST_OK, set_group gid (g\<lparr>g_pending := set_put uid (g_pending g)\<rparr>) st))"

definition leave_group :: "bytes \<Rightarrow> bytes \<Rightarrow> tracker_state \<Rightarrow> status \<times> tracker_state" where
  "leave_group gid uid st =
    (if gid = [] \<or> uid = [] then (ST_MALFORMED, st)
     else case map_find (ts_groups st) gid of
       None \<Rightarrow> (ST_NOT_FOUND, st)
     | Some g \<Rightarrow>
         if \<not> set_count (g_members g) uid then (ST_NOT_MEMBER, st)
         else (let ms = set_erase uid (g_members g); g' = g\<lparr>g_members := ms\<rparr> in
           if uid = g_owner g then
             if ms = [] then (ST_OK, st\<lparr>ts_groups := map_erase gid (ts_groups st)\<rparr>)
             else (ST_OK, set_group gid (g'\<lparr>g_owner := hd ms\<rparr>) st)
           else (ST_OK, set_group gid g' st)))"

definition accept_request :: "bytes \<Rightarrow> bytes \<Rightarrow> bytes \<Rightarrow> tracker_state \<Rightarrow> status \<times> tracker_state" where
  "accept_request gid owner uid st =
    (if gid = [] \<or> owner = [] \<or> uid = [] then (ST_MALFORMED, st)
     else case map_find (ts_groups st) gid of
       None \<Rightarrow> (ST_NOT_FOUND, st)
     | Some g \<Rightarrow>
         if g_owner g \<noteq> owner then (ST_NOT_OWNER, st)
         else if \<not> set_count (g_pending g) uid then (ST_NOT_FOUND, st)
         else (ST_OK, set_group gid
           (g\<lparr>g_pending := set_erase uid (g_pending g), g_members := set_put uid (g_members g)\<rparr>) st))"

definition list_requests :: "bytes \<Rightarrow> bytes \<Rightarrow> bytes list \<Rightarrow> tracker_state \<Rightarrow> status \<times> bytes list" where
  "list_requests gid owner out st =
    (if gid = [] \<or> owner = [] then (ST_MALFORMED, out)
     else case map_find (ts_groups st) gid of
       None \<Rightarrow> (ST_NOT_FOUND, out)
     | Some g \<Rightarrow> if g_owner g \<noteq> owner then (ST_NOT_OWNER, out) else (ST_OK, g_pending g))"

section \<open>Files\<close>

definition full_bitfield :: "'a list \<Rightarrow> bytes" where
  "full_bitfield hs = replicate ((length hs + 7) div 8) 0xFF"

definition add_file :: "bytes \<Rightarrow> bytes \<Rightarrow> bytes \<Rightarrow> u16 \<Rightarrow> file_meta \<Rightarrow> tracker_state \<Rightarrow> status \<times> tracker_state" where
  "add_file gid uid ip port meta st =
    (if gid = [] \<or> uid = [] \<or> fm_name meta = [] then (ST_MALFORMED, st)
     else case map_find (ts_groups st) gid of
       None \<Rightarrow> (ST_NOT_FOUND, st)
     | Some g \<Rightarrow>
         if \<not> set_count (g_members g) uid then (ST_NOT_MEMBER, st)
         else (let pr = \<lparr>pr_user_id = uid, pr_ip = ip, pr_port = port,
                         pr_bitfield = full_bitfield (fm_piece_hashes meta)\<rparr> in
           case map_find (g_files g) (fm_name meta) of
             Some f \<Rightarrow>
               if fm_hash f \<noteq> fm_hash meta then (ST_ALREADY_EXISTS, st)
               else (ST_OK, set_group gid
                 (set_file (fm_name meta) (f\<lparr>fm_seeders := map_put uid pr (fm_seeders f)\<rparr>) g) st)
           | None \<Rightarrow>
               (ST_OK, set_group gid
                 (set_file (fm_name meta) (meta\<lparr>fm_seeders := map_put uid pr []\<rparr>) g) st)))"

definition list_files :: "bytes \<Rightarrow> bytes \<Rightarrow> bytes list \<Rightarrow> tracker_state \<Rightarrow> status \<times> bytes list" where
  "list_files gid uid out st =
    (if gid = [] \<or> uid = [] then (ST_MALFORMED, out)
     else case map_find (ts_groups st) gid of
       None \<Rightarrow> (ST_NOT_FOUND, out)
     | Some g \<Rightarrow>
         if \<not> set_count (g_members g) uid then (ST_NOT_MEMBER, out) else (ST_OK, map fst (g_files g)))"

definition get_file :: "bytes \<Rightarrow> bytes \<Rightarrow> bytes \<Rightarrow> file_meta \<Rightarrow> tracker_state \<Rightarrow> status \<times> file_meta" where
  "get_file gid uid fname out st =
    (if gid = [] \<or> uid = [] \<or> fname = [] then (ST_MALFORMED, out)
     else case map_find (ts_groups st) gid of
       None \<Rightarrow> (ST_NOT_FOUND, out)
     | Some g \<Rightarrow>
         if \<not> set_count (g_members g) uid then (ST_NOT_MEMBER, out)
         else (case map_find (g_files g) fname of None \<Rightarrow> (ST_NOT_FOUND, out) | Some f \<Rightarrow> (ST_OK, f)))"

definition stop_share :: "bytes \<Rightarrow> bytes \<Rightarrow> bytes \<Rightarrow> tracker_state \<Rightarrow> status \<times> tracker_state" where
  "stop_share gid uid fname st =
    (if gid = [] \<or> uid = [] \<or> fname = [] then (ST_MALFORMED, st)
     else case map_find (ts_groups st) gid of
       None \<Rightarrow> (ST_NOT_FOUND, st)
     | Some g \<Rightarrow>
         (case map_find (g_files g) fname of
            None \<Rightarrow> (ST_NOT_FOUND, st)
          | Some f \<Rightarrow>
              if \<not> has_key (fm_seeders f) uid then (ST_NOT_FOUND, st)
              else (ST_OK, set_group gid (set_file fname (drop_seeder uid f) g) st)))"

definition update_bitfield ::
    "bytes \<Rightarrow> bytes \<Rightarrow> bytes \<Rightarrow> u16 \<Rightarrow> bytes \<Rightarrow> bytes \<Rightarrow> tracker_state \<Rightarrow> status \<times> tracker_state" where
  "update_bitfield gid uid ip port fname bits st =
    (if gid = [] \<or> uid = [] \<or> fname = [] then (ST_MALFORMED, st)
     else case map_find (ts_groups st) gid of
       None \<Rightarrow> (ST_NOT_FOUND, st)
     | Some g \<Rightarrow>
         if \<not> set_count (g_members g) uid then (ST_NOT_MEMBER, st)
         else (case map_find (g_files g) fname of
            None \<Rightarrow> (ST_NOT_FOUND, st)
          | Some f \<Rightarrow>
              (ST_OK, set_group gid (set_file fname
                 (f\<lparr>fm_seeders := map_put uid
                     \<lparr>pr_user_id = uid, pr_ip = ip, pr_port = port, pr_bitfield = bits\<rparr> (fm_seeders f)\<rparr>) g) st)))"

lemmas [op_defs] = create_user_def login_def logout_def create_group_def join_group_def leave_group_def
  accept_request_def add_file_def stop_share_def update_bitfield_def set_user_def set_group_def set_file_def

section \<open>The invariant\<close>

definition users_ok :: "(bytes \<times> user) list \<Rightarrow> bool" where
  "users_ok us \<longleftrightarrow> map_ok us \<and> (\<forall>uid u. map_find us uid = Some u \<longrightarrow> uid \<noteq> [] \<and> u_id u = uid)"

definition file_ok :: "(bytes \<Rightarrow> bool) \<Rightarrow> bytes \<Rightarrow> file_meta \<Rightarrow> bool" where
  "file_ok is_user fname f \<longleftrightarrow> fname \<noteq> [] \<and> fm_name f = fname \<and> map_ok (fm_seeders f) \<and>
     (\<forall>uid p. map_find (fm_seeders f) uid = Some p \<longrightarrow> pr_user_id p = uid \<and> is_user uid)"

definition group_ok :: "(bytes \<Rightarrow> bool) \<Rightarrow> bytes \<Rightarrow> group \<Rightarrow> bool" where
  "group_ok is_user gid g \<longleftrightarrow> gid \<noteq> [] \<and> g_id g = gid \<and>
     set_ok (g_members g) \<and> set_ok (g_pending g) \<and>
     g_owner g \<in> set (g_members g) \<and> set (g_members g) \<inter> set (g_pending g) = {} \<and>
     (\<forall>uid \<in> set (g_members g) \<union> set (g_pending g). is_user uid) \<and>
     map_ok (g_files g) \<and> (\<forall>fname f. map_find (g_files g) fname = Some f \<longrightarrow> file_ok is_user fname f)"

definition state_ok :: "tracker_state \<Rightarrow> bool" where
  "state_ok st \<longleftrightarrow> users_ok (ts_users st) \<and> map_ok (ts_groups st) \<and>
     (\<forall>gid g. map_find (ts_groups st) gid = Some g \<longrightarrow> group_ok (has_key (ts_users st)) gid g)"

lemma state_ok_new: "state_ok new_tracker"
  by (simp add: state_ok_def users_ok_def new_tracker_def)

lemma state_okD:
  "state_ok st \<Longrightarrow> users_ok (ts_users st)"
  "state_ok st \<Longrightarrow> map_ok (ts_users st)"
  "state_ok st \<Longrightarrow> map_ok (ts_groups st)"
  "state_ok st \<Longrightarrow> map_find (ts_groups st) gid = Some g \<Longrightarrow> group_ok (has_key (ts_users st)) gid g"
  "state_ok st \<Longrightarrow> map_find (ts_users st) uid = Some u \<Longrightarrow> uid \<noteq> [] \<and> u_id u = uid"
  by (auto simp: state_ok_def users_ok_def)

lemma group_okD:
  assumes "group_ok U gid g"
  shows "set_ok (g_members g)" and "set_ok (g_pending g)" and "map_ok (g_files g)"
    and "g_owner g \<in> set (g_members g)" and "set (g_members g) \<inter> set (g_pending g) = {}"
    and "map_find (g_files g) fname = Some f \<Longrightarrow> file_ok U fname f"
    and "uid \<in> set (g_members g) \<Longrightarrow> U uid"
  using assms by (auto simp: group_ok_def)

text \<open>Users only come; a state that is sound for fewer users is sound for more.\<close>

lemma file_ok_mono: "file_ok U fname f \<Longrightarrow> (\<And>u. U u \<Longrightarrow> V u) \<Longrightarrow> file_ok V fname f"
  by (auto simp: file_ok_def)

lemma group_ok_mono: "group_ok U gid g \<Longrightarrow> (\<And>u. U u \<Longrightarrow> V u) \<Longrightarrow> group_ok V gid g"
  unfolding group_ok_def by (blast intro: file_ok_mono)

lemma state_ok_set_user:
  assumes "state_ok st" and "uid \<noteq> []" and "u_id u = uid"
  shows "state_ok (set_user uid u st)"
proof -
  have "group_ok (has_key (ts_users (set_user uid u st))) gid g"
    if "map_find (ts_groups st) gid = Some g" for gid g
    using state_okD(4) [OF assms(1) that] by (rule group_ok_mono) (simp add: set_user_def)
  then show ?thesis
    using assms by (auto simp: state_ok_def users_ok_def set_user_def map_ok_put)
qed

lemma state_ok_set_group:
  "state_ok st \<Longrightarrow> group_ok (has_key (ts_users st)) gid g \<Longrightarrow> state_ok (set_group gid g st)"
  by (auto simp: state_ok_def set_group_def map_ok_put)

lemma group_ok_set_file:
  "group_ok U gid g \<Longrightarrow> file_ok U fname f \<Longrightarrow> group_ok U gid (set_file fname f g)"
  by (auto simp: group_ok_def set_file_def map_ok_put)

lemma file_ok_put_seeder:
  "file_ok U fname f \<Longrightarrow> U uid \<Longrightarrow> pr_user_id p = uid \<Longrightarrow>
    file_ok U fname (f\<lparr>fm_seeders := map_put uid p (fm_seeders f)\<rparr>)"
  by (auto simp: file_ok_def map_ok_put)

lemma file_ok_drop_seeder: "file_ok U fname f \<Longrightarrow> file_ok U fname (drop_seeder uid f)"
  by (auto simp: file_ok_def drop_seeder_def map_ok_erase map_find_erase)

text \<open>
  The contract that every mutating operation shares: it keeps the invariant, changes nothing when it reports
  an error, and forgets no user.
\<close>

locale tracker_op =
  fixes run :: "tracker_state \<Rightarrow> status \<times> tracker_state"
  assumes keeps: "state_ok st \<Longrightarrow> state_ok (snd (run st))"
    and error_frame: "fst (run st) \<noteq> ST_OK \<Longrightarrow> snd (run st) = st"
    and keeps_users: "has_key (ts_users st) u \<Longrightarrow> has_key (ts_users (snd (run st))) u"
begin

lemma keeps_eq: "state_ok st \<Longrightarrow> run st = (s, st') \<Longrightarrow> state_ok st'"
  using keeps [of st] by simp

lemma error_eq: "run st = (s, st') \<Longrightarrow> s \<noteq> ST_OK \<Longrightarrow> st' = st"
  using error_frame [of st] by simp

lemma ok_if_changed: "run st = (s, st') \<Longrightarrow> st' \<noteq> st \<Longrightarrow> s = ST_OK"
  using error_eq by blast

end

interpretation create_user: tracker_op "create_user uid pwd"
  by unfold_locales (auto simp: create_user_def state_ok_set_user, auto simp: set_user_def)

interpretation login: tracker_op "login uid pwd ip port"
proof
  show "state_ok (snd (login uid pwd ip port st))" if "state_ok st" for st
    using that by (auto simp: login_def intro!: state_ok_set_user dest!: state_okD(5) [OF that]
        split: option.splits)
qed (auto simp: login_def set_user_def split: option.splits if_splits)

interpretation create_group: tracker_op "create_group gid owner"
  by unfold_locales
    (auto simp: create_group_def group_ok_def set_ok_def intro!: state_ok_set_group, auto simp: set_group_def)

interpretation join_group: tracker_op "join_group gid uid"
proof
  show "state_ok (snd (join_group gid uid st))" if "state_ok st" for st
    using that by (auto simp: join_group_def group_ok_def set_ok_put
        intro!: state_ok_set_group dest!: state_okD(4) [OF that] split: option.splits)
qed (auto simp: join_group_def set_group_def split: option.splits if_splits)

interpretation accept_request: tracker_op "accept_request gid owner uid"
proof
  show "state_ok (snd (accept_request gid owner uid st))" if "state_ok st" for st
    using that by (auto simp: accept_request_def group_ok_def set_ok_put set_ok_erase
        intro!: state_ok_set_group dest!: state_okD(4) [OF that] split: option.splits)
qed (auto simp: accept_request_def set_group_def split: option.splits if_splits)

lemma state_ok_erase_group: "state_ok st \<Longrightarrow> state_ok (st\<lparr>ts_groups := map_erase gid (ts_groups st)\<rparr>)"
  by (auto simp: state_ok_def map_ok_erase map_find_erase)

interpretation leave_group: tracker_op "leave_group gid uid"
proof
  show "state_ok (snd (leave_group gid uid st))" if ok: "state_ok st" for st
  proof (cases "map_find (ts_groups st) gid")
    case None
    then show ?thesis using ok by (simp add: leave_group_def)
  next
    case (Some g)
    have g: "group_ok (has_key (ts_users st)) gid g" using ok Some by (rule state_okD(4))
    then have s: "set_ok (set_erase uid (g_members g))" "set_ok (g_members g)"
      by (simp_all add: group_ok_def set_ok_erase)
    have "hd (set_erase uid (g_members g)) \<in> set (g_members g) - {uid}"
      if "set_erase uid (g_members g) \<noteq> []"
      using hd_in_set [OF that] s(2) by simp
    then show ?thesis
      using ok Some g s
      by (auto simp: leave_group_def Let_def group_ok_def intro!: state_ok_set_group state_ok_erase_group)
  qed
qed (auto simp: leave_group_def set_group_def Let_def split: option.splits if_splits)

lemma group_ok_drop_seeder:
  "group_ok U gid g \<Longrightarrow> group_ok U gid (g\<lparr>g_files := map_vals (drop_seeder uid) (g_files g)\<rparr>)"
  by (simp add: group_ok_def) (auto simp: file_ok_drop_seeder)

lemma state_ok_map_groups:
  assumes "state_ok st" and "\<And>gid g. group_ok (has_key (ts_users st)) gid g \<Longrightarrow>
    group_ok (has_key (ts_users st)) gid (f g)"
  shows "state_ok (st\<lparr>ts_groups := map_vals f (ts_groups st)\<rparr>)"
  using assms by (auto simp: state_ok_def)

interpretation logout: tracker_op "logout uid"
proof
  show "state_ok (snd (logout uid st))" if ok: "state_ok st" for st
  proof (cases "map_find (ts_users st) uid")
    case None
    then show ?thesis using ok by (simp add: logout_def)
  next
    case (Some u)
    have u: "uid \<noteq> []" "u_id u = uid" using ok Some by (auto simp: state_ok_def users_ok_def)
    let ?st = "set_user uid (u\<lparr>u_online := False\<rparr>) st"
    have "state_ok ?st" using ok u by (intro state_ok_set_user) auto
    then have "state_ok (?st\<lparr>ts_groups := map_vals
        (\<lambda>g. g\<lparr>g_files := map_vals (drop_seeder uid) (g_files g)\<rparr>) (ts_groups ?st)\<rparr>)"
      by (rule state_ok_map_groups) (rule group_ok_drop_seeder)
    then show ?thesis using Some by (simp add: logout_def set_user_def)
  qed
qed (auto simp: logout_def set_user_def split: option.splits if_splits)

lemma file_ok_new:
  "fname \<noteq> [] \<Longrightarrow> fm_name f = fname \<Longrightarrow> U uid \<Longrightarrow> pr_user_id p = uid \<Longrightarrow>
    file_ok U fname (f\<lparr>fm_seeders := [(uid, p)]\<rparr>)"
  by (simp add: file_ok_def map_ok_def)

interpretation add_file: tracker_op "add_file gid uid ip port meta"
proof
  show "state_ok (snd (add_file gid uid ip port meta st))" if ok: "state_ok st" for st
    using ok by (auto simp: add_file_def Let_def
        intro!: state_ok_set_group group_ok_set_file file_ok_put_seeder file_ok_new
        intro: group_okD(6) group_okD(7) dest: state_okD(4) [OF ok] split: option.splits)
qed (auto simp: add_file_def Let_def set_group_def split: option.splits if_splits)

interpretation stop_share: tracker_op "stop_share gid uid fname"
proof
  show "state_ok (snd (stop_share gid uid fname st))" if ok: "state_ok st" for st
    using ok by (auto simp: stop_share_def
        intro!: state_ok_set_group group_ok_set_file file_ok_drop_seeder
        intro: group_okD(6) group_okD(7) dest: state_okD(4) [OF ok] split: option.splits)
qed (auto simp: stop_share_def set_group_def split: option.splits if_splits)

interpretation update_bitfield: tracker_op "update_bitfield gid uid ip port fname bits"
proof
  show "state_ok (snd (update_bitfield gid uid ip port fname bits st))" if ok: "state_ok st" for st
    using ok by (auto simp: update_bitfield_def
        intro!: state_ok_set_group group_ok_set_file file_ok_put_seeder
        intro: group_okD(6) group_okD(7) dest: state_okD(4) [OF ok] split: option.splits)
qed (auto simp: update_bitfield_def set_group_def split: option.splits if_splits)

end
