(* ===== verification/Tracker_Spec.thy ===== *)
theory Tracker_Spec
  imports Tracker_State
begin

text \<open>
  What the tracker's operations promise together: runs of commands from an empty tracker, the abstract view of
  group membership (users, and for each group its owner, members and applicants as sets) with the simulation
  that the code implements it, and the contract that replication relies on (an operation that is applied twice
  in a row changes nothing the second time).
\<close>

section \<open>Commands\<close>

datatype tracker_cmd =
    CreateUser bytes bytes
  | Login bytes bytes bytes u16
  | Logout bytes
  | CreateGroup bytes bytes
  | JoinGroup bytes bytes
  | LeaveGroup bytes bytes
  | AcceptRequest bytes bytes bytes
  | AddFile bytes bytes bytes u16 file_meta
  | StopShare bytes bytes bytes
  | UpdateBitfield bytes bytes bytes u16 bytes bytes

fun exec :: "tracker_cmd \<Rightarrow> tracker_state \<Rightarrow> status \<times> tracker_state" where
  "exec (CreateUser uid pwd) = create_user uid pwd"
| "exec (Login uid pwd ip port) = login uid pwd ip port"
| "exec (Logout uid) = logout uid"
| "exec (CreateGroup gid owner) = create_group gid owner"
| "exec (JoinGroup gid uid) = join_group gid uid"
| "exec (LeaveGroup gid uid) = leave_group gid uid"
| "exec (AcceptRequest gid owner uid) = accept_request gid owner uid"
| "exec (AddFile gid uid ip port meta) = add_file gid uid ip port meta"
| "exec (StopShare gid uid fname) = stop_share gid uid fname"
| "exec (UpdateBitfield gid uid ip port fname bits) = update_bitfield gid uid ip port fname bits"

definition step :: "tracker_cmd \<Rightarrow> tracker_state \<Rightarrow> tracker_state" where
  "step c st = snd (exec c st)"

interpretation exec: tracker_op "exec c"
  by (cases c)
    (simp_all add: create_user.tracker_op_axioms login.tracker_op_axioms logout.tracker_op_axioms
      create_group.tracker_op_axioms join_group.tracker_op_axioms leave_group.tracker_op_axioms
      accept_request.tracker_op_axioms add_file.tracker_op_axioms stop_share.tracker_op_axioms
      update_bitfield.tracker_op_axioms)

section \<open>Simulation\<close>

locale simulation =
  fixes ok :: "'s \<Rightarrow> bool"
    and view :: "'s \<Rightarrow> 'a"
    and cstep :: "'c \<Rightarrow> 's \<Rightarrow> 's"
    and astep :: "'c \<Rightarrow> 'a \<Rightarrow> 'a"
  assumes ok_step: "ok s \<Longrightarrow> ok (cstep c s)"
    and sim_step: "ok s \<Longrightarrow> view (cstep c s) = astep c (view s)"
begin

lemma ok_run: "ok s \<Longrightarrow> ok (fold cstep cs s)"
  by (induction cs arbitrary: s) (auto simp: ok_step)

lemma sim_run: "ok s \<Longrightarrow> view (fold cstep cs s) = fold astep cs (view s)"
  by (induction cs arbitrary: s) (auto simp: ok_step sim_step)

lemma abs_invariant:
  assumes "\<And>c a. I a \<Longrightarrow> I (astep c a)" and "ok s" and "I (view s)"
  shows "I (view (fold cstep cs s))"
proof -
  have "I a \<Longrightarrow> I (fold astep cs a)" for a
    by (induction cs arbitrary: a) (auto intro: assms(1))
  then show ?thesis using assms(2,3) by (simp add: sim_run)
qed

end

section \<open>Group membership, abstractly\<close>

type_synonym roster = "bytes \<times> bytes set \<times> bytes set"
type_synonym rosters = "bytes set \<times> (bytes \<Rightarrow> roster option)"

definition roster_of :: "group \<Rightarrow> roster" where
  "roster_of g = (g_owner g, set (g_members g), set (g_pending g))"

definition rosters_of :: "tracker_state \<Rightarrow> rosters" where
  "rosters_of st =
    ({u. has_key (ts_users st) u}, \<lambda>gid. map_option roster_of (map_find (ts_groups st) gid))"

text \<open>The status is \<open>None\<close> for the commands that the abstract view does not decide.\<close>

fun roster_exec :: "tracker_cmd \<Rightarrow> rosters \<Rightarrow> status option \<times> rosters" where
  "roster_exec (CreateUser uid pwd) (U, G) =
    (if uid = [] \<or> pwd = [] then (Some ST_MALFORMED, U, G)
     else if uid \<in> U then (Some ST_ALREADY_EXISTS, U, G)
     else (Some ST_OK, insert uid U, G))"
| "roster_exec (CreateGroup gid owner) (U, G) =
    (if gid = [] \<or> owner = [] then (Some ST_MALFORMED, U, G)
     else if owner \<notin> U then (Some ST_NOT_FOUND, U, G)
     else if G gid \<noteq> None then (Some ST_ALREADY_EXISTS, U, G)
     else (Some ST_OK, U, G(gid \<mapsto> (owner, {owner}, {}))))"
| "roster_exec (JoinGroup gid uid) (U, G) =
    (if gid = [] \<or> uid = [] then (Some ST_MALFORMED, U, G)
     else case G gid of
       None \<Rightarrow> (Some ST_NOT_FOUND, U, G)
     | Some (ow, M, P) \<Rightarrow>
         if uid \<notin> U then (Some ST_NOT_FOUND, U, G)
         else if uid \<in> M \<union> P then (Some ST_ALREADY_EXISTS, U, G)
         else (Some ST_OK, U, G(gid \<mapsto> (ow, M, insert uid P))))"
| "roster_exec (LeaveGroup gid uid) (U, G) =
    (if gid = [] \<or> uid = [] then (Some ST_MALFORMED, U, G)
     else case G gid of
       None \<Rightarrow> (Some ST_NOT_FOUND, U, G)
     | Some (ow, M, P) \<Rightarrow>
         if uid \<notin> M then (Some ST_NOT_MEMBER, U, G)
         else if M = {uid} then (Some ST_OK, U, G(gid := None))
         else (Some ST_OK, U, G(gid \<mapsto> (if uid = ow then Min (M - {uid}) else ow, M - {uid}, P))))"
| "roster_exec (AcceptRequest gid owner uid) (U, G) =
    (if gid = [] \<or> owner = [] \<or> uid = [] then (Some ST_MALFORMED, U, G)
     else case G gid of
       None \<Rightarrow> (Some ST_NOT_FOUND, U, G)
     | Some (ow, M, P) \<Rightarrow>
         if ow \<noteq> owner then (Some ST_NOT_OWNER, U, G)
         else if uid \<notin> P then (Some ST_NOT_FOUND, U, G)
         else (Some ST_OK, U, G(gid \<mapsto> (ow, insert uid M, P - {uid}))))"
| "roster_exec _ V = (None, V)"

definition roster_step :: "tracker_cmd \<Rightarrow> rosters \<Rightarrow> rosters" where
  "roster_step c V = snd (roster_exec c V)"

lemma rosters_set_user: "rosters_of (set_user uid u st) = (insert uid (fst (rosters_of st)), snd (rosters_of st))"
  by (auto simp: rosters_of_def set_user_def)

lemma rosters_set_group: "rosters_of (set_group gid g st) =
    (fst (rosters_of st), (snd (rosters_of st))(gid \<mapsto> roster_of g))"
  by (auto simp: rosters_of_def set_group_def)

lemma rosters_same_group: "map_find (ts_groups st) gid = Some g \<Longrightarrow> roster_of g' = roster_of g \<Longrightarrow>
    rosters_of (set_group gid g' st) = rosters_of st"
  by (auto simp: rosters_set_group) (auto simp: rosters_of_def)

lemma roster_of_files [simp]:
  "roster_of (g\<lparr>g_files := fs\<rparr>) = roster_of g"
  "roster_of (set_file fname f g) = roster_of g"
  by (simp_all add: roster_of_def set_file_def)

lemma hd_Min: "set_ok s \<Longrightarrow> s \<noteq> [] \<Longrightarrow> hd s = Min (set s)"
  by (rule sym) (use hd_least [of s] in \<open>auto intro: Min_eqI\<close>)

lemma leave_group_rosters:
  assumes ok: "state_ok st"
  shows "rosters_of (snd (leave_group gid uid st)) = snd (roster_exec (LeaveGroup gid uid) (rosters_of st)) \<and>
    fst (roster_exec (LeaveGroup gid uid) (rosters_of st)) = Some (fst (leave_group gid uid st))"
proof (cases "map_find (ts_groups st) gid")
  case None
  then show ?thesis by (simp add: leave_group_def rosters_of_def)
next
  case (Some g)
  define ms where "ms = set_erase uid (g_members g)"
  note g = state_okD(4) [OF ok Some]
  have m: "set_ok (g_members g)" "g_owner g \<in> set (g_members g)" using g by (auto simp: group_ok_def)
  have ms: "set ms = set (g_members g) - {uid}" "set_ok ms" using m by (auto simp: ms_def set_ok_erase)
  have e: "ms = [] \<longleftrightarrow> set (g_members g) = {uid}" if "uid \<in> set (g_members g)"
    using ms(1) that by (metis Diff_eq_empty_iff insert_absorb insert_subset set_empty2 subset_singletonD
        empty_iff list.set(1) singletonI subset_refl)
  have h: "ms \<noteq> [] \<Longrightarrow> hd ms = Min (set (g_members g) - {uid})"
    using hd_Min [OF ms(2)] by (simp add: ms(1))
  obtain U G where r: "rosters_of st = (U, G)" by (cases "rosters_of st")
  then have G: "G gid = Some (roster_of g)" using Some by (auto simp: rosters_of_def)
  have del: "rosters_of (st\<lparr>ts_groups := map_erase gid (ts_groups st)\<rparr>) = (U, G(gid := None))"
    using state_okD(3) [OF ok] r by (auto simp: rosters_of_def map_find_erase)
  have stay: "uid = g_owner g" if "ms = []" "uid \<in> set (g_members g)"
    using e [OF that(2)] that(1) m(2) by simp
  show ?thesis
    using Some e h stay ms(1) m(2)
    by (auto simp: leave_group_def Let_def ms_def [symmetric] rosters_set_group del r G roster_of_def)
qed

lemma exec_rosters:
  assumes "state_ok st"
  shows "rosters_of (snd (exec c st)) = roster_step c (rosters_of st)"
    and "fst (roster_exec c (rosters_of st)) = Some s \<Longrightarrow> fst (exec c st) = s"
proof -
  have "rosters_of (snd (exec c st)) = roster_step c (rosters_of st) \<and>
      (\<forall>s. fst (roster_exec c (rosters_of st)) = Some s \<longrightarrow> fst (exec c st) = s)"
  proof (cases c)
    case (CreateUser uid pwd)
    then show ?thesis
      by (auto simp: create_user_def roster_step_def rosters_set_user) (auto simp: rosters_of_def)
  next
    case (Login uid pwd ip port)
    then show ?thesis
      by (auto simp: login_def roster_step_def rosters_set_user split: option.splits)
        (auto simp: rosters_of_def has_key_def)
  next
    case (Logout uid)
    then show ?thesis
      by (auto simp: logout_def roster_step_def set_user_def rosters_of_def has_key_def
          option.map_comp comp_def split: option.splits)
  next
    case (CreateGroup gid owner)
    then show ?thesis
      by (auto simp: create_group_def roster_step_def rosters_set_group)
        (auto simp: rosters_of_def has_key_def roster_of_def)
  next
    case (JoinGroup gid uid)
    then show ?thesis
      by (auto simp: join_group_def roster_step_def rosters_set_group split: option.splits)
        (auto simp: rosters_of_def has_key_def roster_of_def)
  next
    case (LeaveGroup gid uid)
    then show ?thesis using leave_group_rosters [OF assms] by (auto simp: roster_step_def)
  next
    case (AcceptRequest gid owner uid)
    then show ?thesis
      using group_okD(2) [OF state_okD(4) [OF assms]]
      by (auto simp: accept_request_def roster_step_def rosters_set_group split: option.splits)
        (auto simp: rosters_of_def has_key_def roster_of_def)
  next
    case (AddFile gid uid ip port meta)
    then show ?thesis
      by (auto simp: add_file_def roster_step_def Let_def intro!: rosters_same_group split: option.splits)
  next
    case (StopShare gid uid fname)
    then show ?thesis
      by (auto simp: stop_share_def roster_step_def intro!: rosters_same_group split: option.splits)
  next
    case (UpdateBitfield gid uid ip port fname bits)
    then show ?thesis
      by (auto simp: update_bitfield_def roster_step_def intro!: rosters_same_group split: option.splits)
  qed
  then show "rosters_of (snd (exec c st)) = roster_step c (rosters_of st)"
    and "fst (roster_exec c (rosters_of st)) = Some s \<Longrightarrow> fst (exec c st) = s" by auto
qed

interpretation membership: simulation state_ok rosters_of step roster_step
  by unfold_locales (simp_all add: step_def exec.keeps exec_rosters(1))

lemma rosters_new [simp]: "rosters_of new_tracker = ({}, \<lambda>_. None)"
  by (simp add: rosters_of_def new_tracker_def)

text \<open>A run of commands from an empty tracker.\<close>

abbreviation run :: "tracker_cmd list \<Rightarrow> tracker_state" where
  "run cs \<equiv> fold step cs new_tracker"

lemma run_ok: "state_ok (run cs)"
  by (rule membership.ok_run [OF state_ok_new])

lemma run_rosters: "rosters_of (run cs) = fold roster_step cs ({}, \<lambda>_. None)"
  using membership.sim_run [OF state_ok_new] by simp

section \<open>Who becomes a member\<close>

definition roster_member :: "rosters \<Rightarrow> bytes \<Rightarrow> bytes \<Rightarrow> bool" where
  "roster_member V gid uid = (case snd V gid of None \<Rightarrow> False | Some (ow, M, P) \<Rightarrow> uid \<in> M)"

lemma new_roster_member:
  assumes "roster_member (roster_step c V) gid uid" and "\<not> roster_member V gid uid"
  shows "c = CreateGroup gid uid \<or>
    (\<exists>ow M P. c = AcceptRequest gid ow uid \<and> snd V gid = Some (ow, M, P) \<and> uid \<in> P)"
  using assms
  by (cases V; cases c)
    (auto simp: roster_member_def roster_step_def split: if_splits option.splits)

lemma roster_member_of: "roster_member (rosters_of st) gid uid \<longleftrightarrow>
    (\<exists>g. map_find (ts_groups st) gid = Some g \<and> uid \<in> set (g_members g))"
  by (auto simp: roster_member_def rosters_of_def roster_of_def split: option.splits)

definition admits :: "tracker_cmd \<Rightarrow> tracker_state \<Rightarrow> bytes \<Rightarrow> bytes \<Rightarrow> bool" where
  "admits c st gid uid \<longleftrightarrow> fst (exec c st) = ST_OK \<and>
    (c = CreateGroup gid uid \<or>
     (case map_find (ts_groups st) gid of
        None \<Rightarrow> False
      | Some g \<Rightarrow> c = AcceptRequest gid (g_owner g) uid \<and> uid \<in> set (g_pending g)))"

lemma member_admitted:
  "roster_member (rosters_of (run cs)) gid uid \<Longrightarrow>
    \<exists>xs c ys. cs = xs @ c # ys \<and> admits c (run xs) gid uid"
proof (induction cs rule: rev_induct)
  case Nil
  then show ?case by (simp add: roster_member_def)
next
  case (snoc c cs)
  show ?case
  proof (cases "roster_member (rosters_of (run cs)) gid uid")
    case True
    then show ?thesis using snoc.IH by (metis append.assoc append_Cons)
  next
    case False
    let ?st = "run cs"
    have new: "roster_member (roster_step c (rosters_of ?st)) gid uid"
      using snoc.prems by (simp add: membership.sim_step [OF run_ok])
    then have "rosters_of (step c ?st) \<noteq> rosters_of ?st"
      using False by (auto simp: membership.sim_step [OF run_ok])
    then have "fst (exec c ?st) = ST_OK"
      by (metis exec.error_frame step_def)
    moreover have "c = CreateGroup gid uid \<or>
        (\<exists>ow M P. c = AcceptRequest gid ow uid \<and> snd (rosters_of ?st) gid = Some (ow, M, P) \<and> uid \<in> P)"
      using new False by (rule new_roster_member)
    ultimately have "admits c ?st gid uid"
      by (auto simp: admits_def rosters_of_def roster_of_def)
    then show ?thesis by blast
  qed
qed

section \<open>Replay\<close>

lemma set_group_same: "state_ok st \<Longrightarrow> map_find (ts_groups st) gid = Some g \<Longrightarrow> set_group gid g st = st"
  by (simp add: set_group_def map_put_same state_okD)

lemma find_group_set [simp]: "map_find (ts_groups (set_group gid g st)) j =
    (if j = gid then Some g else map_find (ts_groups st) j)"
  by (simp add: set_group_def)

lemma users_set_group [simp]: "ts_users (set_group gid g st) = ts_users st"
  by (simp add: set_group_def)

lemma set_group_twice: "state_ok st \<Longrightarrow> set_group gid g (set_group gid h st) = set_group gid g st"
  by (simp add: set_group_def state_okD)

lemma find_file_set [simp]: "map_find (g_files (set_file fname f g)) j =
    (if j = fname then Some f else map_find (g_files g) j)"
  by (simp add: set_file_def)

lemma members_set_file [simp]:
  "g_members (set_file fname f g) = g_members g" "g_pending (set_file fname f g) = g_pending g"
  "g_owner (set_file fname f g) = g_owner g"
  by (simp_all add: set_file_def)

lemma set_file_twice: "map_ok (g_files g) \<Longrightarrow> set_file fname f (set_file fname h g) = set_file fname f g"
  by (simp add: set_file_def)

text \<open>The commands whose effect the trackers exchange.\<close>

fun replicated :: "tracker_cmd \<Rightarrow> bool" where
  "replicated (Login _ _ _ _) = False"
| "replicated (Logout _) = False"
| "replicated _ = True"

lemma replay_group_cmds:
  assumes ok: "state_ok st"
  shows "snd (create_user uid pwd (snd (create_user uid pwd st))) = snd (create_user uid pwd st)"
    and "snd (create_group gid ow (snd (create_group gid ow st))) = snd (create_group gid ow st)"
    and "snd (join_group gid uid (snd (join_group gid uid st))) = snd (join_group gid uid st)"
    and "snd (accept_request gid ow uid (snd (accept_request gid ow uid st))) =
      snd (accept_request gid ow uid st)"
proof -
  show "snd (create_user uid pwd (snd (create_user uid pwd st))) = snd (create_user uid pwd st)"
    by (simp add: create_user_def set_user_def)
  show "snd (create_group gid ow (snd (create_group gid ow st))) = snd (create_group gid ow st)"
    by (simp add: create_group_def set_group_def)
  show "snd (join_group gid uid (snd (join_group gid uid st))) = snd (join_group gid uid st)"
    by (simp add: join_group_def split: option.splits)
  show "snd (accept_request gid ow uid (snd (accept_request gid ow uid st))) =
      snd (accept_request gid ow uid st)"
  proof (cases "map_find (ts_groups st) gid")
    case (Some g)
    then have "uid \<notin> set (set_erase uid (g_pending g))"
      using group_okD(2) [OF state_okD(4) [OF ok Some]] by simp
    then show ?thesis using Some by (simp add: accept_request_def)
  qed (simp add: accept_request_def)
qed

lemma replay_leave:
  assumes ok: "state_ok st"
  shows "snd (leave_group gid uid (snd (leave_group gid uid st))) = snd (leave_group gid uid st)"
proof (cases "map_find (ts_groups st) gid")
  case (Some g)
  then have "uid \<notin> set (set_erase uid (g_members g))"
    using group_okD(1) [OF state_okD(4) [OF ok Some]] by simp
  then show ?thesis
    using Some state_okD(3) [OF ok] by (auto simp: leave_group_def Let_def map_find_erase)
qed (simp add: leave_group_def)

lemma replay_files:
  assumes ok: "state_ok st"
  shows "snd (add_file gid uid ip port meta (snd (add_file gid uid ip port meta st))) =
      snd (add_file gid uid ip port meta st)"
    and "snd (stop_share gid uid fname (snd (stop_share gid uid fname st))) = snd (stop_share gid uid fname st)"
    and "snd (update_bitfield gid uid ip port fname bits (snd (update_bitfield gid uid ip port fname bits st))) =
      snd (update_bitfield gid uid ip port fname bits st)"
proof -
  have seeders: "map_ok (fm_seeders f)"
    if "map_find (ts_groups st) gid = Some g" "map_find (g_files g) fname = Some f" for g f fname
    using group_okD(6) [OF state_okD(4) [OF ok that(1)] that(2)] by (simp add: file_ok_def)
  have files: "map_ok (g_files g)" if "map_find (ts_groups st) gid = Some g" for g
    using group_okD(3) [OF state_okD(4) [OF ok that]] .
  show "snd (add_file gid uid ip port meta (snd (add_file gid uid ip port meta st))) =
      snd (add_file gid uid ip port meta st)"
    using ok by (auto simp: add_file_def Let_def set_group_twice set_file_twice files seeders
        split: option.splits)
  show "snd (stop_share gid uid fname (snd (stop_share gid uid fname st))) = snd (stop_share gid uid fname st)"
    by (auto simp: stop_share_def drop_seeder_def has_key_def map_find_erase seeders split: option.splits)
  show "snd (update_bitfield gid uid ip port fname bits (snd (update_bitfield gid uid ip port fname bits st))) =
      snd (update_bitfield gid uid ip port fname bits st)"
    using ok by (auto simp: update_bitfield_def set_group_twice set_file_twice files seeders
        split: option.splits)
qed

lemma replay_step:
  assumes "state_ok st" and "replicated c"
  shows "step c (step c st) = step c st"
  using assms replay_group_cmds [OF assms(1)] replay_leave [OF assms(1)] replay_files [OF assms(1)]
  by (cases c) (simp_all add: step_def)

section \<open>Passwords and seeders\<close>

lemma password_kept:
  "map_find (ts_users st) uid = Some u \<Longrightarrow>
   \<exists>v. map_find (ts_users (step c st)) uid = Some v \<and> u_password v = u_password u"
  by (cases c) (auto simp: step_def create_user_def login_def logout_def create_group_def join_group_def
      leave_group_def accept_request_def add_file_def stop_share_def update_bitfield_def set_user_def
      set_group_def has_key_def Let_def split: option.split)

lemma password_kept_run:
  "map_find (ts_users st) uid = Some u \<Longrightarrow>
   \<exists>v. map_find (ts_users (fold step cs st)) uid = Some v \<and> u_password v = u_password u"
proof (induction cs arbitrary: st u)
  case (Cons c cs)
  obtain v where "map_find (ts_users (step c st)) uid = Some v" "u_password v = u_password u"
    using password_kept [OF Cons.prems] by blast
  then show ?case using Cons.IH [of "step c st" v] by simp
qed simp

definition seeds :: "tracker_state \<Rightarrow> bytes \<Rightarrow> bytes \<Rightarrow> bytes \<Rightarrow> bool" where
  "seeds st gid fname uid =
    (case map_find (ts_groups st) gid of
       None \<Rightarrow> False
     | Some g \<Rightarrow>
         (case map_find (g_files g) fname of None \<Rightarrow> False | Some f \<Rightarrow> has_key (fm_seeders f) uid))"

lemma file_seeders_ok:
  "state_ok st \<Longrightarrow> map_find (ts_groups st) gid = Some g \<Longrightarrow> map_find (g_files g) fname = Some f \<Longrightarrow>
   map_ok (fm_seeders f)"
  using group_okD(6) [OF state_okD(4)] by (fastforce simp: file_ok_def)

lemma logout_seeds: "state_ok st \<Longrightarrow> fst (logout uid st) = ST_OK \<Longrightarrow>
    seeds (snd (logout uid st)) gid fname w \<longleftrightarrow> w \<noteq> uid \<and> seeds st gid fname w"
  by (auto simp: logout_def seeds_def drop_seeder_def has_key_def map_find_erase file_seeders_ok
      split: option.splits)

text \<open>A small history for the examples below.\<close>

lemma sample_history: "fold step [CreateUser [1] [7], CreateGroup [2] [1]] new_tracker =
    \<lparr>ts_users = [([1], \<lparr>u_id = [1], u_password = hash_password [7], u_online = False, u_ip = [], u_port = 0\<rparr>)],
     ts_groups = [([2], \<lparr>g_id = [2], g_owner = [1], g_members = [[1]], g_pending = [], g_files = []\<rparr>)]\<rparr>"
  by (simp add: step_def create_user_def create_group_def set_user_def set_group_def new_tracker_def has_key_def)

definition sample_commands :: "tracker_cmd list" where
  "sample_commands =
    [CreateUser [1] [7], CreateUser [5] [7], CreateGroup [2] [1], JoinGroup [2] [5], AcceptRequest [2] [1] [5],
     AddFile [2] [1] [9] 80 \<lparr>fm_name = [3], fm_size = 5, fm_hash = [4], fm_piece_hashes = [[4]], fm_seeders = []\<rparr>]"

lemma sample_members:
  "fold step [CreateUser [1] [7], CreateUser [5] [7], CreateGroup [2] [1], JoinGroup [2] [5], AcceptRequest [2] [1] [5]]
      new_tracker =
    \<lparr>ts_users = [([1], \<lparr>u_id = [1], u_password = hash_password [7], u_online = False, u_ip = [], u_port = 0\<rparr>),
                ([5], \<lparr>u_id = [5], u_password = hash_password [7], u_online = False, u_ip = [], u_port = 0\<rparr>)],
     ts_groups = [([2], \<lparr>g_id = [2], g_owner = [1], g_members = [[1], [5]], g_pending = [], g_files = []\<rparr>)]\<rparr>"
  by (simp add: step_def create_user_def create_group_def join_group_def accept_request_def set_user_def
      set_group_def set_erase_def new_tracker_def has_key_def)

lemma sample_state: "fold step sample_commands new_tracker =
    \<lparr>ts_users = [([1], \<lparr>u_id = [1], u_password = hash_password [7], u_online = False, u_ip = [], u_port = 0\<rparr>),
                ([5], \<lparr>u_id = [5], u_password = hash_password [7], u_online = False, u_ip = [], u_port = 0\<rparr>)],
     ts_groups = [([2], \<lparr>g_id = [2], g_owner = [1], g_members = [[1], [5]], g_pending = [],
       g_files = [([3], \<lparr>fm_name = [3], fm_size = 5, fm_hash = [4], fm_piece_hashes = [[4]],
         fm_seeders = [([1], \<lparr>pr_user_id = [1], pr_ip = [9], pr_port = 80, pr_bitfield = [0xFF]\<rparr>)]\<rparr>)]\<rparr>)]\<rparr>"
  using sample_members
  by (simp add: sample_commands_def step_def [of "AddFile _ _ _ _ _"] add_file_def set_group_def set_file_def
      full_bitfield_def)

section \<open>The tracker's properties\<close>

text \<open>C3. Whatever commands a tracker executes from its empty start, its tables stay sound: map keys agree with the
  records they lead to, every group has its owner among its members, nobody is member and applicant at once, members,
  applicants and seeders are registered users.\<close>

theorem tracker_invariant: "state_ok (fold step cs new_tracker)"
  by (rule run_ok)

text \<open>C4. The group operations implement the abstract membership rules (owner, set of members, set of applicants): the
  state after any run is the abstract state after the same run, and the status of the next command is the one the abstract
  rules give, where they decide it. An owner who leaves hands over to the least remaining member.\<close>

theorem membership_refinement:
  "rosters_of (fold step cs new_tracker) = fold roster_step cs ({}, \<lambda>_. None) \<and>
   fst (roster_exec c (rosters_of (fold step cs new_tracker))) \<in>
     {None, Some (fst (exec c (fold step cs new_tracker)))}"
proof -
  have "fst (roster_exec c (rosters_of (run cs))) = Some s \<Longrightarrow> s = fst (exec c (run cs))" for s
    using exec_rosters(2) [OF run_ok] by simp
  then show ?thesis using run_rosters by (cases "fst (roster_exec c (rosters_of (run cs)))") auto
qed

text \<open>C21. Nobody is a member of a group without having been let in: the history contains a command that succeeded and
  either created the group with that user as owner, or is the acceptance, by the owner at that moment, of that user's pending
  request.\<close>

theorem members_were_admitted:
  assumes "roster_member (rosters_of (fold step cs new_tracker)) gid uid"
  shows "\<exists>xs c ys. cs = xs @ c # ys \<and> admits c (fold step xs new_tracker) gid uid"
  using assms by (rule member_admitted)

theorem members_were_admitted_witness:
  "\<exists>xs c ys. [CreateUser [1] [7], CreateGroup [2] [1]] = xs @ c # ys \<and> admits c (fold step xs new_tracker) [2] [1]"
  by (rule members_were_admitted) (simp only: sample_history, simp add: roster_member_of)

text \<open>C22. A command that reports an error changes nothing.\<close>

theorem commands_error_frame: "fst (exec c st) = ST_OK \<or> snd (exec c st) = st"
  using exec.error_frame by blast

text \<open>After a user has been created, and whatever happens in between, logging in succeeds exactly with a password of the
  same SHA-1 hash as the one given at creation; any other password is refused.\<close>

lemma login_checks_password:
  assumes "fst (create_user uid pw (fold step xs new_tracker)) = ST_OK"
  shows "fst (login uid pwd ip port (fold step (xs @ CreateUser uid pw # ys) new_tracker)) =
    (if rfc_sha1 pwd = rfc_sha1 pw then ST_OK else ST_BAD_CREDENTIALS)"
proof -
  let ?st = "step (CreateUser uid pw) (run xs)"
  have "map_find (ts_users ?st) uid =
      Some \<lparr>u_id = uid, u_password = hash_password pw, u_online = False, u_ip = [], u_port = 0\<rparr>"
    using assms by (auto simp: step_def create_user_def set_user_def split: if_splits)
  from password_kept_run [OF this, of ys] show ?thesis
    by (auto simp: login_def hash_password_def hash_buffer_rfc)
qed

lemma login_checks_password_witness:
  "fst (login [1] [8] [9] 80 (fold step [CreateUser [1] [7], CreateGroup [2] [1]] new_tracker)) =
    (if rfc_sha1 [8] = rfc_sha1 [7] then ST_OK else ST_BAD_CREDENTIALS)"
  using login_checks_password [of "[1]" "[7]" "[]" "[8]" "[9]" 80 "[CreateGroup [2] [1]]"]
  by (simp add: create_user_def new_tracker_def)

text \<open>A successful logout takes the user offline and out of the seeders of every file of every group, and touches no other
  seeder.\<close>

lemma logout_evicts:
  assumes "fst (logout uid (fold step cs new_tracker)) = ST_OK"
  shows "\<not> is_online uid (snd (logout uid (fold step cs new_tracker))) \<and>
    seeds (snd (logout uid (fold step cs new_tracker))) gid fname w =
      (w \<noteq> uid \<and> seeds (fold step cs new_tracker) gid fname w)"
  using assms logout_seeds [OF run_ok assms]
  by (auto simp: logout_def is_online_def set_user_def split: option.splits)

text \<open>A file that a member has published can be looked up by every member of the group: under its name, with the
  published hash, and with the publisher among the seeders, under its address and with all pieces.\<close>

lemma published_file_found:
  assumes "fst (add_file gid uid ip port meta (fold step cs new_tracker)) = ST_OK"
    and "roster_member (rosters_of (fold step cs new_tracker)) gid w" and "w \<noteq> []"
  shows "\<exists>f. get_file gid w (fm_name meta) out (snd (add_file gid uid ip port meta (fold step cs new_tracker))) = (ST_OK, f) \<and>
    fm_name f = fm_name meta \<and> fm_hash f = fm_hash meta \<and>
    map_find (fm_seeders f) uid =
      Some \<lparr>pr_user_id = uid, pr_ip = ip, pr_port = port, pr_bitfield = full_bitfield (fm_piece_hashes meta)\<rparr>"
proof -
  let ?st = "run cs"
  obtain g where g: "map_find (ts_groups ?st) gid = Some g" "w \<in> set (g_members g)"
    using assms(2) by (auto simp: roster_member_of)
  have n: "fm_name f = fm_name meta" if "map_find (g_files g) (fm_name meta) = Some f" for f
    using group_okD(6) [OF state_okD(4) [OF run_ok g(1)] that] by (simp add: file_ok_def)
  have ne: "gid \<noteq> []" "uid \<noteq> []" "fm_name meta \<noteq> []" "uid \<in> set (g_members g)"
    using assms(1) g(1) by (simp_all add: add_file_def split: if_splits)
  show ?thesis
  proof (cases "map_find (g_files g) (fm_name meta)")
    case None
    then show ?thesis using ne g assms(3) by (simp add: add_file_def get_file_def)
  next
    case (Some f)
    then have "fm_hash f = fm_hash meta"
      using assms(1) ne g(1) by (simp add: add_file_def Let_def split: if_splits)
    then show ?thesis using Some n [OF Some] ne g assms(3) by (simp add: add_file_def get_file_def)
  qed
qed

text \<open>A member who leaves a group that goes on existing stays listed as a seeder of its files: only logout and
  \<open>stop_share\<close> remove a seeder.\<close>

lemma left_member_still_listed:
  assumes "seeds (fold step cs new_tracker) gid fname uid"
    and "map_find (ts_groups (snd (leave_group gid uid (fold step cs new_tracker)))) gid \<noteq> None"
  shows "seeds (snd (leave_group gid uid (fold step cs new_tracker))) gid fname uid"
proof -
  let ?st = "run cs"
  obtain g where g: "map_find (ts_groups ?st) gid = Some g"
    using assms(1) by (auto simp: seeds_def split: option.splits)
  have "map_find (map_erase gid (ts_groups ?st)) gid = None"
    using state_okD(3) [OF run_ok] by (simp add: map_find_erase)
  then show ?thesis
    using assms g by (auto simp: seeds_def leave_group_def Let_def split: option.splits if_splits)
qed

text \<open>The operations that the trackers exchange can be delivered twice: applying one again at once changes nothing.\<close>

lemma replay_is_idempotent:
  assumes "replicated c"
  shows "step c (step c (fold step cs new_tracker)) = step c (fold step cs new_tracker)"
  using run_ok assms by (rule replay_step)

end
