(* ===== verification/Tracker_Snapshot.thy ===== *)
theory Tracker_Snapshot
  imports Tracker_Spec Wire_Buffer
begin

text \<open>
  \<open>TrackerState::snapshot\<close> and \<open>TrackerState::restore\<close>: the whole state as one byte string, and back. The
  loops write and read the containers in key order; \<open>restore\<close> builds the maps by insertion and replaces the
  state only when the whole blob was read.
\<close>

section \<open>Writing\<close>

definition put_user :: "user \<Rightarrow> buffer \<Rightarrow> buffer" where
  "put_user u out =
    (let out = put_str (u_id u) out;
         out = put_str (u_password u) out;
         out = put_u8 (if u_online u then 1 else 0) out;
         out = put_str (u_ip u) out
     in put_u16 (u_port u) out)"

definition put_peer :: "peer_ref \<Rightarrow> buffer \<Rightarrow> buffer" where
  "put_peer pr out =
    (let out = put_str (pr_user_id pr) out;
         out = put_str (pr_ip pr) out;
         out = put_u16 (pr_port pr) out;
         out = put_u32 (of_nat (length (pr_bitfield pr))) out
     in put_raw (pr_bitfield pr) out)"

definition put_file :: "file_meta \<Rightarrow> buffer \<Rightarrow> buffer" where
  "put_file fm out =
    (let out = put_str (fm_name fm) out;
         out = put_u64 (fm_size fm) out;
         out = put_str (fm_hash fm) out;
         out = put_u32 (of_nat (length (fm_piece_hashes fm))) out;
         out = fold put_str (fm_piece_hashes fm) out;
         out = put_u32 (of_nat (length (fm_seeders fm))) out
     in fold (put_peer \<circ> snd) (fm_seeders fm) out)"

definition put_group :: "group \<Rightarrow> buffer \<Rightarrow> buffer" where
  "put_group g out =
    (let out = put_str (g_id g) out;
         out = put_str (g_owner g) out;
         out = put_u32 (of_nat (length (g_members g))) out;
         out = fold put_str (g_members g) out;
         out = put_u32 (of_nat (length (g_pending g))) out;
         out = fold put_str (g_pending g) out;
         out = put_u32 (of_nat (length (g_files g))) out
     in fold (put_file \<circ> snd) (g_files g) out)"

definition snapshot :: "tracker_state \<Rightarrow> bytes" where
  "snapshot st =
    (let out = new_buf;
         out = put_u32 (of_nat (length (ts_users st))) out;
         out = fold (put_user \<circ> snd) (ts_users st) out;
         out = put_u32 (of_nat (length (ts_groups st))) out;
         out = fold (put_group \<circ> snd) (ts_groups st) out
     in buf_data out)"

section \<open>Reading\<close>

definition rd_user :: "buffer \<Rightarrow> (user \<times> buffer) option" where
  "rd_user b = do {
     (i, b) \<leftarrow> rd get_str b;
     (pw, b) \<leftarrow> rd get_str b;
     (onl, b) \<leftarrow> rd get_u8 b;
     (ip, b) \<leftarrow> rd get_str b;
     (port, b) \<leftarrow> rd get_u16 b;
     Some (\<lparr>u_id = i, u_password = pw, u_online = (onl \<noteq> 0), u_ip = ip, u_port = port\<rparr>, b) }"

definition rd_peer :: "buffer \<Rightarrow> (peer_ref \<times> buffer) option" where
  "rd_peer b = do {
     (i, b) \<leftarrow> rd get_str b;
     (ip, b) \<leftarrow> rd get_str b;
     (port, b) \<leftarrow> rd get_u16 b;
     (nbits, b) \<leftarrow> rd get_u32 b;
     (bits, b) \<leftarrow> rd_bits nbits b;
     Some (\<lparr>pr_user_id = i, pr_ip = ip, pr_port = port, pr_bitfield = bits\<rparr>, b) }"

definition rd_file :: "buffer \<Rightarrow> (file_meta \<times> buffer) option" where
  "rd_file b = do {
     (name, b) \<leftarrow> rd get_str b;
     (size, b) \<leftarrow> rd get_u64 b;
     (hash, b) \<leftarrow> rd get_str b;
     (npieces, b) \<leftarrow> rd get_u32 b;
     (hs, b) \<leftarrow> rd_list (rd get_str) (unat npieces) b;
     (nseeders, b) \<leftarrow> rd get_u32 b;
     (sd, b) \<leftarrow> rd_into (\<lambda>pr. map_put (pr_user_id pr) pr) rd_peer (unat nseeders) [] b;
     Some (\<lparr>fm_name = name, fm_size = size, fm_hash = hash, fm_piece_hashes = hs, fm_seeders = sd\<rparr>, b) }"

definition rd_group :: "buffer \<Rightarrow> (group \<times> buffer) option" where
  "rd_group b = do {
     (i, b) \<leftarrow> rd get_str b;
     (owner, b) \<leftarrow> rd get_str b;
     (nmembers, b) \<leftarrow> rd get_u32 b;
     (ms, b) \<leftarrow> rd_into set_put (rd get_str) (unat nmembers) [] b;
     (npending, b) \<leftarrow> rd get_u32 b;
     (ps, b) \<leftarrow> rd_into set_put (rd get_str) (unat npending) [] b;
     (nfiles, b) \<leftarrow> rd get_u32 b;
     (fs, b) \<leftarrow> rd_into (\<lambda>fm. map_put (fm_name fm) fm) rd_file (unat nfiles) [] b;
     Some (\<lparr>g_id = i, g_owner = owner, g_members = ms, g_pending = ps, g_files = fs\<rparr>, b) }"

definition rd_state :: "buffer \<Rightarrow> (tracker_state \<times> buffer) option" where
  "rd_state b = do {
     (nusers, b) \<leftarrow> rd get_u32 b;
     (us, b) \<leftarrow> rd_into (\<lambda>u. map_put (u_id u) u) rd_user (unat nusers) [] b;
     (ngroups, b) \<leftarrow> rd get_u32 b;
     (gs, b) \<leftarrow> rd_into (\<lambda>g. map_put (g_id g) g) rd_group (unat ngroups) [] b;
     Some (\<lparr>ts_users = us, ts_groups = gs\<rparr>, b) }"

definition restore :: "bytes \<Rightarrow> tracker_state \<Rightarrow> bool \<times> tracker_state" where
  "restore blob st =
    (case rd_state (of_bytes blob) of None \<Rightarrow> (False, st) | Some (st', b) \<Rightarrow> (True, st'))"

section \<open>The encodings\<close>

definition enc_user :: "user \<Rightarrow> bytes" where
  "enc_user u = enc_str (u_id u) @ enc_str (u_password u) @ enc_u8 (if u_online u then 1 else 0) @
    enc_str (u_ip u) @ enc_u16 (u_port u)"

definition enc_peer :: "peer_ref \<Rightarrow> bytes" where
  "enc_peer p = enc_str (pr_user_id p) @ enc_str (pr_ip p) @ enc_u16 (pr_port p) @
    enc_u32 (of_nat (length (pr_bitfield p))) @ pr_bitfield p"

text \<open>A container: its size, then its elements.\<close>

definition enc_list :: "('a \<Rightarrow> bytes) \<Rightarrow> 'a list \<Rightarrow> bytes" where
  "enc_list e xs = enc_u32 (of_nat (length xs)) @ concat (map e xs)"

definition enc_file :: "file_meta \<Rightarrow> bytes" where
  "enc_file f = enc_str (fm_name f) @ enc_u64 (fm_size f) @ enc_str (fm_hash f) @
    enc_list enc_str (fm_piece_hashes f) @ enc_list (enc_peer \<circ> snd) (fm_seeders f)"

definition enc_group :: "group \<Rightarrow> bytes" where
  "enc_group g = enc_str (g_id g) @ enc_str (g_owner g) @ enc_list enc_str (g_members g) @
    enc_list enc_str (g_pending g) @ enc_list (enc_file \<circ> snd) (g_files g)"

lemma buf_data_put_snap [simp]:
  "buf_data (put_user u b) = buf_data b @ enc_user u"
  "buf_data (put_peer p b) = buf_data b @ enc_peer p"
  by (simp_all add: put_user_def put_peer_def enc_user_def enc_peer_def)

lemma fold_put_snd: "(\<And>x b. buf_data (p x b) = buf_data b @ e x) \<Longrightarrow>
    buf_data (fold (p \<circ> snd) xs b) = buf_data b @ concat (map (e \<circ> snd) xs)"
  by (rule fold_put) simp

lemmas fold_put_strs = fold_put [of put_str enc_str, OF buf_data_put(8)]

lemma buf_data_put_file [simp]: "buf_data (put_file f b) = buf_data b @ enc_file f"
  by (simp add: put_file_def enc_file_def enc_list_def Let_def fold_put_strs
      fold_put_snd [of put_peer enc_peer])

lemma buf_data_put_group [simp]: "buf_data (put_group g b) = buf_data b @ enc_group g"
  by (simp add: put_group_def enc_group_def enc_list_def Let_def fold_put_strs
      fold_put_snd [of put_file enc_file])

lemma snapshot_enc: "snapshot st =
    enc_list (enc_user \<circ> snd) (ts_users st) @ enc_list (enc_group \<circ> snd) (ts_groups st)"
  by (simp add: snapshot_def enc_list_def Let_def fold_put_snd [of put_user enc_user]
      fold_put_snd [of put_group enc_group])

text \<open>What the 32-bit counts can carry.\<close>

definition len_ok :: "'a list \<Rightarrow> bool" where
  "len_ok xs = (length xs < 2 ^ 32)"

definition user_fits :: "user \<Rightarrow> bool" where
  "user_fits u = (str_ok (u_id u) \<and> str_ok (u_password u) \<and> str_ok (u_ip u))"

definition peer_fits :: "peer_ref \<Rightarrow> bool" where
  "peer_fits p = (str_ok (pr_user_id p) \<and> str_ok (pr_ip p) \<and> str_ok (pr_bitfield p))"

definition file_fits :: "file_meta \<Rightarrow> bool" where
  "file_fits f = (str_ok (fm_name f) \<and> str_ok (fm_hash f) \<and>
     len_ok (fm_piece_hashes f) \<and> list_all str_ok (fm_piece_hashes f) \<and>
     len_ok (fm_seeders f) \<and> list_all (peer_fits \<circ> snd) (fm_seeders f))"

definition group_fits :: "group \<Rightarrow> bool" where
  "group_fits g = (str_ok (g_id g) \<and> str_ok (g_owner g) \<and>
     len_ok (g_members g) \<and> list_all str_ok (g_members g) \<and>
     len_ok (g_pending g) \<and> list_all str_ok (g_pending g) \<and>
     len_ok (g_files g) \<and> list_all (file_fits \<circ> snd) (g_files g))"

definition state_fits :: "tracker_state \<Rightarrow> bool" where
  "state_fits st = (len_ok (ts_users st) \<and> list_all (user_fits \<circ> snd) (ts_users st) \<and>
     len_ok (ts_groups st) \<and> list_all (group_fits \<circ> snd) (ts_groups st))"

text \<open>An entry of a map is stored under its own key, and the map is sorted.\<close>

definition keyed :: "('v \<Rightarrow> 'k::linorder) \<Rightarrow> ('k \<times> 'v) list \<Rightarrow> bool" where
  "keyed key m \<longleftrightarrow> map_ok m \<and> (\<forall>p \<in> set m. key (snd p) = fst p)"

lemma keyed_rebuild: "keyed key m \<Longrightarrow> fold (\<lambda>v. map_put (key v) v) (map snd m) [] = m"
proof -
  assume m: "keyed key m"
  have "fold (\<lambda>v. map_put (key v) v) (map snd m) [] = fold (\<lambda>(k, v). map_put k v) m []"
    unfolding fold_map by (rule fold_cong) (use m in \<open>auto simp: keyed_def\<close>)
  then show ?thesis using fold_map_put [of "[]" m] m by (simp add: keyed_def)
qed

lemma unat_len [simp]: "len_ok xs \<Longrightarrow> unat (of_nat (length xs) :: u32) = length xs"
  by (simp add: len_ok_def unat_of_nat)

interpretation user_reader: wire_reader enc_user rd_user user_fits
  by unfold_locales (auto simp: rd_user_def enc_user_def user_fits_def wire)

interpretation peer_reader: wire_reader enc_peer rd_peer peer_fits
  by unfold_locales (auto simp: rd_peer_def enc_peer_def peer_fits_def wire)

lemma fold_set_put_Nil: "set_ok s \<Longrightarrow> fold set_put s [] = s"
  using fold_set_put [of "[]" s] by simp

lemma dec_map:
  assumes "wire_reader enc dec P" and "keyed key m" and "list_all (P \<circ> snd) m"
  shows "rd_into (\<lambda>v. map_put (key v) v) dec (length m) []
      (buf_at pre (concat (map (enc \<circ> snd) m) @ rest)) =
    Some (m, buf_at (pre @ concat (map (enc \<circ> snd) m)) rest)"
  using wire_reader.dec_into [OF assms(1), of "map snd m" "\<lambda>v. map_put (key v) v" "[]" pre rest] assms(3) keyed_rebuild [OF assms(2)]
  by (simp add: list.pred_map comp_def)

definition file_sound :: "file_meta \<Rightarrow> bool" where
  "file_sound f = (file_fits f \<and> keyed pr_user_id (fm_seeders f))"

lemmas dec_seeders = dec_map [OF peer_reader.wire_reader_axioms]

interpretation file_reader: wire_reader enc_file rd_file file_sound
  by unfold_locales
    (auto simp: rd_file_def enc_file_def enc_list_def file_sound_def file_fits_def wire dec_seeders)

definition group_sound :: "group \<Rightarrow> bool" where
  "group_sound g = (group_fits g \<and> set_ok (g_members g) \<and> set_ok (g_pending g) \<and>
     keyed fm_name (g_files g) \<and> list_all (file_sound \<circ> snd) (g_files g))"

lemmas dec_files = dec_map [OF file_reader.wire_reader_axioms]

interpretation group_reader: wire_reader enc_group rd_group group_sound
  by unfold_locales
    (auto simp: rd_group_def enc_group_def enc_list_def group_sound_def group_fits_def wire dec_files
      fold_set_put_Nil)

lemmas dec_users = dec_map [OF user_reader.wire_reader_axioms]
lemmas dec_groups = dec_map [OF group_reader.wire_reader_axioms]

definition state_sound :: "tracker_state \<Rightarrow> bool" where
  "state_sound st = (state_fits st \<and> keyed u_id (ts_users st) \<and> keyed g_id (ts_groups st) \<and>
     list_all (group_sound \<circ> snd) (ts_groups st))"

lemma rd_snapshot:
  "state_sound st \<Longrightarrow> rd_state (of_bytes (snapshot st @ rest)) = Some (st, buf_at (snapshot st) rest)"
  by (simp add: rd_state_def snapshot_enc enc_list_def state_sound_def state_fits_def wire dec_users dec_groups)

lemma map_ok_in: "map_ok m \<Longrightarrow> p \<in> set m \<Longrightarrow> map_find m (fst p) = Some (snd p)"
  by (cases p) (simp add: map_find_iff)

lemma state_ok_sound:
  assumes ok: "state_ok st" and fits: "state_fits st"
  shows "state_sound st"
proof -
  have users: "keyed u_id (ts_users st)"
    using state_okD(2,5) [OF ok] by (auto simp: keyed_def dest: map_ok_in)
  have g: "group_ok (has_key (ts_users st)) (fst p) (snd p)" if "p \<in> set (ts_groups st)" for p
    using state_okD(4) [OF ok map_ok_in [OF state_okD(3) [OF ok] that]] .
  have groups: "keyed g_id (ts_groups st)"
    using g state_okD(3) [OF ok] by (auto simp: keyed_def group_ok_def)
  have sound: "group_sound (snd p)" if p: "p \<in> set (ts_groups st)" for p
  proof -
    note gp = g [OF p]
    have f: "file_ok (has_key (ts_users st)) (fst q) (snd q)" if "q \<in> set (g_files (snd p))" for q
      using group_okD(6) [OF gp map_ok_in [OF group_okD(3) [OF gp] that]] .
    have "group_fits (snd p)" using fits p by (auto simp: state_fits_def list_all_iff)
    moreover have "keyed fm_name (g_files (snd p))"
      using f group_okD(3) [OF gp] by (auto simp: keyed_def file_ok_def)
    moreover have "keyed pr_user_id (fm_seeders (snd q))" if "q \<in> set (g_files (snd p))" for q
      using f [OF that] by (auto simp: keyed_def file_ok_def dest: map_ok_in)
    ultimately show ?thesis
      using group_okD(1,2) [OF gp]
      by (auto simp: group_sound_def file_sound_def group_fits_def list_all_iff)
  qed
  show ?thesis using users groups sound fits by (simp add: state_sound_def list_all_iff)
qed

lemma restore_snapshot: "state_ok st \<Longrightarrow> state_fits st \<Longrightarrow> restore (snapshot st) old = (True, st)"
  using rd_snapshot [OF state_ok_sound, of st "[]"] by (simp add: restore_def)

section \<open>The property of the snapshot\<close>

text \<open>C26. A tracker that restores the snapshot of another arrives in exactly the other's state, whatever its own was: users,
  groups, applicants, files, piece hashes and seeders with their bitmaps (as long as no length exceeds 32 bits).\<close>

theorem snapshot_roundtrip:
  assumes "state_fits (fold step cs new_tracker)"
  shows "restore (snapshot (fold step cs new_tracker)) old = (True, fold step cs new_tracker)"
  using run_ok assms by (rule restore_snapshot)

theorem snapshot_roundtrip_witness:
  "restore (snapshot (fold step sample_commands new_tracker)) new_tracker = (True, fold step sample_commands new_tracker)"
  by (rule snapshot_roundtrip)
    (simp add: sample_state state_fits_def user_fits_def group_fits_def file_fits_def peer_fits_def len_ok_def
      str_ok_def hash_password_def)

end
