(* ===== verification/Tracker_Sync.thy ===== *)
theory Tracker_Sync
  imports Tracker_Snapshot
begin

text \<open>
  \<open>tracker/sync.hpp\<close> and \<open>tracker/sync.cpp\<close>: the operation log of one tracker and the messages it exchanges
  with the other. A step of \<open>SyncManager\<close> returns the new state and what it sends: the descriptor, the opcode and
  the payload of each message, in order (the code ignores whether a send succeeds). \<open>now\<close> is the clock.

  The two ends of the link coming up and going down are steps of their own; the threads around them (\<open>start\<close>, \<open>stop\<close>, the
  retry loop, the blocking reads) are in theories \<open>Sync_Link\<close> and \<open>Accepted_Connections\<close>, the interleaving of the session threads in
  \<open>Tracker_Threads\<close>.
\<close>

record sync_op =
  op_seq :: u64
  op_type :: u16
  op_payload :: bytes
  op_ts :: u64

record sync_mgr =
  sm_next_seq :: u64
  sm_applied :: u64
  sm_log :: "sync_op list"
  sm_out_fd :: int

record tracker =
  tr_state :: tracker_state
  tr_sync :: sync_mgr

type_synonym sends = "(int \<times> u16 \<times> bytes) list"

definition new_sync :: sync_mgr where
  "new_sync = \<lparr>sm_next_seq = 1, sm_applied = 0, sm_log = [], sm_out_fd = -1\<rparr>"

definition started :: tracker where
  "started = \<lparr>tr_state = new_tracker, tr_sync = new_sync\<rparr>"

section \<open>Recording\<close>

definition op_bytes :: "sync_op \<Rightarrow> bytes" where
  "op_bytes op =
    (let b = new_buf;
         b = put_u64 (op_seq op) b;
         b = put_u16 (op_type op) b;
         b = put_u64 (op_ts op) b
     in buf_data (put_str (op_payload op) b))"

definition send_op :: "int \<Rightarrow> sync_op \<Rightarrow> int \<times> u16 \<times> bytes" where
  "send_op fd op = (fd, msg_code MSG_SYNC_OP, op_bytes op)"

definition record_and_replicate :: "u64 \<Rightarrow> u16 \<Rightarrow> bytes \<Rightarrow> sync_mgr \<Rightarrow> sync_mgr \<times> sends" where
  "record_and_replicate now type payload m =
    (let op = \<lparr>op_seq = sm_next_seq m, op_type = type, op_payload = payload, op_ts = now\<rparr>;
         m' = m\<lparr>sm_next_seq := sm_next_seq m + 1, sm_log := sm_log m @ [op]\<rparr>
     in if sm_out_fd m < 0 then (m', []) else (m', [send_op (sm_out_fd m) op]))"

definition send_catchup_from :: "int \<Rightarrow> u64 \<Rightarrow> sync_mgr \<Rightarrow> sends" where
  "send_catchup_from fd after m = map (send_op fd) (filter (\<lambda>op. op_seq op > after) (sm_log m))"

section \<open>Applying what the peer sends\<close>

text \<open>The fields of an \<open>MSG_UPLOAD_FILE\<close> payload, up to the piece hashes.\<close>

definition rd_upload :: "buffer \<Rightarrow> ((bytes \<times> file_meta) \<times> buffer) option" where
  "rd_upload b = do {
     (gid, b) \<leftarrow> rd get_str b;
     (name, b) \<leftarrow> rd get_str b;
     (size, b) \<leftarrow> rd get_u64 b;
     (hash, b) \<leftarrow> rd get_str b;
     (pc, b) \<leftarrow> rd get_u32 b;
     (hs, b) \<leftarrow> rd_list (rd get_str) (unat pc) b;
     Some ((gid, \<lparr>fm_name = name, fm_size = size, fm_hash = hash, fm_piece_hashes = hs, fm_seeders = []\<rparr>), b) }"

text \<open>The fields of an \<open>MSG_HAVE_PIECES\<close> payload.\<close>

definition rd_have :: "buffer \<Rightarrow> ((bytes \<times> bytes \<times> bytes) \<times> buffer) option" where
  "rd_have b = do {
     (gid, b) \<leftarrow> rd get_str b;
     (fname, b) \<leftarrow> rd get_str b;
     (nbits, b) \<leftarrow> rd get_u32 b;
     (bits, b) \<leftarrow> rd_bits nbits b;
     Some ((gid, fname, bits), b) }"

definition rd_str2 :: "buffer \<Rightarrow> ((bytes \<times> bytes) \<times> buffer) option" where
  "rd_str2 b = do { (x, b) \<leftarrow> rd get_str b; (y, b) \<leftarrow> rd get_str b; Some ((x, y), b) }"

definition rd_str3 :: "buffer \<Rightarrow> ((bytes \<times> bytes \<times> bytes) \<times> buffer) option" where
  "rd_str3 b = do {
     (x, b) \<leftarrow> rd get_str b; (y, b) \<leftarrow> rd get_str b; (z, b) \<leftarrow> rd get_str b; Some ((x, y, z), b) }"

text \<open>The suffix that \<open>Session\<close> appends to file operations: who, and where from.\<close>

definition rd_origin :: "buffer \<Rightarrow> ((bytes \<times> bytes \<times> u16) \<times> buffer) option" where
  "rd_origin b = do {
     (uid, b) \<leftarrow> rd get_str b; (ip, b) \<leftarrow> rd get_str b; (port, b) \<leftarrow> rd get_u16 b; Some ((uid, ip, port), b) }"

definition accept :: "status list \<Rightarrow> status \<times> tracker_state \<Rightarrow> bool \<times> tracker_state" where
  "accept oks r = (fst r \<in> set oks, snd r)"

definition apply_remote :: "sync_op \<Rightarrow> tracker_state \<Rightarrow> bool \<times> tracker_state" where
  "apply_remote op st =
    (let b = of_bytes (op_payload op) in
     case msg_of (op_type op) of
       Some MSG_CREATE_USER \<Rightarrow>
         (case rd_str2 b of
            None \<Rightarrow> (False, st)
          | Some ((uid, pwd), _) \<Rightarrow> accept [ST_OK, ST_ALREADY_EXISTS] (create_user uid pwd st))
     | Some MSG_CREATE_GROUP \<Rightarrow>
         (case rd_str2 b of
            None \<Rightarrow> (False, st)
          | Some ((gid, owner), _) \<Rightarrow> accept [ST_OK, ST_ALREADY_EXISTS] (create_group gid owner st))
     | Some MSG_JOIN_GROUP \<Rightarrow>
         (case rd_str2 b of
            None \<Rightarrow> (False, st)
          | Some ((gid, uid), _) \<Rightarrow> accept [ST_OK, ST_ALREADY_EXISTS] (join_group gid uid st))
     | Some MSG_LEAVE_GROUP \<Rightarrow>
         (case rd_str2 b of
            None \<Rightarrow> (False, st)
          | Some ((gid, uid), _) \<Rightarrow> accept [ST_OK, ST_NOT_MEMBER] (leave_group gid uid st))
     | Some MSG_ACCEPT_REQUEST \<Rightarrow>
         (case rd_str3 b of
            None \<Rightarrow> (False, st)
          | Some ((gid, owner, uid), _) \<Rightarrow> accept [ST_OK, ST_NOT_FOUND] (accept_request gid owner uid st))
     | Some MSG_UPLOAD_FILE \<Rightarrow>
         (case rd_upload b of
            None \<Rightarrow> (False, st)
          | Some ((gid, meta), b) \<Rightarrow>
              (case rd_origin b of
                 None \<Rightarrow> (False, st)
               | Some ((uid, ip, port), _) \<Rightarrow>
                   accept [ST_OK, ST_ALREADY_EXISTS] (add_file gid uid ip port meta st)))
     | Some MSG_STOP_SHARE \<Rightarrow>
         (case rd_str3 b of
            None \<Rightarrow> (False, st)
          | Some ((gid, fname, uid), _) \<Rightarrow> accept [ST_OK, ST_NOT_FOUND] (stop_share gid uid fname st))
     | Some MSG_HAVE_PIECES \<Rightarrow>
         (case rd_have b of
            None \<Rightarrow> (False, st)
          | Some ((gid, fname, bits), b) \<Rightarrow>
              (case rd_origin b of
                 None \<Rightarrow> (False, st)
               | Some ((uid, ip, port), _) \<Rightarrow> accept [ST_OK] (update_bitfield gid uid ip port fname bits st)))
     | _ \<Rightarrow> (False, st))"

definition rd_op :: "buffer \<Rightarrow> (sync_op \<times> buffer) option" where
  "rd_op b = do {
     (sq, b) \<leftarrow> rd get_u64 b;
     (ty, b) \<leftarrow> rd get_u16 b;
     (ts, b) \<leftarrow> rd get_u64 b;
     (p, b) \<leftarrow> rd get_str b;
     Some (\<lparr>op_seq = sq, op_type = ty, op_payload = p, op_ts = ts\<rparr>, b) }"

definition seq_bytes :: "u64 \<Rightarrow> bytes" where
  "seq_bytes s = buf_data (put_u64 s new_buf)"

text \<open>\<open>while (!log.empty() && log.front().seq <= seq) log.pop_front()\<close>.\<close>

definition trim_log :: "u64 \<Rightarrow> sync_op list \<Rightarrow> sync_op list" where
  "trim_log sq l = dropWhile (\<lambda>op. op_seq op \<le> sq) l"

definition process_peer_message :: "int \<Rightarrow> u16 \<Rightarrow> bytes \<Rightarrow> tracker \<Rightarrow> tracker \<times> sends" where
  "process_peer_message fd type payload t =
    (case msg_of type of
       Some MSG_SYNC_HELLO \<Rightarrow> (t, [])
     | Some MSG_SYNC_CATCHUP \<Rightarrow>
         (case rd get_u64 (of_bytes payload) of
            None \<Rightarrow> (t, [])
          | Some (after, _) \<Rightarrow> (t, send_catchup_from fd after (tr_sync t)))
     | Some MSG_SYNC_OP \<Rightarrow>
         (case rd_op (of_bytes payload) of
            None \<Rightarrow> (t, [])
          | Some (op, _) \<Rightarrow>
              (let (ok, st) = apply_remote op (tr_state t);
                   m = tr_sync t;
                   m' = (if ok \<and> op_seq op > sm_applied m then m\<lparr>sm_applied := op_seq op\<rparr> else m)
               in (t\<lparr>tr_state := st, tr_sync := m'\<rparr>,
                   [(fd, msg_code MSG_SYNC_ACK, seq_bytes (op_seq op))])))
     | Some MSG_SYNC_ACK \<Rightarrow>
         (case rd get_u64 (of_bytes payload) of
            None \<Rightarrow> (t, [])
          | Some (sq, _) \<Rightarrow>
              (t\<lparr>tr_sync := (tr_sync t)\<lparr>sm_log := trim_log sq (sm_log (tr_sync t))\<rparr>\<rparr>, []))
     | Some MSG_SYNC_SNAPSHOT_REQUEST \<Rightarrow>
         (t, [(fd, msg_code MSG_SYNC_SNAPSHOT_DATA, snapshot (tr_state t))])
     | Some MSG_SYNC_SNAPSHOT_DATA \<Rightarrow> (t\<lparr>tr_state := snd (restore payload (tr_state t))\<rparr>, [])
     | _ \<Rightarrow> (t, []))"

section \<open>The link\<close>

definition set_fd :: "int \<Rightarrow> tracker \<Rightarrow> tracker" where
  "set_fd fd t = t\<lparr>tr_sync := (tr_sync t)\<lparr>sm_out_fd := fd\<rparr>\<rparr>"

text \<open>\<open>connect_loop\<close> of the tracker with index 0, after \<open>tcp_connect\<close>: hello, then a request.\<close>

definition dialer_up :: "int \<Rightarrow> u8 \<Rightarrow> tracker \<Rightarrow> tracker \<times> sends" where
  "dialer_up fd self_index t =
    (set_fd fd t,
     (fd, msg_code MSG_SYNC_HELLO, buf_data (put_u8 self_index new_buf)) #
     [if ts_empty (tr_state t) then (fd, msg_code MSG_SYNC_SNAPSHOT_REQUEST, [])
      else (fd, msg_code MSG_SYNC_CATCHUP, seq_bytes (sm_applied (tr_sync t)))])"

definition dialer_down :: "tracker \<Rightarrow> tracker" where
  "dialer_down t = (if sm_out_fd (tr_sync t) \<ge> 0 then set_fd (-1) t else t)"

text \<open>\<open>handle_peer_connection\<close> before and after its read loop.\<close>

definition acceptor_up :: "int \<Rightarrow> tracker \<Rightarrow> tracker \<times> sends" where
  "acceptor_up fd t =
    (set_fd fd t, if ts_empty (tr_state t) then [(fd, msg_code MSG_SYNC_SNAPSHOT_REQUEST, [])] else [])"

definition acceptor_down :: "int \<Rightarrow> tracker \<Rightarrow> tracker" where
  "acceptor_down fd t = (if sm_out_fd (tr_sync t) = fd then set_fd (-1) t else t)"

section \<open>Operations on the wire\<close>

definition op_fits :: "sync_op \<Rightarrow> bool" where
  "op_fits op = str_ok (op_payload op)"

definition enc_op :: "sync_op \<Rightarrow> bytes" where
  "enc_op op = enc_u64 (op_seq op) @ enc_u16 (op_type op) @ enc_u64 (op_ts op) @ enc_str (op_payload op)"

interpretation op_reader: wire_reader enc_op rd_op op_fits
  by unfold_locales (auto simp: rd_op_def enc_op_def op_fits_def wire)

lemma op_bytes_enc: "op_bytes op = enc_op op"
  by (simp add: op_bytes_def enc_op_def)

lemma seq_bytes_enc: "seq_bytes s = enc_u64 s"
  by (simp add: seq_bytes_def)

lemma rd_op_bytes [simp]: "op_fits op \<Longrightarrow> rd_op (of_bytes (op_bytes op)) = Some (op, buf_at (op_bytes op) [])"
  using op_reader.dec_enc_end [where x = op and pre = "[]"] by (simp add: op_bytes_enc of_bytes_at)

lemma rd_seq_bytes [simp]: "rd get_u64 (of_bytes (seq_bytes s)) = Some (s, buf_at (seq_bytes s) [])"
  using u64_codec.dec_enc_end [where x = s and pre = "[]"] by (simp add: seq_bytes_enc of_bytes_at)

section \<open>The log\<close>

text \<open>
  Sequence numbers in the log increase and are below the next one (as long as the 64-bit counter has not
  wrapped around).
\<close>

definition sync_ok :: "sync_mgr \<Rightarrow> bool" where
  "sync_ok m \<longleftrightarrow> sorted_wrt (<) (map op_seq (sm_log m)) \<and> (\<forall>op \<in> set (sm_log m). op_seq op < sm_next_seq m)"

lemma sync_ok_new: "sync_ok new_sync"
  by (simp add: sync_ok_def new_sync_def)

lemma next_seq_less: "(n :: u64) \<noteq> - 1 \<Longrightarrow> n < n + 1"
proof -
  assume "n \<noteq> - 1"
  then have "1 + n \<noteq> 0" by (simp add: eq_neg_iff_add_eq_0 add.commute)
  then have "unat (1 + n) = Suc (unat n)" by (rule unatSuc)
  then show ?thesis by (simp add: word_less_nat_alt add.commute)
qed

lemma sync_ok_record:
  assumes "sync_ok m" and "sm_next_seq m \<noteq> - 1"
  shows "sync_ok (fst (record_and_replicate now type payload m))"
  using assms next_seq_less [OF assms(2)]
  by (auto simp: sync_ok_def record_and_replicate_def Let_def sorted_wrt_append)

lemma trim_log_filter:
  "sorted_wrt (<) (map op_seq l) \<Longrightarrow> trim_log sq l = filter (\<lambda>op. op_seq op > sq) l"
proof (induction l)
  case (Cons op l)
  show ?case
  proof (cases "op_seq op \<le> sq")
    case True
    then show ?thesis using Cons by (simp add: trim_log_def)
  next
    case False
    then have "\<forall>x \<in> set l. sq < op_seq x" using Cons.prems by auto
    then have "filter (\<lambda>op. op_seq op > sq) l = l" by simp
    then show ?thesis using False by (simp add: trim_log_def)
  qed
qed (simp add: trim_log_def)

lemma sync_ok_trim: "sync_ok m \<Longrightarrow> sync_ok (m\<lparr>sm_log := trim_log sq (sm_log m)\<rparr>)"
  by (auto simp: sync_ok_def trim_log_filter sorted_wrt_filter sorted_wrt_map)

lemma sync_ok_process: "sync_ok (tr_sync t) \<Longrightarrow> sync_ok (tr_sync (fst (process_peer_message fd type payload t)))"
  by (auto simp: process_peer_message_def Let_def sync_ok_trim sync_ok_trim [unfolded sync_ok_def]
      split: option.splits msg_type.splits prod.splits) (simp_all add: sync_ok_def)

section \<open>Remote operations keep the state sound\<close>

lemma snd_accept [simp]: "snd (accept oks r) = snd r"
  by (simp add: accept_def)

text \<open>The command that an operation of the peer stands for, if its payload decodes.\<close>

definition op_cmd :: "sync_op \<Rightarrow> tracker_cmd option" where
  "op_cmd op =
    (let b = of_bytes (op_payload op) in
     case msg_of (op_type op) of
       Some MSG_CREATE_USER \<Rightarrow> map_option (\<lambda>((uid, pwd), _). CreateUser uid pwd) (rd_str2 b)
     | Some MSG_CREATE_GROUP \<Rightarrow> map_option (\<lambda>((gid, owner), _). CreateGroup gid owner) (rd_str2 b)
     | Some MSG_JOIN_GROUP \<Rightarrow> map_option (\<lambda>((gid, uid), _). JoinGroup gid uid) (rd_str2 b)
     | Some MSG_LEAVE_GROUP \<Rightarrow> map_option (\<lambda>((gid, uid), _). LeaveGroup gid uid) (rd_str2 b)
     | Some MSG_ACCEPT_REQUEST \<Rightarrow>
         map_option (\<lambda>((gid, owner, uid), _). AcceptRequest gid owner uid) (rd_str3 b)
     | Some MSG_UPLOAD_FILE \<Rightarrow>
         do { ((gid, meta), b) \<leftarrow> rd_upload b; ((uid, ip, port), b) \<leftarrow> rd_origin b;
              Some (AddFile gid uid ip port meta) }
     | Some MSG_STOP_SHARE \<Rightarrow> map_option (\<lambda>((gid, fname, uid), _). StopShare gid uid fname) (rd_str3 b)
     | Some MSG_HAVE_PIECES \<Rightarrow>
         do { ((gid, fname, bits), b) \<leftarrow> rd_have b; ((uid, ip, port), b) \<leftarrow> rd_origin b;
              Some (UpdateBitfield gid uid ip port fname bits) }
     | _ \<Rightarrow> None)"

lemma apply_remote_cmd:
  "snd (apply_remote op st) = (case op_cmd op of None \<Rightarrow> st | Some c \<Rightarrow> step c st)"
proof (cases "msg_of (op_type op)")
  case (Some m)
  then show ?thesis
    by (cases m) (simp_all add: apply_remote_def op_cmd_def Let_def step_def split: option.split prod.split)
qed (simp add: apply_remote_def op_cmd_def)

lemma apply_remote_ok:
  assumes "op_cmd op = Some c" and "fst (exec c st) = ST_OK"
  shows "fst (apply_remote op st)"
proof (cases "msg_of (op_type op)")
  case (Some m)
  then show ?thesis
    using assms
    by (cases m) (auto simp: apply_remote_def op_cmd_def Let_def accept_def bind_eq_Some_conv)
qed (use assms in \<open>simp add: op_cmd_def\<close>)

lemma op_cmd_replicated: "op_cmd op = Some c \<Longrightarrow> replicated c"
proof (cases "msg_of (op_type op)")
  case (Some m)
  assume "op_cmd op = Some c"
  then show ?thesis
    using Some by (cases m) (auto simp: op_cmd_def bind_eq_Some_conv)
qed (simp add: op_cmd_def)

lemma apply_remote_keeps: "state_ok st \<Longrightarrow> state_ok (snd (apply_remote op st))"
  by (simp add: apply_remote_cmd membership.ok_step split: option.split)

section \<open>The properties of replication\<close>

text \<open>An operation that one tracker sends is decoded by the other as it was recorded, applied to its state, and
  acknowledged with its sequence number.\<close>

lemma op_applied_and_acked:
  assumes "length (op_payload op) < 2 ^ 32"
  shows "tr_state (fst (process_peer_message fd (msg_code MSG_SYNC_OP) (op_bytes op) t)) = snd (apply_remote op (tr_state t)) \<and>
    snd (process_peer_message fd (msg_code MSG_SYNC_OP) (op_bytes op) t) =
      [(fd, msg_code MSG_SYNC_ACK, seq_bytes (op_seq op))]"
  using assms by (simp add: process_peer_message_def op_fits_def str_ok_def Let_def split_beta)

text \<open>The log stays in increasing order of sequence numbers below the next one, through recording and through every message
  of the peer, as long as the 64-bit counter does not wrap; an acknowledgement removes exactly the operations it covers.\<close>

lemma log_invariant:
  assumes "sync_ok (tr_sync t)" and "sm_next_seq (tr_sync t) \<noteq> - 1"
  shows "sync_ok (fst (record_and_replicate now type payload (tr_sync t))) \<and>
    sync_ok (tr_sync (fst (process_peer_message fd type' payload' t))) \<and>
    sm_log (tr_sync (fst (process_peer_message fd (msg_code MSG_SYNC_ACK) (seq_bytes sq) t))) =
      filter (\<lambda>op. op_seq op > sq) (sm_log (tr_sync t))"
  using sync_ok_record [OF assms] sync_ok_process [OF assms(1)] assms(1)
  by (simp add: process_peer_message_def sync_ok_def trim_log_filter)

text \<open>What the peer's tracker does with a sequence of messages.\<close>

definition receive_all :: "int \<Rightarrow> sends \<Rightarrow> tracker \<Rightarrow> tracker" where
  "receive_all fd ms t = fold (\<lambda>(_, type, payload) t. fst (process_peer_message fd type payload t)) ms t"

definition apply_ops :: "sync_op list \<Rightarrow> tracker_state \<Rightarrow> tracker_state" where
  "apply_ops ops st = fold (\<lambda>op st. snd (apply_remote op st)) ops st"

lemma receive_ops:
  "list_all op_fits ops \<Longrightarrow> tr_state (receive_all fd (map (send_op fd') ops) t) = apply_ops ops (tr_state t)"
proof (induction ops arbitrary: t)
  case (Cons op ops)
  have "tr_state (fst (process_peer_message fd (msg_code MSG_SYNC_OP) (op_bytes op) t)) = snd (apply_remote op (tr_state t))"
    using Cons.prems by (simp add: process_peer_message_def Let_def split_beta)
  then show ?case using Cons by (simp add: receive_all_def apply_ops_def send_op_def)
qed (simp add: receive_all_def apply_ops_def)

lemma log_split: "sorted_wrt (<) (map op_seq l) \<Longrightarrow>
    l = filter (\<lambda>op. op_seq op \<le> after) l @ filter (\<lambda>op. op_seq op > after) l"
proof (induction l)
  case (Cons op l)
  show ?case
  proof (cases "op_seq op \<le> after")
    case True
    then show ?thesis using Cons by (simp add: not_less)
  next
    case False
    have "\<forall>x \<in> set l. after < op_seq x" using Cons.prems False by (auto simp: not_le)
    then have "filter (\<lambda>op. op_seq op \<le> after) l = []" "filter (\<lambda>op. op_seq op > after) l = l"
      by (auto simp: filter_empty_conv not_le)
    then show ?thesis using False by (simp add: not_le)
  qed
qed simp

text \<open>The answer to a catch-up request brings the asking tracker up to date: it applies, in order, exactly the logged operations
  with a higher number than the one it names. A tracker that had applied the operations up to that number then is where it would
  be had it applied the whole log.\<close>

lemma catchup_delivers:
  assumes "sync_ok m" and "list_all op_fits (sm_log m)"
    and "tr_state t = apply_ops (filter (\<lambda>op. op_seq op \<le> after) (sm_log m)) st"
  shows "tr_state (receive_all fd (send_catchup_from fd' after m) t) = apply_ops (sm_log m) st"
proof -
  let ?l = "sm_log m"
  have "?l = filter (\<lambda>op. op_seq op \<le> after) ?l @ filter (\<lambda>op. op_seq op > after) ?l"
    using assms(1) unfolding sync_ok_def by (blast intro: log_split)
  moreover have "tr_state (receive_all fd (send_catchup_from fd' after m) t) =
      apply_ops (filter (\<lambda>op. op_seq op > after) ?l) (tr_state t)"
    unfolding send_catchup_from_def using assms(2) by (intro receive_ops) (auto simp: list_all_iff)
  ultimately show ?thesis using assms(3) by (metis apply_ops_def fold_append o_apply)
qed

lemma catchup_delivers_witness:
  "tr_state (receive_all 4 (send_catchup_from 3 0
      (new_sync\<lparr>sm_log := [\<lparr>op_seq = 1, op_type = 0x0101, op_payload = [1], op_ts = 0\<rparr>], sm_next_seq := 2\<rparr>)) started) =
    apply_ops [\<lparr>op_seq = 1, op_type = 0x0101, op_payload = [1], op_ts = 0\<rparr>] new_tracker"
  using catchup_delivers
    [of "new_sync\<lparr>sm_log := [\<lparr>op_seq = 1, op_type = 0x0101, op_payload = [1], op_ts = 0\<rparr>], sm_next_seq := 2\<rparr>" started 0 new_tracker]
  by (simp add: sync_ok_def op_fits_def started_def apply_ops_def str_ok_def)

text \<open>An operation that the receiving tracker fails to apply is acknowledged like any other (so that the sender drops it from its
  log), while the receiver does not count it as applied.\<close>

lemma failed_op_still_acked:
  assumes "length (op_payload op) < 2 ^ 32" and "\<not> fst (apply_remote op (tr_state t))"
  shows "snd (process_peer_message fd (msg_code MSG_SYNC_OP) (op_bytes op) t) =
      [(fd, msg_code MSG_SYNC_ACK, seq_bytes (op_seq op))] \<and>
    tr_sync (fst (process_peer_message fd (msg_code MSG_SYNC_OP) (op_bytes op) t)) = tr_sync t"
  using assms by (simp add: process_peer_message_def op_fits_def str_ok_def Let_def split_beta)

end
