(* ===== verification/Tracker_Session.thy ===== *)
theory Tracker_Session
  imports Tracker_Sync
begin

text \<open>
  \<open>tracker/session.hpp\<close> and \<open>tracker/session.cpp\<close>: one client connection of a tracker. \<open>dispatch\<close> handles one
  request: it returns the session, the tracker, the reply (status and payload of the one \<open>MSG_RESPONSE\<close>) and
  what the tracker sends to its peer.
\<close>

record session =
  ss_peer_ip :: bytes
  ss_user :: bytes
  ss_seed_port :: u16

definition new_session :: "bytes \<Rightarrow> session" where
  "new_session ip = \<lparr>ss_peer_ip = ip, ss_user = [], ss_seed_port = 0\<rparr>"

type_synonym outcome = "session \<times> tracker \<times> (status \<times> bytes) \<times> sends"

definition reply :: "status \<Rightarrow> session \<Rightarrow> tracker \<Rightarrow> outcome" where
  "reply s ss t = (ss, t, (s, []), [])"

text \<open>
  \<open>Status s = state.op(...); if (s == ST_OK) sync.record_and_replicate(type, rep); reply(s);\<close>
\<close>

definition commit :: "u64 \<Rightarrow> msg_type \<Rightarrow> bytes \<Rightarrow> status \<times> tracker_state \<Rightarrow> session \<Rightarrow> tracker \<Rightarrow> outcome" where
  "commit now type rep r ss t =
    (if fst r = ST_OK then
       (let (m, out) = record_and_replicate now (msg_code type) rep (tr_sync t)
        in (ss, \<lparr>tr_state = snd r, tr_sync = m\<rparr>, (ST_OK, []), out))
     else (ss, t\<lparr>tr_state := snd r\<rparr>, (fst r, []), []))"

definition strs_bytes :: "bytes list \<Rightarrow> bytes" where
  "strs_bytes xs = buf_data (fold put_str xs (put_u32 (of_nat (length xs)) new_buf))"

definition meta_bytes :: "file_meta \<Rightarrow> bytes" where
  "meta_bytes fm =
    (let out = put_u64 (fm_size fm) new_buf;
         out = put_str (fm_hash fm) out;
         out = put_u32 (of_nat (length (fm_piece_hashes fm))) out;
         out = fold put_str (fm_piece_hashes fm) out;
         out = put_u32 (of_nat (length (fm_seeders fm))) out
     in buf_data (fold (put_peer \<circ> snd) (fm_seeders fm) out))"

definition with_origin :: "bytes \<Rightarrow> session \<Rightarrow> bytes" where
  "with_origin payload ss =
    (let rep = put_str (ss_user ss) (of_bytes payload);
         rep = put_str (ss_peer_ip ss) rep
     in buf_data (put_u16 (ss_seed_port ss) rep))"

definition no_meta :: file_meta where
  "no_meta = \<lparr>fm_name = [], fm_size = 0, fm_hash = [], fm_piece_hashes = [], fm_seeders = []\<rparr>"

definition do_login :: "buffer \<Rightarrow> session \<Rightarrow> tracker \<Rightarrow> outcome" where
  "do_login b ss t =
    (case do { ((uid, pwd), b) \<leftarrow> rd_str2 b; (port, b) \<leftarrow> rd get_u16 b; Some (uid, pwd, port) } of
       None \<Rightarrow> reply ST_MALFORMED ss t
     | Some (uid, pwd, port) \<Rightarrow>
         (let r = login uid pwd (ss_peer_ip ss) port (tr_state t)
          in (if fst r = ST_OK then ss\<lparr>ss_user := uid, ss_seed_port := port\<rparr> else ss,
              t\<lparr>tr_state := snd r\<rparr>, (fst r, []), [])))"

definition do_logout :: "session \<Rightarrow> tracker \<Rightarrow> outcome" where
  "do_logout ss t =
    (let r = logout (ss_user ss) (tr_state t)
     in (ss\<lparr>ss_user := []\<rparr>, t\<lparr>tr_state := snd r\<rparr>, (fst r, []), []))"

text \<open>The requests that name a group only and change its members.\<close>

definition group_request ::
    "u64 \<Rightarrow> msg_type \<Rightarrow> (bytes \<Rightarrow> bytes \<Rightarrow> tracker_state \<Rightarrow> status \<times> tracker_state) \<Rightarrow>
     buffer \<Rightarrow> session \<Rightarrow> tracker \<Rightarrow> outcome" where
  "group_request now type f b ss t =
    (case rd get_str b of
       None \<Rightarrow> reply ST_MALFORMED ss t
     | Some (gid, _) \<Rightarrow>
         commit now type (buf_data (put_str (ss_user ss) (put_str gid new_buf)))
           (f gid (ss_user ss) (tr_state t)) ss t)"

text \<open>The requests that ask for a list of names.\<close>

definition list_request ::
    "(bytes \<Rightarrow> bytes \<Rightarrow> bytes list \<Rightarrow> tracker_state \<Rightarrow> status \<times> bytes list) \<Rightarrow>
     buffer \<Rightarrow> session \<Rightarrow> tracker \<Rightarrow> outcome" where
  "list_request f b ss t =
    (case rd get_str b of
       None \<Rightarrow> reply ST_MALFORMED ss t
     | Some (gid, _) \<Rightarrow>
         (let r = f gid (ss_user ss) [] (tr_state t)
          in (ss, t, if fst r \<noteq> ST_OK then (fst r, []) else (ST_OK, strs_bytes (snd r)), [])))"

definition do_accept :: "u64 \<Rightarrow> buffer \<Rightarrow> session \<Rightarrow> tracker \<Rightarrow> outcome" where
  "do_accept now b ss t =
    (case rd_str2 b of
       None \<Rightarrow> reply ST_MALFORMED ss t
     | Some ((gid, uid), _) \<Rightarrow>
         commit now MSG_ACCEPT_REQUEST
           (buf_data (put_str uid (put_str (ss_user ss) (put_str gid new_buf))))
           (accept_request gid (ss_user ss) uid (tr_state t)) ss t)"

definition do_upload :: "u64 \<Rightarrow> bytes \<Rightarrow> session \<Rightarrow> tracker \<Rightarrow> outcome" where
  "do_upload now payload ss t =
    (case rd_upload (of_bytes payload) of
       None \<Rightarrow> reply ST_MALFORMED ss t
     | Some ((gid, meta), _) \<Rightarrow>
         commit now MSG_UPLOAD_FILE (with_origin payload ss)
           (add_file gid (ss_user ss) (ss_peer_ip ss) (ss_seed_port ss) meta (tr_state t)) ss t)"

definition do_get_meta :: "buffer \<Rightarrow> session \<Rightarrow> tracker \<Rightarrow> outcome" where
  "do_get_meta b ss t =
    (case rd_str2 b of
       None \<Rightarrow> reply ST_MALFORMED ss t
     | Some ((gid, fname), _) \<Rightarrow>
         (let r = get_file gid (ss_user ss) fname no_meta (tr_state t)
          in (ss, t, if fst r \<noteq> ST_OK then (fst r, []) else (ST_OK, meta_bytes (snd r)), [])))"

definition do_stop_share :: "u64 \<Rightarrow> bytes \<Rightarrow> session \<Rightarrow> tracker \<Rightarrow> outcome" where
  "do_stop_share now payload ss t =
    (case rd_str2 (of_bytes payload) of
       None \<Rightarrow> reply ST_MALFORMED ss t
     | Some ((gid, fname), _) \<Rightarrow>
         commit now MSG_STOP_SHARE (buf_data (put_str (ss_user ss) (of_bytes payload)))
           (stop_share gid (ss_user ss) fname (tr_state t)) ss t)"

definition do_have :: "u64 \<Rightarrow> bytes \<Rightarrow> session \<Rightarrow> tracker \<Rightarrow> outcome" where
  "do_have now payload ss t =
    (case rd_have (of_bytes payload) of
       None \<Rightarrow> reply ST_MALFORMED ss t
     | Some ((gid, fname, bits), _) \<Rightarrow>
         commit now MSG_HAVE_PIECES (with_origin payload ss)
           (update_bitfield gid (ss_user ss) (ss_peer_ip ss) (ss_seed_port ss) fname bits (tr_state t)) ss t)"

definition do_create_user :: "u64 \<Rightarrow> bytes \<Rightarrow> session \<Rightarrow> tracker \<Rightarrow> outcome" where
  "do_create_user now payload ss t =
    (case rd_str2 (of_bytes payload) of
       None \<Rightarrow> reply ST_MALFORMED ss t
     | Some ((uid, pwd), _) \<Rightarrow>
         commit now MSG_CREATE_USER payload (create_user uid pwd (tr_state t)) ss t)"

definition dispatch :: "u64 \<Rightarrow> u16 \<Rightarrow> bytes \<Rightarrow> session \<Rightarrow> tracker \<Rightarrow> outcome" where
  "dispatch now type payload ss t =
    (let b = of_bytes payload;
         logged_in = (\<lambda>r. if ss_user ss = [] then reply ST_NOT_LOGGED_IN ss t else r)
     in case msg_of type of
       Some MSG_CREATE_USER \<Rightarrow> do_create_user now payload ss t
     | Some MSG_LOGIN \<Rightarrow> do_login b ss t
     | Some MSG_LOGOUT \<Rightarrow> logged_in (do_logout ss t)
     | Some MSG_LIST_GROUPS \<Rightarrow> logged_in (ss, t, (ST_OK, strs_bytes (list_groups (tr_state t))), [])
     | Some MSG_CREATE_GROUP \<Rightarrow> logged_in (group_request now MSG_CREATE_GROUP create_group b ss t)
     | Some MSG_JOIN_GROUP \<Rightarrow> logged_in (group_request now MSG_JOIN_GROUP join_group b ss t)
     | Some MSG_LEAVE_GROUP \<Rightarrow> logged_in (group_request now MSG_LEAVE_GROUP leave_group b ss t)
     | Some MSG_LIST_REQUESTS \<Rightarrow> logged_in (list_request list_requests b ss t)
     | Some MSG_ACCEPT_REQUEST \<Rightarrow> logged_in (do_accept now b ss t)
     | Some MSG_UPLOAD_FILE \<Rightarrow> logged_in (do_upload now payload ss t)
     | Some MSG_LIST_FILES \<Rightarrow> logged_in (list_request list_files b ss t)
     | Some MSG_GET_FILE_META \<Rightarrow> logged_in (do_get_meta b ss t)
     | Some MSG_STOP_SHARE \<Rightarrow> logged_in (do_stop_share now payload ss t)
     | Some MSG_HAVE_PIECES \<Rightarrow> logged_in (do_have now payload ss t)
     | _ \<Rightarrow> reply ST_NOT_IMPLEMENTED ss t)"

text \<open>The end of \<open>run\<close>: the connection is gone.\<close>

definition session_end :: "session \<Rightarrow> tracker \<Rightarrow> tracker" where
  "session_end ss t =
    (if ss_user ss \<noteq> [] then t\<lparr>tr_state := snd (logout (ss_user ss) (tr_state t))\<rparr> else t)"

text \<open>\<open>run\<close> over the requests that arrive before the connection ends: the replies in order.\<close>

fun session_run ::
    "(u64 \<times> u16 \<times> bytes) list \<Rightarrow> session \<Rightarrow> tracker \<Rightarrow> (status \<times> bytes) list \<times> sends \<times> tracker" where
  "session_run [] ss t = ([], [], session_end ss t)"
| "session_run ((now, type, payload) # rs) ss t =
     (case dispatch now type payload ss t of
        (ss', t', r, out) \<Rightarrow>
          (case session_run rs ss' t' of (rs', out', t'') \<Rightarrow> (r # rs', out @ out', t'')))"

section \<open>What is replicated\<close>

text \<open>
  A request that is not about the session leaves the tracker as it was, or adds one operation to the log; that
  operation has the next sequence number, and a peer in the same state applies it with success and arrives in
  the same state.
\<close>

definition faithful :: "tracker \<Rightarrow> tracker \<Rightarrow> bool" where
  "faithful t t' \<longleftrightarrow> t' = t \<or>
    (\<exists>op. sm_log (tr_sync t') = sm_log (tr_sync t) @ [op] \<and> op_seq op = sm_next_seq (tr_sync t) \<and>
      apply_remote op (tr_state t) = (True, tr_state t'))"

text \<open>The operation in terms of commands: the peer decodes the command that the session executed.\<close>

definition committed :: "tracker \<Rightarrow> tracker \<Rightarrow> bool" where
  "committed t t' \<longleftrightarrow> t' = t \<or>
    (\<exists>op c. sm_log (tr_sync t') = sm_log (tr_sync t) @ [op] \<and> op_seq op = sm_next_seq (tr_sync t) \<and>
      op_cmd op = Some c \<and> exec c (tr_state t) = (ST_OK, tr_state t'))"

lemma committed_faithful: "committed t t' \<Longrightarrow> faithful t t'"
  unfolding committed_def faithful_def
  using apply_remote_ok apply_remote_cmd by (fastforce simp: prod_eq_iff step_def)

lemma commit_committed:
  assumes op: "\<And>sq. op_cmd \<lparr>op_seq = sq, op_type = msg_code type, op_payload = rep, op_ts = now\<rparr> = Some c"
    and r: "r = exec c (tr_state t)"
  shows "committed t (fst (snd (commit now type rep r ss t)))"
proof (cases "fst r = ST_OK")
  case True
  then have "exec c (tr_state t) = (ST_OK, snd r)" by (simp add: r prod_eq_iff)
  then show ?thesis using True op by (auto simp: committed_def commit_def record_and_replicate_def Let_def)
next
  case False
  then have "snd r = tr_state t" using exec.error_frame [of c "tr_state t"] by (simp add: r)
  then show ?thesis using False by (simp add: committed_def commit_def)
qed

lemma committed_same [simp]: "committed t t"
  by (simp add: committed_def)

lemma committed_reply [simp]: "committed t (fst (snd (reply s ss t)))"
  by (simp add: reply_def)

text \<open>No bytes are left after the fields of the request.\<close>

definition consumed :: "('a \<times> buffer) option \<Rightarrow> bool" where
  "consumed r = (case r of None \<Rightarrow> True | Some (_, b) \<Rightarrow> remaining b = 0)"

definition exact_request :: "u16 \<Rightarrow> bytes \<Rightarrow> bool" where
  "exact_request type payload =
    (case msg_of type of
       Some MSG_UPLOAD_FILE \<Rightarrow> consumed (rd_upload (of_bytes payload))
     | Some MSG_STOP_SHARE \<Rightarrow> consumed (rd_str2 (of_bytes payload))
     | Some MSG_HAVE_PIECES \<Rightarrow> consumed (rd_have (of_bytes payload))
     | _ \<Rightarrow> True)"

definition session_fits :: "session \<Rightarrow> bool" where
  "session_fits ss = (str_ok (ss_user ss) \<and> str_ok (ss_peer_ip ss))"

lemma stable_upload: "stable_reader rd_upload"
  unfolding rd_upload_def [abs_def] by (intro stable_intros)

lemma stable_have: "stable_reader rd_have"
  unfolding rd_have_def [abs_def] by (intro stable_intros)

lemma stable_str2: "stable_reader rd_str2"
  unfolding rd_str2_def [abs_def] by (intro stable_intros)

lemma rd_str_ok: "rd get_str (buf_at pre r) = Some (x, b) \<Longrightarrow> str_ok x"
  using str_codec.rd_only by blast

lemma rd_str2_ok: "rd_str2 (buf_at pre r) = Some ((x, y), b) \<Longrightarrow> str_ok x \<and> str_ok y"
  by (auto simp: rd_str2_def bind_eq_Some_conv dest!: str_codec.rd_only)

lemma with_origin_enc: "with_origin payload ss =
    payload @ enc_str (ss_user ss) @ enc_str (ss_peer_ip ss) @ enc_u16 (ss_seed_port ss)"
  by (simp add: with_origin_def)

lemma rd_origin_enc: "session_fits ss \<Longrightarrow>
    rd_origin (buf_at p (enc_str (ss_user ss) @ enc_str (ss_peer_ip ss) @ enc_u16 (ss_seed_port ss))) =
      Some ((ss_user ss, ss_peer_ip ss, ss_seed_port ss),
        buf_at (p @ enc_str (ss_user ss) @ enc_str (ss_peer_ip ss) @ enc_u16 (ss_seed_port ss)) [])"
  by (simp add: rd_origin_def session_fits_def wire)

lemma committed_create_user: "committed t (fst (snd (do_create_user now payload ss t)))"
  by (auto simp: do_create_user_def op_cmd_def Let_def
      intro!: commit_committed [where c = "CreateUser _ _"] split: option.split)

lemma committed_group_request:
  assumes fits: "session_fits ss"
    and op: "\<And>sq gid. str_ok gid \<Longrightarrow>
      op_cmd \<lparr>op_seq = sq, op_type = msg_code type, op_payload = enc_str gid @ enc_str (ss_user ss),
        op_ts = now\<rparr> = Some (c gid)"
    and f: "\<And>gid st. f gid (ss_user ss) st = exec (c gid) st"
  shows "committed t (fst (snd (group_request now type f (of_bytes payload) ss t)))"
proof (cases "rd get_str (of_bytes payload)")
  case (Some p)
  then obtain gid b where d: "rd get_str (buf_at [] payload) = Some (gid, b)"
    by (cases p) (auto simp: of_bytes_at)
  show ?thesis
    using d op [OF rd_str_ok [OF d]]
    by (auto simp: group_request_def of_bytes_at f intro!: commit_committed [where c = "c gid"])
qed (simp add: group_request_def)

lemma committed_group:
  assumes "session_fits ss"
  shows "committed t (fst (snd (group_request now MSG_CREATE_GROUP create_group (of_bytes payload) ss t)))"
    and "committed t (fst (snd (group_request now MSG_JOIN_GROUP join_group (of_bytes payload) ss t)))"
    and "committed t (fst (snd (group_request now MSG_LEAVE_GROUP leave_group (of_bytes payload) ss t)))"
  using assms
    committed_group_request [where c = "\<lambda>gid. CreateGroup gid (ss_user ss)"]
    committed_group_request [where c = "\<lambda>gid. JoinGroup gid (ss_user ss)"]
    committed_group_request [where c = "\<lambda>gid. LeaveGroup gid (ss_user ss)"]
  by (simp_all add: op_cmd_def Let_def rd_str2_def session_fits_def wire)

lemma committed_accept:
  assumes "session_fits ss"
  shows "committed t (fst (snd (do_accept now (of_bytes payload) ss t)))"
  using assms
  by (auto simp: do_accept_def op_cmd_def Let_def rd_str3_def session_fits_def wire dest!: rd_str2_ok
      intro!: commit_committed [where c = "AcceptRequest _ _ _"] split: option.split)

lemma committed_upload:
  assumes "session_fits ss" and "consumed (rd_upload (of_bytes payload))"
  shows "committed t (fst (snd (do_upload now payload ss t)))"
proof (cases "rd_upload (of_bytes payload)")
  case (Some p)
  then obtain gid meta b where d: "rd_upload (buf_at [] payload) = Some ((gid, meta), b)"
    by (cases p) (auto simp: of_bytes_at)
  have "remaining b = 0" using assms(2) d by (simp add: consumed_def of_bytes_at)
  then have "rd_upload (buf_at [] (payload @ q)) = Some ((gid, meta), buf_at payload q)" for q
    using stable_reader.extend_all [OF stable_upload d] by simp
  then show ?thesis
    using d rd_origin_enc [OF assms(1)]
    by (auto simp: do_upload_def op_cmd_def Let_def with_origin_enc of_bytes_at
        intro!: commit_committed [where c = "AddFile _ _ _ _ _"])
qed (simp add: do_upload_def)

lemma committed_have:
  assumes "session_fits ss" and "consumed (rd_have (of_bytes payload))"
  shows "committed t (fst (snd (do_have now payload ss t)))"
proof (cases "rd_have (of_bytes payload)")
  case (Some p)
  then obtain gid fname bits b where d: "rd_have (buf_at [] payload) = Some ((gid, fname, bits), b)"
    by (cases p) (auto simp: of_bytes_at)
  have "remaining b = 0" using assms(2) d by (simp add: consumed_def of_bytes_at)
  then have "rd_have (buf_at [] (payload @ q)) = Some ((gid, fname, bits), buf_at payload q)" for q
    using stable_reader.extend_all [OF stable_have d] by simp
  then show ?thesis
    using d rd_origin_enc [OF assms(1)]
    by (auto simp: do_have_def op_cmd_def Let_def with_origin_enc of_bytes_at
        intro!: commit_committed [where c = "UpdateBitfield _ _ _ _ _ _"])
qed (simp add: do_have_def)

lemma committed_stop:
  assumes "session_fits ss" and "consumed (rd_str2 (of_bytes payload))"
  shows "committed t (fst (snd (do_stop_share now payload ss t)))"
proof (cases "rd_str2 (of_bytes payload)")
  case (Some p)
  then obtain gid fname b where d: "rd_str2 (buf_at [] payload) = Some ((gid, fname), b)"
    by (cases p) (auto simp: of_bytes_at)
  have "remaining b = 0" using assms(2) d by (simp add: consumed_def of_bytes_at)
  then have "rd_str2 (buf_at [] (payload @ q)) = Some ((gid, fname), buf_at payload q)" for q
    using stable_reader.extend_all [OF stable_str2 d] by simp
  moreover have "rd_str3 b = do { ((x, y), b) \<leftarrow> rd_str2 b; (z, b) \<leftarrow> rd get_str b; Some ((x, y, z), b) }" for b
    by (simp add: rd_str3_def rd_str2_def case_prod_beta' bind_assoc)
  ultimately show ?thesis
    using d assms(1)
    by (auto simp: do_stop_share_def op_cmd_def Let_def of_bytes_at session_fits_def wire
        intro!: commit_committed [where c = "StopShare _ _ _"])
qed (simp add: do_stop_share_def)

lemma dispatch_committed:
  assumes "session_fits ss" and "exact_request type payload"
    and "type \<noteq> msg_code MSG_LOGIN" and "type \<noteq> msg_code MSG_LOGOUT"
  shows "committed t (fst (snd (dispatch now type payload ss t)))"
proof (cases "msg_of type")
  case None
  then show ?thesis by (simp add: dispatch_def)
next
  case (Some m)
  then have "m \<noteq> MSG_LOGIN" "m \<noteq> MSG_LOGOUT" using assms(3,4) by (auto simp: msg_of_Some)
  then show ?thesis
    using Some assms(2) committed_group [OF assms(1)] committed_accept [OF assms(1)]
      committed_upload [OF assms(1)] committed_have [OF assms(1)] committed_stop [OF assms(1)]
    by (cases m) (simp_all add: dispatch_def exact_request_def Let_def committed_create_user
        list_request_def do_get_meta_def split: option.split)
qed

lemmas dispatch_faithful = committed_faithful [OF dispatch_committed]

section \<open>Sessions keep the state sound\<close>

lemma commit_state [simp]: "tr_state (fst (snd (commit now type rep r ss t))) = snd r"
  by (simp add: commit_def Let_def split_beta)

lemma reply_state [simp]: "tr_state (fst (snd (reply s ss t))) = tr_state t"
  by (simp add: reply_def)

lemmas op_keeps = create_user.keeps login.keeps logout.keeps create_group.keeps join_group.keeps
  leave_group.keeps accept_request.keeps add_file.keeps stop_share.keeps update_bitfield.keeps

lemma dispatch_keeps:
  assumes "state_ok (tr_state t)"
  shows "state_ok (tr_state (fst (snd (dispatch now type payload ss t))))"
proof (cases "msg_of type")
  case (Some m)
  then show ?thesis
    using assms
    by (cases m) (simp_all add: dispatch_def Let_def do_create_user_def do_login_def do_logout_def
        group_request_def list_request_def do_accept_def do_upload_def do_get_meta_def do_stop_share_def
        do_have_def op_keeps split: option.split)
qed (simp add: dispatch_def assms)

lemma session_end_keeps: "state_ok (tr_state t) \<Longrightarrow> state_ok (tr_state (session_end ss t))"
  by (simp add: session_end_def op_keeps)

lemma session_run_keeps: "state_ok (tr_state t) \<Longrightarrow> state_ok (tr_state (snd (snd (session_run rs ss t))))"
proof (induction rs ss t rule: session_run.induct)
  case (2 now type payload rs ss t)
  obtain ss' t' r out where d: "dispatch now type payload ss t = (ss', t', r, out)"
    by (cases "dispatch now type payload ss t") auto
  then have "state_ok (tr_state t')"
    using dispatch_keeps [OF "2.prems", of now type payload ss] by simp
  then show ?case
    using "2.IH" [of ss' "(t', r, out)" t' "(r, out)" r out] d by (simp add: split_beta)
qed (simp add: session_end_keeps)

text \<open>Without a login nothing but creating a user and logging in has an effect.\<close>

lemma dispatch_guard:
  assumes "ss_user ss = []" and "type \<noteq> msg_code MSG_CREATE_USER" and "type \<noteq> msg_code MSG_LOGIN"
  shows "\<exists>s. dispatch now type payload ss t = (ss, t, (s, []), []) \<and> s \<in> {ST_NOT_LOGGED_IN, ST_NOT_IMPLEMENTED}"
proof (cases "msg_of type")
  case (Some m)
  then have "m \<noteq> MSG_CREATE_USER" "m \<noteq> MSG_LOGIN" using assms(2,3) by (auto simp: msg_of_Some)
  then show ?thesis
    using Some assms(1) by (cases m) (simp_all add: dispatch_def reply_def)
qed (simp add: dispatch_def reply_def)

section \<open>The properties of a session\<close>

text \<open>What a request answers when it is recorded, and what it sends.\<close>

definition recorded :: "tracker \<Rightarrow> tracker \<Rightarrow> status \<Rightarrow> sends \<Rightarrow> bool" where
  "recorded t t' s out \<longleftrightarrow> s = ST_OK \<and> sm_next_seq (tr_sync t') = sm_next_seq (tr_sync t) + 1 \<and>
     (\<exists>op. sm_log (tr_sync t') = sm_log (tr_sync t) @ [op] \<and>
       out = (if sm_out_fd (tr_sync t) < 0 then [] else [send_op (sm_out_fd (tr_sync t)) op]))"

definition answered :: "tracker \<Rightarrow> outcome \<Rightarrow> bool" where
  "answered t r = (case r of (ss, t', (s, body), out) \<Rightarrow> out = [] \<and> tr_sync t' = tr_sync t \<or> recorded t t' s out)"

lemma answered_commit: "answered t (commit now type rep r ss t)"
  by (simp add: answered_def recorded_def commit_def record_and_replicate_def Let_def)

lemma answered_reply [simp]: "answered t (reply s ss t)" "answered t (ss', t, r, [])"
  by (simp_all add: answered_def reply_def split_beta)

lemma dispatch_answered:
  assumes "type \<noteq> msg_code MSG_LOGIN" and "type \<noteq> msg_code MSG_LOGOUT"
  shows "answered t (dispatch now type payload ss t)"
proof (cases "msg_of type")
  case (Some m)
  then have "m \<noteq> MSG_LOGIN" "m \<noteq> MSG_LOGOUT" using assms by (auto simp: msg_of_Some)
  then show ?thesis
    using Some by (cases m) (simp_all add: dispatch_def Let_def do_create_user_def group_request_def list_request_def do_accept_def
        do_upload_def do_get_meta_def do_stop_share_def do_have_def answered_commit split: option.split)
qed (simp add: dispatch_def)

text \<open>C27. A request other than login and logout, whose payload has no bytes after its last field if it is one of those whose
  payload is forwarded (upload, stop sharing, announcing pieces), either leaves the tracker as it was and sends nothing, or
  answers \<open>ST_OK\<close> and appends one operation with the next sequence number to the log, which is sent if there is a link; and a
  second tracker in the same state that applies this operation succeeds and arrives in the same state. (The condition on the
  payload is needed: \<open>stop_share_forged\<close> below. The names of user and address have fewer than \<open>2^32\<close> characters.)\<close>

theorem requests_replicate:
  assumes "session_fits ss" and "exact_request type payload"
    and "type \<noteq> msg_code MSG_LOGIN" and "type \<noteq> msg_code MSG_LOGOUT"
    and "dispatch now type payload ss t = (ss', t', (s, body), out)"
  shows "t' = t \<and> out = [] \<or>
    s = ST_OK \<and> sm_next_seq (tr_sync t') = sm_next_seq (tr_sync t) + 1 \<and>
    (\<exists>op. sm_log (tr_sync t') = sm_log (tr_sync t) @ [op] \<and> op_seq op = sm_next_seq (tr_sync t) \<and>
      out = (if sm_out_fd (tr_sync t) < 0 then [] else [send_op (sm_out_fd (tr_sync t)) op]) \<and>
      apply_remote op (tr_state t) = (True, tr_state t'))"
  using dispatch_faithful [OF assms(1-4), where now = now and t = t] dispatch_answered [OF assms(3,4), where t = t and now = now and payload = payload and ss = ss] assms(5)
  by (auto simp: faithful_def answered_def recorded_def)

theorem requests_replicate_witness:
  "\<exists>op t'. apply_remote op (tr_state started) = (True, tr_state t') \<and> op_seq op = 1 \<and> sm_log (tr_sync t') = [op] \<and>
    dispatch 0 (msg_code MSG_CREATE_USER) (buf_data (put_str [7] (put_str [1] new_buf))) (new_session [9]) started =
      (new_session [9], t', (ST_OK, []), [])"
proof -
  let ?p = "buf_data (put_str [7] (put_str [1] new_buf))"
  obtain t' where d: "dispatch 0 (msg_code MSG_CREATE_USER) ?p (new_session [9]) started = (new_session [9], t', (ST_OK, []), [])"
    and log: "sm_log (tr_sync t') \<noteq> []"
    by (simp add: dispatch_def do_create_user_def rd_str2_def commit_def record_and_replicate_def create_user_def started_def
        new_sync_def new_tracker_def has_key_def wire str_ok_def Let_def)
  have pre: "session_fits (new_session [9])" "exact_request (msg_code MSG_CREATE_USER) ?p"
    by (simp_all add: session_fits_def new_session_def exact_request_def str_ok_def)
  note requests_replicate [OF pre _ _ d]
  then show ?thesis using d log by (auto simp: started_def new_sync_def)
qed

text \<open>On a connection that has not logged in, every request but \<open>MSG_CREATE_USER\<close> and \<open>MSG_LOGIN\<close> is refused without any
  effect on the session, the tracker or its peer.\<close>

lemma login_required:
  assumes "ss_user ss = []" and "type \<noteq> msg_code MSG_CREATE_USER" and "type \<noteq> msg_code MSG_LOGIN"
  shows "\<exists>s. dispatch now type payload ss t = (ss, t, (s, []), []) \<and> s \<in> {ST_NOT_LOGGED_IN, ST_NOT_IMPLEMENTED}"
  using assms by (rule dispatch_guard)

text \<open>A client can make its tracker replicate an operation in another user's name: \<open>MSG_STOP_SHARE\<close> forwards the payload with
  the session's user appended, the peer reads its three strings from the front, and so a third string in the payload takes the
  user's place.\<close>

lemma stop_share_forged:
  assumes "str_ok gid" and "str_ok fname" and "str_ok victim"
    and "fst (stop_share gid (ss_user ss) fname (tr_state t)) = ST_OK"
  shows "\<exists>op. sm_log (tr_sync (fst (snd (do_stop_share now (enc_str gid @ enc_str fname @ enc_str victim) ss t)))) =
      sm_log (tr_sync t) @ [op] \<and>
    tr_state (fst (snd (do_stop_share now (enc_str gid @ enc_str fname @ enc_str victim) ss t))) =
      snd (exec (StopShare gid (ss_user ss) fname) (tr_state t)) \<and>
    op_cmd op = Some (StopShare gid victim fname)"
proof -
  let ?p = "enc_str gid @ enc_str fname @ enc_str victim"
  let ?op = "\<lparr>op_seq = sm_next_seq (tr_sync t), op_type = msg_code MSG_STOP_SHARE,
    op_payload = ?p @ enc_str (ss_user ss), op_ts = now\<rparr>"
  have "rd_str2 (of_bytes ?p) = Some ((gid, fname), buf_at (enc_str gid @ enc_str fname) (enc_str victim))"
    using assms by (simp add: rd_str2_def wire)
  moreover have "op_cmd ?op = Some (StopShare gid victim fname)"
    using assms by (simp add: op_cmd_def rd_str3_def wire)
  ultimately show ?thesis
    using assms(4) by (simp add: do_stop_share_def commit_def record_and_replicate_def Let_def of_bytes_at)
qed

end
