(* ===== verification/Tracker_Client.thy ===== *)
theory Tracker_Client
  imports Net Tracker_Session
begin

text \<open>
  \<open>client/tracker_client.hpp\<close> and \<open>client/tracker_client.cpp\<close>: one connection to whichever tracker is
  reachable, with fail-over. The outside world is an argument: what a \<open>tcp_connect\<close> to an endpoint does, what one
  exchange (\<open>send_msg\<close>, then \<open>recv_msg\<close>) does, and what \<open>close\<close> does. The world that is given at the end of the
  model is the trackers of theory \<open>Tracker_Session\<close>.
\<close>

record tracker_endpoint =
  te_ip :: bytes
  te_port :: u16

record tracker_client =
  tc_eps :: "tracker_endpoint list"
  tc_open :: bool
  tc_current :: nat
  tc_logged_in :: bool
  tc_last_uid :: bytes
  tc_last_pwd :: bytes
  tc_last_port :: u16

record 'w link =
  lk_dial :: "tracker_endpoint \<Rightarrow> 'w \<Rightarrow> bool \<times> 'w"
  lk_talk :: "u16 \<Rightarrow> bytes \<Rightarrow> 'w \<Rightarrow> (u16 \<times> bytes) option \<times> 'w"
  lk_close :: "'w \<Rightarrow> 'w"

definition new_client :: tracker_client where
  "new_client = \<lparr>tc_eps = [], tc_open = False, tc_current = 0, tc_logged_in = False,
     tc_last_uid = [], tc_last_pwd = [], tc_last_port = 0\<rparr>"

definition configure :: "tracker_endpoint list \<Rightarrow> tracker_client \<Rightarrow> tracker_client" where
  "configure eps c = c\<lparr>tc_eps := eps\<rparr>"

text \<open>\<open>for (i = 0; i < eps_.size(); i++) { idx = (start + i) % eps_.size(); fd = tcp_connect(...); ... }\<close>,
  with \<open>k\<close> endpoints left to try.\<close>

fun dial :: "'w link \<Rightarrow> tracker_endpoint list \<Rightarrow> nat \<Rightarrow> nat \<Rightarrow> 'w \<Rightarrow> nat option \<times> 'w" where
  "dial L eps start 0 w = (None, w)"
| "dial L eps start (Suc k) w =
     (let idx = (start + (length eps - Suc k)) mod length eps in
      case lk_dial L (eps ! idx) w of
        (True, w') \<Rightarrow> (Some idx, w')
      | (False, w') \<Rightarrow> dial L eps start k w')"

definition disconnect :: "'w link \<Rightarrow> tracker_client \<Rightarrow> 'w \<Rightarrow> tracker_client \<times> 'w" where
  "disconnect L c w = (if tc_open c then (c\<lparr>tc_open := False\<rparr>, lk_close L w) else (c, w))"

definition connect_any :: "'w link \<Rightarrow> tracker_client \<Rightarrow> 'w \<Rightarrow> bool \<times> tracker_client \<times> 'w" where
  "connect_any L c w =
    (let (c, w) = disconnect L c w in
     case dial L (tc_eps c) (tc_current c) (length (tc_eps c)) w of
       (Some idx, w') \<Rightarrow> (True, c\<lparr>tc_open := True, tc_current := idx\<rparr>, w')
     | (None, w') \<Rightarrow> (False, c, w'))"

definition login_bytes :: "tracker_client \<Rightarrow> bytes" where
  "login_bytes c =
    buf_data (put_u16 (tc_last_port c) (put_str (tc_last_pwd c) (put_str (tc_last_uid c) new_buf)))"

text \<open>One turn of the loop of \<open>request\<close>: return from the function, or go round again.\<close>

datatype turn = Again | Return "(u16 \<times> bytes) option"

definition attempt ::
    "'w link \<Rightarrow> u16 \<Rightarrow> bytes \<Rightarrow> tracker_client \<Rightarrow> 'w \<Rightarrow> turn \<times> tracker_client \<times> 'w" where
  "attempt L type payload c w =
    (case lk_talk L type payload w of
       (None, w) \<Rightarrow> (Again, c\<lparr>tc_open := False\<rparr>, lk_close L w)
     | (Some r, w) \<Rightarrow> (Return (Some r), c, w))"

definition request_turn ::
    "'w link \<Rightarrow> u16 \<Rightarrow> bytes \<Rightarrow> tracker_client \<Rightarrow> 'w \<Rightarrow> turn \<times> tracker_client \<times> 'w" where
  "request_turn L type payload c w =
    (if tc_open c then attempt L type payload c w
     else case dial L (tc_eps c) (tc_current c + 1) (length (tc_eps c)) w of
       (None, w) \<Rightarrow> (Return None, c, w)
     | (Some idx, w) \<Rightarrow>
         (let c = c\<lparr>tc_open := True, tc_current := idx\<rparr> in
          if tc_logged_in c \<and> type \<noteq> msg_code MSG_LOGIN then
            (case lk_talk L (msg_code MSG_LOGIN) (login_bytes c) w of
               (None, w) \<Rightarrow> (Again, c\<lparr>tc_open := False\<rparr>, lk_close L w)
             | (Some _, w) \<Rightarrow> attempt L type payload c w)
          else attempt L type payload c w))"

text \<open>\<open>for (attempt = 0; attempt < n; attempt++)\<close>; the code has \<open>n = 2\<close>.\<close>

fun request_loop ::
    "nat \<Rightarrow> 'w link \<Rightarrow> u16 \<Rightarrow> bytes \<Rightarrow> tracker_client \<Rightarrow> 'w \<Rightarrow> (u16 \<times> bytes) option \<times> tracker_client \<times> 'w" where
  "request_loop 0 L type payload c w = (None, c, w)"
| "request_loop (Suc n) L type payload c w =
     (case request_turn L type payload c w of
        (Return r, c, w) \<Rightarrow> (r, c, w)
      | (Again, c, w) \<Rightarrow> request_loop n L type payload c w)"

definition tc_request ::
    "'w link \<Rightarrow> u16 \<Rightarrow> bytes \<Rightarrow> tracker_client \<Rightarrow> 'w \<Rightarrow> (u16 \<times> bytes) option \<times> tracker_client \<times> 'w" where
  "tc_request L = request_loop 2 L"

definition note_login :: "bytes \<Rightarrow> bytes \<Rightarrow> u16 \<Rightarrow> tracker_client \<Rightarrow> tracker_client" where
  "note_login uid pwd port c =
     c\<lparr>tc_last_uid := uid, tc_last_pwd := pwd, tc_last_port := port, tc_logged_in := True\<rparr>"

definition clear_login :: "tracker_client \<Rightarrow> tracker_client" where
  "clear_login c = c\<lparr>tc_logged_in := False\<rparr>"

section \<open>The world of trackers\<close>

text \<open>
  The trackers by endpoint, those that can be reached, the session that the client's connection has on one of
  them, the address it is seen under, and the clock.
\<close>

record tracker_world =
  tw_trackers :: "(tracker_endpoint \<times> tracker) list"
  tw_up :: "tracker_endpoint list"
  tw_session :: "(tracker_endpoint \<times> session) option"
  tw_ip :: bytes
  tw_now :: u64

fun put_tracker :: "tracker_endpoint \<Rightarrow> tracker \<Rightarrow> (tracker_endpoint \<times> tracker) list \<Rightarrow> (tracker_endpoint \<times> tracker) list" where
  "put_tracker e t [] = []"
| "put_tracker e t ((e', t') # ts) = (if e' = e then (e, t) # ts else (e', t') # put_tracker e t ts)"

definition tracker_dial :: "tracker_endpoint \<Rightarrow> tracker_world \<Rightarrow> bool \<times> tracker_world" where
  "tracker_dial e w =
    (if e \<in> set (tw_up w) then (True, w\<lparr>tw_session := Some (e, new_session (tw_ip w))\<rparr>) else (False, w))"

definition tracker_close :: "tracker_world \<Rightarrow> tracker_world" where
  "tracker_close w =
    (case tw_session w of
       None \<Rightarrow> w
     | Some (e, ss) \<Rightarrow>
         (case map_find (tw_trackers w) e of
            None \<Rightarrow> w\<lparr>tw_session := None\<rparr>
          | Some t \<Rightarrow>
              w\<lparr>tw_session := None,
                tw_trackers := (if e \<in> set (tw_up w) then put_tracker e (session_end ss t) (tw_trackers w)
                                else tw_trackers w)\<rparr>))"

text \<open>
  A message of more than \<open>MAX_PAYLOAD\<close> bytes is refused by the \<open>recv_msg\<close> of the other side: the tracker drops the
  connection because of such a request, the client because of such a reply.
\<close>

definition tracker_talk :: "u16 \<Rightarrow> bytes \<Rightarrow> tracker_world \<Rightarrow> (u16 \<times> bytes) option \<times> tracker_world" where
  "tracker_talk type payload w =
    (case tw_session w of
       None \<Rightarrow> (None, w)
     | Some (e, ss) \<Rightarrow>
         if e \<notin> set (tw_up w) then (None, w)
         else if length payload > unat MAX_PAYLOAD then (None, tracker_close w)
         else case map_find (tw_trackers w) e of
           None \<Rightarrow> (None, w)
         | Some t \<Rightarrow>
             (case dispatch (tw_now w) type payload ss t of
                (ss', t', (s, body), _) \<Rightarrow>
                  (if length body > unat MAX_PAYLOAD then None else Some (status_code s, body),
                   w\<lparr>tw_session := Some (e, ss'), tw_trackers := put_tracker e t' (tw_trackers w)\<rparr>)))"

definition tracker_link :: "tracker_world link" where
  "tracker_link = \<lparr>lk_dial = tracker_dial, lk_talk = tracker_talk, lk_close = tracker_close\<rparr>"

section \<open>What a request does\<close>

lemma dial_index: "dial L eps start k w = (Some idx, w') \<Longrightarrow> k \<le> length eps \<Longrightarrow> idx < length eps"
proof (induction k arbitrary: w)
  case (Suc k)
  then have "eps \<noteq> []" by auto
  then show ?case using Suc by (auto simp: Let_def split: prod.splits bool.splits)
qed simp

text \<open>Endpoints are tried in order from \<open>start\<close>, cyclically; the first that answers is taken.\<close>

lemma dial_first:
  assumes "\<And>e. e \<in> set eps \<Longrightarrow> lk_dial L e w = (up e, if up e then f e else w)" and "j < k" and "k \<le> length eps"
    and "up (eps ! ((start + (length eps - k + j)) mod length eps))"
    and "\<forall>i < j. \<not> up (eps ! ((start + (length eps - k + i)) mod length eps))"
  shows "dial L eps start k w = (Some ((start + (length eps - k + j)) mod length eps),
    f (eps ! ((start + (length eps - k + j)) mod length eps)))"
  using assms(2-5)
proof (induction k arbitrary: j)
  case (Suc k)
  let ?at = "\<lambda>i. (start + (length eps - Suc k + i)) mod length eps"
  have ne: "eps \<noteq> []" using Suc.prems(2) by auto
  have mem: "eps ! ?at i \<in> set eps" for i using ne by (intro nth_mem) simp
  have shift: "start + (length eps - k + i) = start + (length eps - Suc k + Suc i)" for i
    using Suc.prems(2) by simp
  show ?case
  proof (cases j)
    case 0
    then show ?thesis using assms(1) [OF mem [of 0]] Suc.prems(3) by (simp add: Let_def)
  next
    case (Suc i)
    have "\<not> up (eps ! ?at 0)" using Suc.prems(4) [rule_format, of 0] Suc by simp
    then have d: "dial L eps start (Suc k) w = dial L eps start k w"
      using assms(1) [OF mem [of 0]] by (simp add: Let_def)
    have up: "up (eps ! ?at (Suc i))" and down: "\<forall>n < i. \<not> up (eps ! ?at (Suc n))"
      using Suc.prems(3,4) Suc by auto
    have "dial L eps start k w = (Some (?at (Suc i)), f (eps ! ?at (Suc i)))"
      using Suc.IH [of i] Suc.prems(1,2) up down by (simp only: shift Suc less_Suc_eq_le Suc_le_eq)
    then show ?thesis unfolding d Suc .
  qed
qed simp

lemma request_live:
  "tc_open c \<Longrightarrow> lk_talk L type payload w = (Some r, w') \<Longrightarrow> tc_request L type payload c w = (Some r, c, w')"
  by (simp add: tc_request_def numeral_2_eq_2 request_turn_def attempt_def)

text \<open>The connection breaks: the next endpoint that answers gets the login first, then the request.\<close>

lemma request_failover:
  assumes "tc_open c" and "lk_talk L type payload w = (None, w1)"
    and "dial L (tc_eps c) (tc_current c + 1) (length (tc_eps c)) (lk_close L w1) = (Some idx, w2)"
    and "tc_logged_in c" and "type \<noteq> msg_code MSG_LOGIN"
    and "lk_talk L (msg_code MSG_LOGIN) (login_bytes c) w2 = (Some l, w3)"
    and "lk_talk L type payload w3 = (Some r, w4)"
  shows "tc_request L type payload c w = (Some r, c\<lparr>tc_open := True, tc_current := idx\<rparr>, w4)"
  using assms by (simp add: tc_request_def numeral_2_eq_2 request_turn_def attempt_def login_bytes_def)

text \<open>One exchange with the tracker the client is connected to.\<close>

lemma tracker_answers:
  assumes "tc_open c" and "tw_session w = Some (e, ss)" and "e \<in> set (tw_up w)" and "map_find (tw_trackers w) e = Some t"
    and "length payload \<le> unat MAX_PAYLOAD" and "dispatch (tw_now w) type payload ss t = (ss', t', (s, body), out)"
    and "length body \<le> unat MAX_PAYLOAD"
  shows "tc_request tracker_link type payload c w = (Some (status_code s, body), c,
    w\<lparr>tw_session := Some (e, ss'), tw_trackers := put_tracker e t' (tw_trackers w)\<rparr>)"
  using assms by (intro request_live) (simp_all add: tracker_link_def tracker_talk_def)

definition same_login :: "tracker_client \<Rightarrow> tracker_client \<Rightarrow> bool" where
  "same_login c d \<longleftrightarrow> tc_eps c = tc_eps d \<and> tc_logged_in c = tc_logged_in d \<and> tc_last_uid c = tc_last_uid d \<and>
     tc_last_pwd c = tc_last_pwd d \<and> tc_last_port c = tc_last_port d"

lemma turn_frame:
  "request_turn L type payload c w = (q, c', w') \<Longrightarrow>
   same_login c' c \<and> (q = Again \<longrightarrow> \<not> tc_open c') \<and> (q = Return None \<longrightarrow> \<not> tc_open c') \<and>
   (tc_current c < length (tc_eps c) \<longrightarrow> tc_current c' < length (tc_eps c'))"
  using dial_index [of L "tc_eps c" "tc_current c + 1" "length (tc_eps c)" w]
  by (auto simp: request_turn_def attempt_def same_login_def Let_def split: if_splits prod.splits option.splits)

text \<open>A request never touches the login on file, and gives up only without a connection.\<close>

lemma loop_frame:
  "request_loop n L type payload c w = (r, c', w') \<Longrightarrow>
   same_login c' c \<and> (r = None \<longrightarrow> n > 0 \<longrightarrow> \<not> tc_open c') \<and>
   (tc_current c < length (tc_eps c) \<longrightarrow> tc_current c' < length (tc_eps c'))"
proof (induction n arbitrary: c w)
  case (Suc n)
  obtain q d v where t: "request_turn L type payload c w = (q, d, v)"
    by (cases "request_turn L type payload c w") auto
  show ?case
  proof (cases q)
    case Again
    then have "request_loop n L type payload d v = (r, c', w')" using Suc.prems t by simp
    then show ?thesis
      using Suc.IH [of d v] turn_frame [OF t] Again by (cases n) (auto simp: same_login_def)
  next
    case (Return r')
    then show ?thesis using Suc.prems t turn_frame [OF t] by simp
  qed
qed (simp add: same_login_def)

section \<open>What the client relies on\<close>

text \<open>
  The interface between the client and whatever it dials: which endpoints are up, to which one the connection leads, and
  what a new connection does to the world.
\<close>

locale dialled_link =
  fixes L :: "'w link"
    and up :: "'w \<Rightarrow> tracker_endpoint \<Rightarrow> bool"
    and peer :: "'w \<Rightarrow> tracker_endpoint option"
    and join :: "tracker_endpoint \<Rightarrow> 'w \<Rightarrow> 'w"
  assumes dial_up: "lk_dial L e w = (up w e, if up w e then join e w else w)"
    and peer_join: "peer (join e w) = Some e"
    and up_join: "up (join e w) = up w"
    and up_close: "up (lk_close L w) = up w"
    and talk_dead: "peer w = Some e \<Longrightarrow> \<not> up w e \<Longrightarrow> lk_talk L type payload w = (None, w)"
begin

text \<open>The place of the \<open>i\<close>-th endpoint after the current one.\<close>

abbreviation after :: "tracker_client \<Rightarrow> nat \<Rightarrow> nat" where
  "after c i \<equiv> (tc_current c + 1 + i) mod length (tc_eps c)"

lemma dial_next:
  assumes "j < length (tc_eps c)" and "up w (tc_eps c ! after c j)" and "\<forall>i < j. \<not> up w (tc_eps c ! after c i)"
  shows "dial L (tc_eps c) (tc_current c + 1) (length (tc_eps c)) w = (Some (after c j), join (tc_eps c ! after c j) w)"
  using dial_first [of "tc_eps c" L w "up w" "\<lambda>e. join e w" j "length (tc_eps c)" "tc_current c + 1"] assms
  by (simp add: dial_up)

text \<open>Nobody is up: the request fails and the client has no connection.\<close>

lemma dial_nobody:
  assumes "\<forall>e \<in> set eps. \<not> up w e" and "k \<le> length eps"
  shows "dial L eps start k w = (None, w)"
  using assms(2)
proof (induction k)
  case (Suc k)
  then have "(start + (length eps - Suc k)) mod length eps < length eps" by (intro mod_less_divisor) linarith
  then have "\<not> up w (eps ! ((start + (length eps - Suc k)) mod length eps))" using assms(1) nth_mem by blast
  then show ?case using Suc by (simp add: dial_up Let_def)
qed simp

lemma request_nobody:
  assumes "tc_open c" and "peer w = Some e" and "e \<in> set (tc_eps c)" and "\<forall>e \<in> set (tc_eps c). \<not> up w e"
  shows "tc_request L type payload c w = (None, c\<lparr>tc_open := False\<rparr>, lk_close L w)"
proof -
  have "lk_talk L type payload w = (None, w)" using assms by (intro talk_dead) auto
  moreover have "dial L (tc_eps c) (Suc (tc_current c)) (length (tc_eps c)) (lk_close L w) = (None, lk_close L w)"
    using assms(4) by (intro dial_nobody) (simp_all add: up_close)
  ultimately show ?thesis using assms(1) by (simp add: tc_request_def numeral_2_eq_2 request_turn_def attempt_def)
qed

text \<open>The current tracker is gone: the next one in the list that is up gets the login, then the request.\<close>

lemma request_next:
  assumes "tc_open c" and "peer w = Some e" and "\<not> up w e" and "tc_logged_in c" and "type \<noteq> msg_code MSG_LOGIN"
    and next_up: "j < length (tc_eps c)" "up w (tc_eps c ! after c j)" "\<forall>i < j. \<not> up w (tc_eps c ! after c i)"
    and "lk_talk L (msg_code MSG_LOGIN) (login_bytes c) (join (tc_eps c ! after c j) (lk_close L w)) = (Some l, w3)"
    and "lk_talk L type payload w3 = (Some r, w4)"
  shows "tc_request L type payload c w = (Some r, c\<lparr>tc_current := after c j\<rparr>, w4)"
proof -
  have "dial L (tc_eps c) (tc_current c + 1) (length (tc_eps c)) (lk_close L w) =
      (Some (after c j), join (tc_eps c ! after c j) (lk_close L w))"
    using dial_next [of j c "lk_close L w"] next_up by (simp add: up_close)
  from request_failover [OF assms(1) talk_dead [OF assms(2,3)] this assms(4,5,9,10)]
  show ?thesis using assms(1) by (cases c) simp
qed

end

text \<open>The modelled trackers provide it.\<close>

definition tracker_join :: "tracker_endpoint \<Rightarrow> tracker_world \<Rightarrow> tracker_world" where
  "tracker_join e w = w\<lparr>tw_session := Some (e, new_session (tw_ip w))\<rparr>"

interpretation tracker_net: dialled_link tracker_link "\<lambda>w e. e \<in> set (tw_up w)" "\<lambda>w. map_option fst (tw_session w)" tracker_join
  by unfold_locales
    (auto simp: tracker_link_def tracker_dial_def tracker_join_def tracker_close_def tracker_talk_def split: option.splits)

section \<open>Fail-over between trackers\<close>

lemma rd_login_bytes:
  assumes "str_ok (tc_last_uid c)" and "str_ok (tc_last_pwd c)"
  shows "do { ((uid, pwd), b) \<leftarrow> rd_str2 (of_bytes (login_bytes c)); (port, b) \<leftarrow> rd get_u16 b; Some (uid, pwd, port) } =
    Some (tc_last_uid c, tc_last_pwd c, tc_last_port c)"
  using assms by (simp add: login_bytes_def rd_str2_def wire)

text \<open>The session after the replayed login: of the user if the tracker has accepted it, otherwise of nobody.\<close>

definition replayed :: "tracker_client \<Rightarrow> bytes \<Rightarrow> status \<Rightarrow> session" where
  "replayed c ip ls =
    (if ls = ST_OK then \<lparr>ss_peer_ip = ip, ss_user = tc_last_uid c, ss_seed_port = tc_last_port c\<rparr> else new_session ip)"

lemma dispatch_login:
  assumes "str_ok (tc_last_uid c)" and "str_ok (tc_last_pwd c)"
    and "login (tc_last_uid c) (tc_last_pwd c) ip (tc_last_port c) (tr_state t) = (ls, st)"
  shows "dispatch now (msg_code MSG_LOGIN) (login_bytes c) (new_session ip) t = (replayed c ip ls, t\<lparr>tr_state := st\<rparr>, (ls, []), [])"
  using rd_login_bytes [OF assms(1,2)] assms(3)
  by (simp add: dispatch_def do_login_def new_session_def replayed_def)

lemma find_put_tracker:
  "map_find ts e \<noteq> None \<Longrightarrow> map_find (put_tracker e t ts) e = Some t"
  by (induction ts) auto

lemma put_tracker_twice [simp]: "put_tracker e t (put_tracker e u ts) = put_tracker e t ts"
  by (induction ts) auto

section \<open>The property of the tracker client\<close>

text \<open>C36. When the tracker a logged-in client talks to has gone, the next request, other than a login, is answered by the next
  tracker of its list that is up, and the client stays with that tracker: it logs in there with the credentials on file, and whatever the answer
  to that is, passes on the answer to the same request. If the login was accepted, that is the answer to the logged-in user, as if
  the client had been logged in there all along. If it was refused (a user that this tracker does not know, say), the request is answered
  as one without a login: unless it creates a user, it is refused and leaves the tracker as it was. (Requests, credentials and answer
  fit a message.)\<close>

theorem failover_transparent:
  assumes conn: "tc_open c" "tw_session w = Some (a, ss)" "a \<notin> set (tw_up w)"
    and next_up: "j < length (tc_eps c)" "n = (tc_current c + 1 + j) mod length (tc_eps c)" "tc_eps c ! n = b" "b \<in> set (tw_up w)"
      "\<forall>i < j. tc_eps c ! ((tc_current c + 1 + i) mod length (tc_eps c)) \<notin> set (tw_up w)"
      "map_find (tw_trackers w) b = Some tb"
    and login: "tc_logged_in c" "str_ok (tc_last_uid c)" "str_ok (tc_last_pwd c)" "length (login_bytes c) \<le> unat MAX_PAYLOAD"
      "login (tc_last_uid c) (tc_last_pwd c) (tw_ip w) (tc_last_port c) (tr_state tb) = (ls, st)"
    and ty: "type \<noteq> msg_code MSG_LOGIN"
    and d: "dispatch (tw_now w) type payload
        (if ls = ST_OK then \<lparr>ss_peer_ip = tw_ip w, ss_user = tc_last_uid c, ss_seed_port = tc_last_port c\<rparr> else new_session (tw_ip w))
        (tb\<lparr>tr_state := st\<rparr>)
      = (ss', t', (s, body), out)"
    and len: "length payload \<le> unat MAX_PAYLOAD" "length body \<le> unat MAX_PAYLOAD"
  shows "tc_request tracker_link type payload c w =
    (Some (status_code s, body), c\<lparr>tc_current := n\<rparr>,
     w\<lparr>tw_session := Some (b, ss'), tw_trackers := put_tracker b t' (tw_trackers w)\<rparr>) \<and>
    (ls \<noteq> ST_OK \<and> type \<noteq> msg_code MSG_CREATE_USER \<longrightarrow> t' = tb \<and> s \<in> {ST_NOT_LOGGED_IN, ST_NOT_IMPLEMENTED})"
proof (intro conjI impI)
  let ?w2 = "w\<lparr>tw_session := Some (b, new_session (tw_ip w))\<rparr>"
  let ?w3 = "w\<lparr>tw_session := Some (b, replayed c (tw_ip w) ls), tw_trackers := put_tracker b (tb\<lparr>tr_state := st\<rparr>) (tw_trackers w)\<rparr>"
  note d' = d [folded replayed_def]
  have joined: "tracker_join b (lk_close tracker_link w) = ?w2"
    using conn by (simp add: tracker_join_def tracker_link_def tracker_close_def split: option.split)
  have 1: "lk_talk tracker_link (msg_code MSG_LOGIN) (login_bytes c) ?w2 = (Some (status_code ls, []), ?w3)"
    using next_up(4,6) login(4) dispatch_login [OF login(2,3,5), of "tw_now w"]
    by (simp add: tracker_link_def tracker_talk_def)
  have 2: "lk_talk tracker_link type payload ?w3 = (Some (status_code s, body),
      w\<lparr>tw_session := Some (b, ss'), tw_trackers := put_tracker b t' (tw_trackers w)\<rparr>)"
    using next_up(4,6) d' len by (simp add: tracker_link_def tracker_talk_def find_put_tracker)
  show "tc_request tracker_link type payload c w =
    (Some (status_code s, body), c\<lparr>tc_current := n\<rparr>,
     w\<lparr>tw_session := Some (b, ss'), tw_trackers := put_tracker b t' (tw_trackers w)\<rparr>)"
    using tracker_net.request_next [OF conn(1) _ conn(3) login(1) ty next_up(1) _ _ _ 2] conn(2) next_up 1 joined by simp
next
  assume r: "ls \<noteq> ST_OK \<and> type \<noteq> msg_code MSG_CREATE_USER"
  then have "st = tr_state tb" using login(5) by (auto simp: login_def Let_def split: option.splits if_splits)
  moreover obtain e where "dispatch (tw_now w) type payload (new_session (tw_ip w)) (tb\<lparr>tr_state := st\<rparr>) =
      (new_session (tw_ip w), tb\<lparr>tr_state := st\<rparr>, (e, []), [])" "e \<in> {ST_NOT_LOGGED_IN, ST_NOT_IMPLEMENTED}"
    using dispatch_guard [of "new_session (tw_ip w)" type "tw_now w" payload "tb\<lparr>tr_state := st\<rparr>"] r ty
    by (auto simp: new_session_def)
  ultimately show "t' = tb" "s \<in> {ST_NOT_LOGGED_IN, ST_NOT_IMPLEMENTED}" using d r by auto
qed

text \<open>A client whose tracker on port 1 is down, with another on port 2 that knows the user.\<close>

definition sample_client :: tracker_client where
  "sample_client = \<lparr>tc_eps = [\<lparr>te_ip = [9], te_port = 1\<rparr>, \<lparr>te_ip = [9], te_port = 2\<rparr>], tc_open = True, tc_current = 0,
     tc_logged_in = True, tc_last_uid = [1], tc_last_pwd = [7], tc_last_port = 80\<rparr>"

definition sample_known :: tracker where
  "sample_known = \<lparr>tr_state = snd (create_user [1] [7] new_tracker), tr_sync = new_sync\<rparr>"

definition sample_world :: tracker_world where
  "sample_world = \<lparr>tw_trackers = [(\<lparr>te_ip = [9], te_port = 2\<rparr>, sample_known)], tw_up = [\<lparr>te_ip = [9], te_port = 2\<rparr>],
     tw_session = Some (\<lparr>te_ip = [9], te_port = 1\<rparr>, new_session [8]), tw_ip = [8], tw_now = 0\<rparr>"

theorem failover_transparent_witness:
  "fst (tc_request tracker_link (msg_code MSG_LIST_GROUPS) [] sample_client sample_world) = Some (0, [0, 0, 0, 0]) \<and>
   tc_current (fst (snd (tc_request tracker_link (msg_code MSG_LIST_GROUPS) [] sample_client sample_world))) = 1"
proof -
  obtain st where l: "login [1] [7] [8] 80 (tr_state sample_known) = (ST_OK, st)" "ts_groups st = []"
    by (simp add: sample_known_def create_user_def login_def new_tracker_def set_user_def)
  have "(4 :: nat) = Suc (Suc (Suc (Suc 0)))" by simp
  then have zero: "nat_le 4 0 = [0, 0, 0, 0]" by (simp only: nat_le.simps) simp
  have d: "dispatch 0 (msg_code MSG_LIST_GROUPS) [] \<lparr>ss_peer_ip = [8], ss_user = [1], ss_seed_port = 80\<rparr>
      (sample_known\<lparr>tr_state := st\<rparr>) =
    (\<lparr>ss_peer_ip = [8], ss_user = [1], ss_seed_port = 80\<rparr>, sample_known\<lparr>tr_state := st\<rparr>, (ST_OK, [0, 0, 0, 0]), [])"
    using l(2) zero by (simp add: dispatch_def strs_bytes_def list_groups_def enc_u32_def)
  have "tc_request tracker_link (msg_code MSG_LIST_GROUPS) [] sample_client sample_world =
    (Some (status_code ST_OK, [0, 0, 0, 0]), sample_client\<lparr>tc_current := 1\<rparr>,
     sample_world\<lparr>tw_session := Some (\<lparr>te_ip = [9], te_port = 2\<rparr>, \<lparr>ss_peer_ip = [8], ss_user = [1], ss_seed_port = 80\<rparr>),
       tw_trackers := put_tracker \<lparr>te_ip = [9], te_port = 2\<rparr> (sample_known\<lparr>tr_state := st\<rparr>) (tw_trackers sample_world)\<rparr>)"
    by (rule failover_transparent [where j = 0 and a = "\<lparr>te_ip = [9], te_port = 1\<rparr>" and tb = sample_known and st = st and ls = ST_OK and out = "[]", THEN conjunct1])
      (use l(1) d in \<open>simp_all add: sample_client_def sample_world_def str_ok_def login_bytes_def\<close>)
  then show ?thesis by (simp only: fst_conv snd_conv) (simp add: sample_client_def)
qed

end
