(* ===== verification/Peer_Exchange.thy ===== *)
theory Peer_Exchange
  imports Download_Manager Tracker_Client
begin

text \<open>
  The components of the client against their counterparts: the peer list that the tracker's session encodes and
  \<open>decode_peer_list\<close> reads, and a piece on its way from the seeder of one client into the store of another.
\<close>

section \<open>The peer list\<close>

definition addr_of :: "peer_ref \<Rightarrow> peer_addr" where
  "addr_of p = \<lparr>pa_user_id = pr_user_id p, pa_ip = pr_ip p, pa_port = pr_port p\<rparr>"

lemma rd_seeder_enc [wire]:
  "peer_fits p \<Longrightarrow> rd_seeder (buf_at pre (enc_peer p @ rest)) = Some (addr_of p, buf_at (pre @ enc_peer p) rest)"
  by (simp add: rd_seeder_def enc_peer_def addr_of_def peer_fits_def wire)

lemma rd_seeders_enc:
  "list_all peer_fits ps \<Longrightarrow>
   rd_seeders self (length ps) out (buf_at pre (concat (map enc_peer ps) @ rest)) =
     (True, out @ map addr_of (filter (\<lambda>p. pr_user_id p \<noteq> self) ps))"
proof (induction ps arbitrary: pre out)
  case (Cons p ps)
  then show ?case using rd_seeder_enc [of p pre "concat (map enc_peer ps) @ rest"] by (simp add: addr_of_def)
qed simp

lemma meta_bytes_enc:
  "meta_bytes fm = enc_u64 (fm_size fm) @ enc_str (fm_hash fm) @ enc_list enc_str (fm_piece_hashes fm) @
    enc_list (enc_peer \<circ> snd) (fm_seeders fm)"
  by (simp add: meta_bytes_def enc_list_def Let_def fold_put_strs fold_put_snd [of put_peer enc_peer])

lemma decode_meta_bytes:
  assumes "file_fits fm"
  shows "decode_peer_list (meta_bytes fm) self out =
    (True, map addr_of (filter (\<lambda>p. pr_user_id p \<noteq> self) (map snd (fm_seeders fm))))"
proof -
  let ?ps = "map snd (fm_seeders fm)"
  have f: "str_ok (fm_hash fm)" "len_ok (fm_piece_hashes fm)" "list_all str_ok (fm_piece_hashes fm)"
    "len_ok (fm_seeders fm)" "list_all peer_fits ?ps"
    using assms by (auto simp: file_fits_def list.pred_map comp_def)
  obtain pre where "rd_file_meta_head (of_bytes (meta_bytes fm)) =
      Some ((fm_size fm, fm_hash fm, fm_piece_hashes fm, of_nat (length (fm_seeders fm))),
        buf_at pre (concat (map enc_peer ?ps)))"
    using f by (simp add: rd_file_meta_head_def meta_bytes_enc enc_list_def wire comp_def)
  then show ?thesis
    using rd_seeders_enc [OF f(5), of self "[]" pre "[]"] f(4) by (simp add: decode_peer_list_def)
qed

lemma get_meta_reply:
  assumes "ss_user ss \<noteq> []" and "str_ok gid" and "str_ok fname"
    and "get_file gid (ss_user ss) fname no_meta (tr_state t) = (ST_OK, fm)"
  shows "dispatch now (msg_code MSG_GET_FILE_META) (buf_data (put_str fname (put_str gid new_buf))) ss t =
    (ss, t, (ST_OK, meta_bytes fm), [])"
  using assms by (simp add: dispatch_def do_get_meta_def rd_str2_def wire)

section \<open>A piece on its way\<close>

lemma layout_piece_len:
  assumes "layout_ok s f" and "unat i < unat (ps_count s)"
  shows "length (piece_slice s f (unat i)) = unat (piece_len s i)" and "unat (piece_len s i) \<le> unat PIECE_SIZE"
proof -
  have p: "piece_slice s f (unat i) = file_pieces (unat PIECE_SIZE) f ! unat i" "piece_in s f (unat i)"
    using layout_slice [OF assms] by blast+
  show l: "length (piece_slice s f (unat i)) = unat (piece_len s i)"
    using p(2) by (simp add: piece_slice_def piece_in_def)
  have "unat i < length (file_pieces (unat PIECE_SIZE) f)" using assms by (simp add: layout_ok_def)
  then have "length (file_pieces (unat PIECE_SIZE) f ! unat i) \<le> unat PIECE_SIZE" by (simp only: nth_file_pieces) simp
  then show "unat (piece_len s i) \<le> unat PIECE_SIZE" using l p(1) by simp
qed

lemma write_piece_calm:
  assumes "unat i < unat (ps_count s)" and "length d = unat (piece_len s i)" and "hash_buffer d = h" and "ps_fd s" and "io_calm es"
  shows "fst (write_piece i d h es s f)"
proof -
  have "\<not> ps_count s \<le> i" using assms(1) by (simp add: word_le_nat_alt)
  then show ?thesis
    using assms(2-4) pwrite_all_calm [OF assms(5), of d "piece_off i" f]
    by (auto simp: write_piece_def split: prod.splits bool.splits)
qed

definition transfer_ok :: "store_heap \<Rightarrow> seeder \<Rightarrow> bytes \<Rightarrow> bytes \<Rightarrow> u32 \<Rightarrow> bytes list \<Rightarrow> store_ref \<Rightarrow> bool" where
  "transfer_ok H sd g n i hashes r \<longleftrightarrow> find_share (ShareKey g n) sd = Some r \<and> str_ok g \<and> str_ok n \<and>
     ps_fd (fst (H r)) \<and> have_piece (fst (H r)) i \<and> layout_ok (fst (H r)) (snd (H r)) \<and>
     verified hashes (fst (H r)) (snd (H r))"

lemma serve_transfer:
  assumes "transfer_ok H sd g n i hashes r" and "io_calm es"
  shows "serve_request H es sd (msg_code MSG_PIECE_REQUEST) (piece_request_bytes g n i) =
      (MSG_PIECE_DATA, ST_OK, piece_data_bytes i (piece_slice (fst (H r)) (snd (H r)) (unat i)))"
    and "hash_buffer (piece_slice (fst (H r)) (snd (H r)) (unat i)) = hashes ! unat i"
    and "length (piece_slice (fst (H r)) (snd (H r)) (unat i)) = unat (piece_len (fst (H r)) i)"
    and "length (piece_data_bytes i (piece_slice (fst (H r)) (snd (H r)) (unat i))) \<le> unat MAX_PAYLOAD"
proof -
  have a: "find_share (ShareKey g n) sd = Some r" "str_ok g" "str_ok n" "ps_fd (fst (H r))" "have_piece (fst (H r)) i"
    "layout_ok (fst (H r)) (snd (H r))" "verified hashes (fst (H r)) (snd (H r))"
    using assms(1) by (auto simp: transfer_ok_def)
  have i: "unat i < unat (ps_count (fst (H r)))" "bit_of (ps_have (fst (H r))) (unat i)"
    using a(5) by (auto simp: have_piece_iff)
  note sl = layout_slice [OF a(6) i(1)]
  show "serve_request H es sd (msg_code MSG_PIECE_REQUEST) (piece_request_bytes g n i) =
      (MSG_PIECE_DATA, ST_OK, piece_data_bytes i (piece_slice (fst (H r)) (snd (H r)) (unat i)))"
    by (rule serve_have) (use a sl assms(2) in auto)
  show "hash_buffer (piece_slice (fst (H r)) (snd (H r)) (unat i)) = hashes ! unat i"
    using a(7) i by (simp add: verified_def)
  show l: "length (piece_slice (fst (H r)) (snd (H r)) (unat i)) = unat (piece_len (fst (H r)) i)"
    by (rule layout_piece_len [OF a(6) i(1)])
  show "length (piece_data_bytes i (piece_slice (fst (H r)) (snd (H r)) (unat i))) \<le> unat MAX_PAYLOAD"
    using layout_piece_len(2) [OF a(6) i(1)] l by simp
qed

section \<open>The properties of the exchange\<close>

text \<open>A logged-in member who asks the tracker for a file learns exactly its recorded seeders other than itself, in the
  tracker's order, with the addresses the tracker has: the session's encoding and the client's decoder agree.\<close>

lemma peers_listed:
  assumes "ss_user ss \<noteq> []" and "str_ok gid" and "str_ok fname"
    and "get_file gid (ss_user ss) fname no_meta (tr_state t) = (ST_OK, fm)" and "file_fits fm"
  shows "\<exists>body. dispatch now (msg_code MSG_GET_FILE_META) (buf_data (put_str fname (put_str gid new_buf))) ss t =
      (ss, t, (ST_OK, body), []) \<and>
    decode_peer_list body (ss_user ss) out =
      (True, map addr_of (filter (\<lambda>p. pr_user_id p \<noteq> ss_user ss) (map snd (fm_seeders fm))))"
  using get_meta_reply [OF assms(1-4)] decode_meta_bytes [OF assms(5)] by blast

lemma sample_meta_fits:
  "\<exists>fm. get_file [2] [5] [3] no_meta (fold step sample_commands new_tracker) = (ST_OK, fm) \<and> file_fits fm \<and>
    fm_seeders fm = [([1], \<lparr>pr_user_id = [1], pr_ip = [9], pr_port = 80, pr_bitfield = [0xFF]\<rparr>)]"
  by (simp add: sample_state get_file_def file_fits_def peer_fits_def len_ok_def str_ok_def)

text \<open>C35. A piece that one client's seeder holds reaches the other client: the request that \<open>fetch_piece\<close> sends is read by
  the seeder as it was sent, its answer fits a message, and however both arrive \<open>fetch_piece\<close> returns the bytes of the file;
  their hash is the published one, and the store of the downloader, opened for the same file, accepts them.\<close>

theorem piece_transferred:
  assumes "transfer_ok H sd g n i hashes r" and "io_calm es"
    and "send_msg (msg_code MSG_PIECE_REQUEST) 0 (piece_request_bytes g n i) tx = Some (1, out, tx')"
    and "length (piece_request_bytes g n i) \<le> unat MAX_PAYLOAD" and "rx_bytes rx1 = out"
    and "ps_count st = ps_count (fst (H r))" and "ps_size st = ps_size (fst (H r))" and "ps_fd st" and "io_calm es'"
  shows "\<exists>hdr p rx1' mt body. recv_msg old rx1 = Some (1, hdr, p, rx1') \<and>
    serve_request H es sd (h_type hdr) p = (mt, ST_OK, body) \<and> length body \<le> unat MAX_PAYLOAD \<and>
    (\<forall>tx2 out2 tx2' rx rest. send_msg (msg_code mt) (status_code ST_OK) body tx2 = Some (1, out2, tx2') \<longrightarrow>
       rx_bytes rx = out2 @ rest \<longrightarrow>
       (\<exists>d rx'. fetch_piece g n i tx rx = Some (Some d, tx', rx') \<and> d = piece_slice (fst (H r)) (snd (H r)) (unat i) \<and>
          fst (write_piece i d (hashes ! unat i) es' st f)))"
proof -
  let ?d = "piece_slice (fst (H r)) (snd (H r)) (unat i)"
  note s = serve_transfer [OF assms(1,2)]
  have rx1: "rx_bytes rx1 = header_bytes (msg_code MSG_PIECE_REQUEST) 0 (length (piece_request_bytes g n i)) @
      piece_request_bytes g n i @ []"
    using send_msg_prefix [OF assms(3)] assms(5) by simp
  obtain rx1' where 1: "recv_msg old rx1 = Some (1, \<lparr>h_magic = PROTO_MAGIC, h_type = msg_code MSG_PIECE_REQUEST, h_status = 0,
      h_length = of_nat (length (piece_request_bytes g n i))\<rparr>, piece_request_bytes g n i, rx1')"
    using recv_msg_frame [OF assms(4) rx1, of old] by blast
  have len: "piece_len st i = piece_len (fst (H r)) i" using assms(6,7) by (simp add: piece_len_def)
  have "unat i < unat (ps_count st)" using assms(1,6) by (simp add: transfer_ok_def have_piece_iff)
  then have w: "fst (write_piece i ?d (hashes ! unat i) es' st f)"
    using s(2,3) assms(8,9) len by (intro write_piece_calm) simp_all
  have "\<exists>rx'. fetch_piece g n i tx rx = Some (Some ?d, tx', rx')"
    if "send_msg (msg_code MSG_PIECE_DATA) (status_code ST_OK) (piece_data_bytes i ?d) tx2 = Some (1, out2, tx2')"
      "rx_bytes rx = out2 @ rest" for tx2 out2 tx2' rx rest
    using fetch_reply [OF assms(3) s(4), of rx rest] send_msg_prefix [OF that(1)] that(2) by auto
  then show ?thesis using 1 s(1,4) w
    by (intro exI [of _ "piece_request_bytes g n i"] exI [of _ MSG_PIECE_DATA] exI [of _ "piece_data_bytes i ?d"] exI) auto
qed

lemma sample_transfer:
  "transfer_ok (\<lambda>_. (\<lparr>ps_fd = True, ps_size = 2, ps_count = 1, ps_have = mark 0 [0]\<rparr>, [7, 8]))
    (add_share (ShareKey [1] [2]) 0 new_seeder) [1] [2] 0 [hash_buffer [7, 8]] 0"
proof -
  let ?s = "\<lparr>ps_fd = True, ps_size = 2, ps_count = 1, ps_have = mark 0 [0]\<rparr>"
  have "unat (piece_len ?s 0) = 2" by (simp add: piece_len_def)
  then show ?thesis
    by (simp add: transfer_ok_def find_share_ops str_ok_def have_piece_iff bit_of_mark layout_ok_def verified_def piece_slice_def piece_in_def)
qed

theorem piece_transferred_witness:
  "\<exists>hdr p rx1' mt body. recv_msg (no_header, [])
      [RxData (header_bytes (msg_code MSG_PIECE_REQUEST) 0 (length (piece_request_bytes [1] [2] 0)) @ piece_request_bytes [1] [2] 0)] =
        Some (1, hdr, p, rx1') \<and>
    serve_request (\<lambda>_. (\<lparr>ps_fd = True, ps_size = 2, ps_count = 1, ps_have = mark 0 [0]\<rparr>, [7, 8])) []
      (add_share (ShareKey [1] [2]) 0 new_seeder) (h_type hdr) p = (mt, ST_OK, body)"
proof -
  let ?q = "piece_request_bytes [1] [2] 0"
  have len: "length ?q = 14" by (simp add: piece_request_bytes_def)
  then have "?q \<noteq> []" by auto
  note sent = send_msg_two [OF this, of "msg_code MSG_PIECE_REQUEST" 0]
  show ?thesis
    using piece_transferred [OF sample_transfer _ sent, of "[]"
        "[RxData (header_bytes (msg_code MSG_PIECE_REQUEST) 0 (length ?q) @ ?q)]"
        "\<lparr>ps_fd = True, ps_size = 2, ps_count = 1, ps_have = [0]\<rparr>" "[]" "(no_header, [])" "[0, 0]"] len
    by (simp only: list.size) fastforce
qed

end
