(* ===== verification/Text_Input.thy ===== *)
theory Text_Input
  imports Net
begin

text \<open>
  The formatted input that both programs use: \<open>stream >> word\<close>, \<open>stream >> int\<close>, the function \<open>tokenize\<close> of
  \<open>client/main.cpp\<close>, and the loop over the lines of \<open>tracker_info.txt\<close> that both \<open>main.cpp\<close> have. The state of a
  stream is the text that is left; \<open>None\<close> is a stream that has failed.
\<close>

section \<open>Words and numbers\<close>

definition read_word :: "bytes \<Rightarrow> (bytes \<times> bytes) option" where
  "read_word s =
    (let t = dropWhile is_space s; w = takeWhile (\<lambda>c. \<not> is_space c) t
     in if w = [] then None else Some (w, drop (length w) t))"

definition INT_MAX :: int where
  "INT_MAX = 2147483647"

text \<open>A sign, if there is one: whether it is a minus, and what follows.\<close>

definition split_sign :: "bytes \<Rightarrow> bool \<times> bytes" where
  "split_sign t = (t \<noteq> [] \<and> hd t = 45, if t \<noteq> [] \<and> (hd t = 45 \<or> hd t = 43) then tl t else t)"

definition read_int :: "bytes \<Rightarrow> (int \<times> bytes) option" where
  "read_int s =
    (let (neg, u) = split_sign (dropWhile is_space s);
         ds = takeWhile is_digit u;
         v = (if neg then - digits_val ds else digits_val ds)
     in if ds = [] \<or> v < - INT_MAX - 1 \<or> v > INT_MAX then None else Some (v, drop (length ds) u))"

lemma read_word_shorter: "read_word s = Some (w, r) \<Longrightarrow> length r < length s"
proof -
  assume "read_word s = Some (w, r)"
  then have w: "w = takeWhile (\<lambda>c. \<not> is_space c) (dropWhile is_space s)" "w \<noteq> []"
    and r: "r = drop (length w) (dropWhile is_space s)"
    by (auto simp: read_word_def Let_def split: if_splits)
  have "length w \<le> length (dropWhile is_space s)" unfolding w(1) by (rule length_takeWhile_le)
  then have "length r < length (dropWhile is_space s)" using w(2) r by (cases w) auto
  then show ?thesis using length_dropWhile_le [of is_space s] by simp
qed

lemma split_sign_shorter: "length (snd (split_sign t)) \<le> length t"
  by (simp add: split_sign_def)

lemma read_int_shorter: "read_int s = Some (v, r) \<Longrightarrow> length r < length s"
proof -
  assume a: "read_int s = Some (v, r)"
  obtain neg u where u: "split_sign (dropWhile is_space s) = (neg, u)" by (cases "split_sign (dropWhile is_space s)")
  have r: "takeWhile is_digit u \<noteq> []" "r = drop (length (takeWhile is_digit u)) u"
    using a by (auto simp: read_int_def u Let_def simp del: takeWhile_eq_Nil_iff split: if_splits)
  have "length u \<le> length s"
    using split_sign_shorter [of "dropWhile is_space s"] length_dropWhile_le [of is_space s] by (simp add: u)
  moreover have "length (takeWhile is_digit u) \<le> length u" by (rule length_takeWhile_le)
  ultimately show ?thesis using r by (cases "takeWhile is_digit u") auto
qed

section \<open>The tokens of a line\<close>

function tokenize :: "bytes \<Rightarrow> bytes list" where
  "tokenize s = (case read_word s of None \<Rightarrow> [] | Some (w, r) \<Rightarrow> w # tokenize r)"
  by auto
termination by (relation "measure length") (auto dest: read_word_shorter)

declare tokenize.simps [simp del]

section \<open>The list of trackers\<close>

text \<open>\<open>while (f >> ip >> port) eps.push_back({ip, static_cast<uint16_t>(port)})\<close>.\<close>

function read_endpoints :: "bytes \<Rightarrow> (bytes \<times> u16) list" where
  "read_endpoints s =
    (case read_word s of
       None \<Rightarrow> []
     | Some (ip, s) \<Rightarrow>
         (case read_int s of None \<Rightarrow> [] | Some (port, s) \<Rightarrow> (ip, of_int port) # read_endpoints s))"
  by auto
termination by (relation "measure length") (auto dest!: read_word_shorter read_int_shorter)

declare read_endpoints.simps [simp del]

section \<open>What is read back\<close>

text \<open>A word has no white space in it.\<close>

definition word_ok :: "bytes \<Rightarrow> bool" where
  "word_ok w \<longleftrightarrow> w \<noteq> [] \<and> list_all (\<lambda>c. \<not> is_space c) w"

definition gap_ok :: "bytes \<Rightarrow> bool" where
  "gap_ok g \<longleftrightarrow> list_all is_space g"

lemma drop_gap: "gap_ok g \<Longrightarrow> dropWhile is_space (g @ s) = dropWhile is_space s"
  by (induction g) (auto simp: gap_ok_def)

lemma read_word_eq:
  assumes "gap_ok g" and "word_ok w" and "s = [] \<or> is_space (hd s)"
  shows "read_word (g @ w @ s) = Some (w, s)"
proof -
  have d: "dropWhile is_space (g @ w @ s) = w @ s"
    using assms(2) by (simp only: drop_gap [OF assms(1)]) (cases w, auto simp: word_ok_def)
  have "takeWhile (\<lambda>c. \<not> is_space c) (w @ s) = w"
    using assms(2,3) by (cases s) (simp_all add: word_ok_def list_all_iff)
  then show ?thesis using d assms(2) by (simp add: read_word_def word_ok_def)
qed

lemma read_word_blank: "gap_ok g \<Longrightarrow> read_word g = None"
proof -
  assume "gap_ok g"
  then have "dropWhile is_space g = []" using drop_gap [of g "[]"] by (simp only: append_Nil2 dropWhile.simps)
  then show ?thesis by (simp add: read_word_def del: dropWhile_eq_Nil_conv)
qed

text \<open>Every token is a word.\<close>

lemma read_word_ok: "read_word s = Some (w, r) \<Longrightarrow> word_ok w"
  by (auto simp: read_word_def word_ok_def Let_def list_all_iff dest: set_takeWhileD split: if_splits)

lemma tokenize_ok: "w \<in> set (tokenize s) \<Longrightarrow> word_ok w"
proof (induction s rule: tokenize.induct)
  case (1 s)
  then show ?case
    by (cases "read_word s") (auto simp: tokenize.simps [of s] dest: read_word_ok)
qed

text \<open>Words separated by white space are the tokens of the line.\<close>

fun spaced :: "(bytes \<times> bytes) list \<Rightarrow> bytes" where
  "spaced [] = []"
| "spaced ((w, g) # ws) = w @ g @ spaced ws"

lemma tokenize_step:
  "gap_ok g \<Longrightarrow> word_ok w \<Longrightarrow> s = [] \<or> is_space (hd s) \<Longrightarrow> tokenize (g @ w @ s) = w # tokenize s"
  by (subst tokenize.simps) (simp add: read_word_eq)

lemma tokenize_gap: "gap_ok g \<Longrightarrow> tokenize (g @ s) = tokenize s"
  by (subst (1 2) tokenize.simps) (simp add: read_word_def drop_gap)

lemma tokenize_spaced:
  "list_all (\<lambda>(w, g). word_ok w \<and> gap_ok g \<and> g \<noteq> []) ws \<Longrightarrow> tokenize (spaced ws) = map fst ws"
proof (induction ws)
  case (Cons p ws)
  obtain w g where p: "p = (w, g)" by (cases p)
  then have a: "word_ok w" "gap_ok g" "g \<noteq> []" using Cons.prems by auto
  have "is_space (hd (g @ spaced ws))" using a(2,3) by (cases g) (auto simp: gap_ok_def)
  then have "tokenize ([] @ w @ (g @ spaced ws)) = w # tokenize (g @ spaced ws)"
    using a(1) by (intro tokenize_step) (auto simp: gap_ok_def)
  then show ?case using Cons p tokenize_gap [OF a(2)] by simp
qed (simp add: tokenize.simps read_word_def)

lemma read_int_decimal:
  assumes "gap_ok g" and "int n \<le> INT_MAX" and "s = [] \<or> \<not> is_digit (hd s)"
  shows "read_int (g @ decimal n @ s) = Some (int n, s)"
proof -
  obtain c ds where c: "decimal n = c # ds" "is_digit c" using decimal_Cons by blast
  have d: "dropWhile is_space (g @ decimal n @ s) = decimal n @ s"
    using c digit_not_space by (simp add: drop_gap [OF assms(1)])
  have t: "takeWhile is_digit (decimal n @ s) = decimal n"
    using decimal_digits [of n] assms(3) by (cases s) (simp_all add: list_all_iff)
  have "split_sign (decimal n @ s) = (False, decimal n @ s)" using c digit_not_space by (simp add: split_sign_def)
  moreover have "decimal n \<noteq> []" using c(1) by simp
  ultimately show ?thesis using assms(2) by (simp add: read_int_def d t decimal_val INT_MAX_def del: takeWhile_append dropWhile_append)
qed

text \<open>A file of lines \<open>ip port\<close> gives these endpoints, in order.\<close>

definition endpoint_line :: "bytes \<times> u16 \<Rightarrow> bytes" where
  "endpoint_line e = fst e @ [32] @ decimal (unat (snd e)) @ [10]"

lemma read_endpoints_lines:
  "gap_ok g \<Longrightarrow> list_all (\<lambda>e. word_ok (fst e)) es \<Longrightarrow>
   read_endpoints (g @ concat (map endpoint_line es)) = es"
proof (induction es arbitrary: g)
  case Nil
  then show ?case by (simp add: read_endpoints.simps read_word_blank)
next
  case (Cons e es)
  obtain ip p where e: "e = (ip, p)" by (cases e)
  let ?r = "concat (map endpoint_line es)"
  have 1: "read_word (g @ ip @ ([32] @ decimal (unat p) @ [10] @ ?r)) = Some (ip, [32] @ decimal (unat p) @ [10] @ ?r)"
    using Cons.prems e by (intro read_word_eq) (auto simp: is_space_def)
  have 2: "read_int ([32] @ decimal (unat p) @ ([10] @ ?r)) = Some (int (unat p), [10] @ ?r)"
  proof (rule read_int_decimal)
    have "unat p \<le> 2147483647" using unat_u16 [of p] by simp
    then show "int (unat p) \<le> INT_MAX" unfolding INT_MAX_def by linarith
  qed (simp_all add: gap_ok_def is_space_def is_digit_def word_le_nat_alt)
  have 3: "read_endpoints ([10] @ ?r) = es"
    using Cons by (intro Cons.IH) (simp_all add: gap_ok_def is_space_def word_le_nat_alt)
  have whole: "g @ concat (map endpoint_line (e # es)) = g @ ip @ ([32] @ decimal (unat p) @ [10] @ ?r)"
    by (simp add: e endpoint_line_def)
  show ?case unfolding whole by (subst read_endpoints.simps) (use 1 2 3 e in simp)
qed

end
