(* ===== verification/Client_Shell.thy ===== *)
theory Client_Shell
  imports Peer_Exchange Text_Input
begin

text \<open>
  \<open>client/main.cpp\<close>: the commands of the console, what they ask of the tracker, of the seeder and of the download
  manager, and what they print. The connection to the trackers is the abstract link of theory \<open>Tracker_Client\<close>.
\<close>

section \<open>The state\<close>

text \<open>
  The objects of \<open>main\<close>, with the heaps of the stores and jobs they point to. \<open>ca_user\<close> is \<open>logged_in_as\<close>.
\<close>

record client_app =
  ca_ip :: bytes
  ca_port :: u16
  ca_tracker :: tracker_client
  ca_seeder :: seeder
  ca_downloads :: download_manager
  ca_user :: bytes
  ca_stores :: store_heap
  ca_jobs :: job_heap

text \<open>
  What happens around one command: the file that is uploaded and the kernel's answers while it is hashed, whether it
  can be opened again, the addresses of a new store and a new job, and the indeterminate value that the port of a \<open>PeerAddr\<close> has
  before it is read.
\<close>

record shell_env =
  se_opened :: bool
  se_disk :: disk
  se_ios :: "nat \<Rightarrow> io_ev list"
  se_cores :: nat
  se_sched :: "nat list"
  se_reopened :: bool
  se_store :: store_ref
  se_job :: job_ref
  se_junk :: "nat \<Rightarrow> u16"

definition out_line :: "bytes \<Rightarrow> bytes" where
  "out_line s = s @ [10]"

section \<open>Reading replies\<close>

text \<open>\<open>in.get(x);\<close> with the result ignored: \<open>x\<close> keeps its value \<open>d\<close> when nothing can be read.\<close>

definition get_or :: "(buffer \<Rightarrow> 'a option \<times> buffer) \<Rightarrow> 'a \<Rightarrow> buffer \<Rightarrow> 'a \<times> buffer" where
  "get_or get d b = (case get b of (v, b') \<Rightarrow> (case v of None \<Rightarrow> d | Some x \<Rightarrow> x, b'))"

fun get_strs :: "nat \<Rightarrow> buffer \<Rightarrow> bytes list \<times> buffer" where
  "get_strs 0 b = ([], b)"
| "get_strs (Suc n) b =
     (let (s, b) = get_or get_str [] b; (ss, b) = get_strs n b in (s # ss, b))"

text \<open>\<open>std::vector<uint8_t> bits(nbits); if (nbits > 0) in.get_raw(bits.data(), nbits);\<close>\<close>

definition get_peer :: "u16 \<Rightarrow> buffer \<Rightarrow> peer_addr \<times> buffer" where
  "get_peer junk b =
    (let (uid, b) = get_or get_str [] b;
         (ip, b) = get_or get_str [] b;
         (port, b) = get_or get_u16 junk b;
         (nbits, b) = get_or get_u32 0 b;
         b = (if nbits > 0 then snd (get_raw (unat nbits) b) else b)
     in (\<lparr>pa_user_id = uid, pa_ip = ip, pa_port = port\<rparr>, b))"

fun get_peers :: "(nat \<Rightarrow> u16) \<Rightarrow> bytes \<Rightarrow> nat \<Rightarrow> buffer \<Rightarrow> peer_addr list" where
  "get_peers junk self 0 b = []"
| "get_peers junk self (Suc n) b =
     (let (pa, b) = get_peer (junk n) b; ps = get_peers junk self n b
      in if pa_user_id pa \<noteq> self then pa # ps else ps)"

text \<open>The size, the hash and the piece hashes, and the peers. \<open>None\<close>: malformed.\<close>

definition read_meta :: "(nat \<Rightarrow> u16) \<Rightarrow> bytes \<Rightarrow> bytes \<Rightarrow> (u64 \<times> bytes \<times> bytes list \<times> peer_addr list) option" where
  "read_meta junk self resp =
    (case do { (sz, b) \<leftarrow> rd get_u64 (of_bytes resp); (h, b) \<leftarrow> rd get_str b; (pc, b) \<leftarrow> rd get_u32 b; Some (sz, h, pc, b) } of
       None \<Rightarrow> None
     | Some (sz, h, pc, b) \<Rightarrow>
         (let (hs, b) = get_strs (unat pc) b; (npeers, b) = get_or get_u32 0 b
          in Some (sz, h, hs, get_peers junk self (unat npeers) b)))"

text \<open>The lists of names.\<close>

definition list_lines :: "bytes \<Rightarrow> bytes" where
  "list_lines resp =
    (let (n, b) = get_or get_u32 0 (of_bytes resp) in concat (map out_line (fst (get_strs (unat n) b))))"

section \<open>The commands\<close>

datatype shell_cmd =
    Sh_Create_User bytes bytes | Sh_Login bytes bytes | Sh_List | Sh_List_Groups | Sh_Create_Group bytes
  | Sh_Join bytes | Sh_Leave bytes | Sh_List_Requests bytes | Sh_Accept bytes bytes | Sh_Upload bytes bytes
  | Sh_List_Files bytes | Sh_Download bytes bytes bytes | Sh_Show_Downloads | Sh_Stop_Share bytes bytes
  | Sh_Logout | Sh_Exit | Sh_Unknown

definition is_cmd :: "bytes list \<Rightarrow> nat \<Rightarrow> string \<Rightarrow> bool" where
  "is_cmd t n name \<longleftrightarrow> length t = n \<and> t ! 0 = str name"

definition parse_cmd :: "bytes list \<Rightarrow> shell_cmd" where
  "parse_cmd t =
    (if is_cmd t 3 ''create_user'' then Sh_Create_User (t ! 1) (t ! 2)
     else if is_cmd t 3 ''login'' then Sh_Login (t ! 1) (t ! 2)
     else if is_cmd t 1 ''list'' then Sh_List
     else if is_cmd t 1 ''list_groups'' then Sh_List_Groups
     else if is_cmd t 2 ''create_group'' then Sh_Create_Group (t ! 1)
     else if is_cmd t 2 ''join_group'' then Sh_Join (t ! 1)
     else if is_cmd t 2 ''leave_group'' then Sh_Leave (t ! 1)
     else if is_cmd t 2 ''list_requests'' then Sh_List_Requests (t ! 1)
     else if is_cmd t 3 ''accept_request'' then Sh_Accept (t ! 1) (t ! 2)
     else if is_cmd t 3 ''upload_file'' then Sh_Upload (t ! 1) (t ! 2)
     else if is_cmd t 2 ''list_files'' then Sh_List_Files (t ! 1)
     else if is_cmd t 4 ''download_file'' then Sh_Download (t ! 1) (t ! 2) (t ! 3)
     else if is_cmd t 1 ''show_downloads'' then Sh_Show_Downloads
     else if is_cmd t 3 ''stop_share'' then Sh_Stop_Share (t ! 1) (t ! 2)
     else if is_cmd t 1 ''logout'' then Sh_Logout
     else if is_cmd t 1 ''exit'' \<or> is_cmd t 1 ''quit'' then Sh_Exit
     else Sh_Unknown)"

text \<open>A request over the client's tracker connection.\<close>

definition ask ::
    "'w link \<Rightarrow> msg_type \<Rightarrow> bytes \<Rightarrow> client_app \<Rightarrow> 'w \<Rightarrow> (u16 \<times> bytes) option \<times> client_app \<times> 'w" where
  "ask L type payload a w =
    (case tc_request L (msg_code type) payload (ca_tracker a) w of (r, c, w) \<Rightarrow> (r, a\<lparr>ca_tracker := c\<rparr>, w))"

definition report :: "(u16 \<times> bytes) option \<Rightarrow> bytes" where
  "report r = (case r of None \<Rightarrow> out_line (str ''tracker unreachable'') | Some (status, _) \<Rightarrow> out_line (status_str status))"

text \<open>Of a command: what is printed, the client and the world afterwards.\<close>

type_synonym 'w done_cmd = "bytes \<times> client_app \<times> 'w"

definition plain_cmd :: "'w link \<Rightarrow> msg_type \<Rightarrow> bytes list \<Rightarrow> client_app \<Rightarrow> 'w \<Rightarrow> 'w done_cmd" where
  "plain_cmd L type args a w =
    (case ask L type (buf_data (fold put_str args new_buf)) a w of (r, a, w) \<Rightarrow> (report r, a, w))"

definition login_cmd :: "'w link \<Rightarrow> bytes \<Rightarrow> bytes \<Rightarrow> client_app \<Rightarrow> 'w \<Rightarrow> 'w done_cmd" where
  "login_cmd L uid pwd a w =
    (case ask L MSG_LOGIN (buf_data (put_u16 (ca_port a) (put_str pwd (put_str uid new_buf)))) a w of
       (r, a, w) \<Rightarrow>
         (report r,
          (case r of
             Some (status, _) \<Rightarrow>
               if status = status_code ST_OK
               then a\<lparr>ca_user := uid, ca_tracker := note_login uid pwd (ca_port a) (ca_tracker a)\<rparr> else a
           | None \<Rightarrow> a), w))"

text \<open>\<open>status\<close> is still \<open>ST_ERR\<close> when no tracker can be reached.\<close>

definition list_cmd :: "'w link \<Rightarrow> msg_type \<Rightarrow> bytes list \<Rightarrow> client_app \<Rightarrow> 'w \<Rightarrow> 'w done_cmd" where
  "list_cmd L type args a w =
    (case ask L type (buf_data (fold put_str args new_buf)) a w of
       (r, a, w) \<Rightarrow>
         (case r of
            None \<Rightarrow> out_line (status_str (status_code ST_ERR))
          | Some (status, resp) \<Rightarrow>
              if status = status_code ST_OK then list_lines resp else out_line (status_str status), a, w))"

definition stop_share_cmd :: "'w link \<Rightarrow> bytes \<Rightarrow> bytes \<Rightarrow> client_app \<Rightarrow> 'w \<Rightarrow> 'w done_cmd" where
  "stop_share_cmd L gid name a w =
    (case ask L MSG_STOP_SHARE (buf_data (put_str name (put_str gid new_buf))) a w of
       (r, a, w) \<Rightarrow>
         (report r,
          (case r of
             Some (status, _) \<Rightarrow>
               if status = status_code ST_OK then a\<lparr>ca_seeder := remove_share (ShareKey gid name) (ca_seeder a)\<rparr> else a
           | None \<Rightarrow> a), w))"

definition logout_cmd :: "'w link \<Rightarrow> client_app \<Rightarrow> 'w \<Rightarrow> 'w done_cmd" where
  "logout_cmd L a w =
    (case ask L MSG_LOGOUT (buf_data (put_str (ca_user a) new_buf)) a w of
       (_, a, w) \<Rightarrow>
         (out_line (str ''logged out''), a\<lparr>ca_user := [], ca_tracker := clear_login (ca_tracker a)\<rparr>, w))"

section \<open>Uploading\<close>

definition basename :: "bytes \<Rightarrow> bytes" where
  "basename path = rev (takeWhile (\<lambda>c. c \<noteq> 47) (rev path))"

definition blob_count :: "bytes \<Rightarrow> u32" where
  "blob_count blob = of_nat (length blob div unat SHA1_HEX_LEN)"

text \<open>\<open>piece_blob.substr(i * SHA1_HEX_LEN, SHA1_HEX_LEN)\<close>, the product on 32 bits.\<close>

definition blob_piece :: "bytes \<Rightarrow> nat \<Rightarrow> bytes" where
  "blob_piece blob i = take (unat SHA1_HEX_LEN) (drop (unat (of_nat i * SHA1_HEX_LEN :: u32)) blob)"

definition upload_bytes :: "bytes \<Rightarrow> bytes \<Rightarrow> u64 \<Rightarrow> bytes \<Rightarrow> bytes \<Rightarrow> bytes" where
  "upload_bytes gid name sz whole blob =
    (let b = put_str gid new_buf;
         b = put_str name b;
         b = put_u64 sz b;
         b = put_str whole b;
         b = put_u32 (blob_count blob) b
     in buf_data (fold (\<lambda>i. put_str (blob_piece blob i)) [0..<unat (blob_count blob)] b))"

definition env_hash :: "shell_env \<Rightarrow> (bytes \<times> bytes \<times> u64) option" where
  "env_hash E = hash_file (se_opened E) PIECE_SIZE (se_ios E) 0 (se_cores E) (se_sched E) (se_disk E)"

definition upload_cmd :: "'w link \<Rightarrow> shell_env \<Rightarrow> bytes \<Rightarrow> bytes \<Rightarrow> client_app \<Rightarrow> 'w \<Rightarrow> 'w done_cmd" where
  "upload_cmd L E gid path a w =
    (if ca_user a = [] then (out_line (str ''not logged in''), a, w)
     else case env_hash E of
       None \<Rightarrow> (out_line (str ''cannot read file''), a, w)
     | Some (whole, blob, sz) \<Rightarrow>
         (case ask L MSG_UPLOAD_FILE (upload_bytes gid (basename path) sz whole blob) a w of
            (None, a, w) \<Rightarrow> (report None, a, w)
          | (Some (status, resp), a, w) \<Rightarrow>
              if status \<noteq> status_code ST_OK then (report (Some (status, resp)), a, w)
              else (case open_for_seed (se_reopened E) sz (blob_count blob) ps_new of
                  (False, _) \<Rightarrow> (out_line (str ''uploaded metadata, but could not reopen file for seeding''), a, w)
                | (True, store) \<Rightarrow>
                    (out_line (str ''uploaded '' @ basename path @ str '' ('' @ decimal (unat sz) @ str '' bytes, '' @
                       decimal (unat (blob_count blob)) @ str '' pieces)''),
                     a\<lparr>ca_stores := (ca_stores a)(se_store E := (store, se_disk E)),
                       ca_seeder := add_share (ShareKey gid (basename path)) (se_store E) (ca_seeder a)\<rparr>, w))))"

section \<open>Downloading\<close>

definition start_job :: "shell_env \<Rightarrow> download_job \<Rightarrow> client_app \<Rightarrow> bytes \<times> client_app" where
  "start_job E job a =
    (let J = (ca_jobs a)(se_job E := job) in
     case dm_start J (se_job E) (ca_downloads a) of
       (True, dm) \<Rightarrow> (out_line (str ''download started''), a\<lparr>ca_jobs := J, ca_downloads := dm\<rparr>)
     | (False, dm) \<Rightarrow>
         (out_line (str ''a download for this group/file is already exists, use show_downloads''),
          a\<lparr>ca_jobs := J, ca_downloads := dm\<rparr>))"

definition download_cmd :: "'w link \<Rightarrow> shell_env \<Rightarrow> bytes \<Rightarrow> bytes \<Rightarrow> bytes \<Rightarrow> client_app \<Rightarrow> 'w \<Rightarrow> 'w done_cmd" where
  "download_cmd L E gid name dest a w =
    (if ca_user a = [] then (out_line (str ''not logged in''), a, w)
     else case ask L MSG_GET_FILE_META (buf_data (put_str name (put_str gid new_buf))) a w of
       (None, a, w) \<Rightarrow> (report None, a, w)
     | (Some (status, resp), a, w) \<Rightarrow>
         if status \<noteq> status_code ST_OK then (report (Some (status, resp)), a, w)
         else (case read_meta (se_junk E) (ca_user a) resp of
             None \<Rightarrow> (out_line (str ''malformed metadata from tracker''), a, w)
           | Some (sz, h, hs, peers) \<Rightarrow>
               if peers = [] then (out_line (str ''no online peers hold this file''), a, w)
               else (case start_job E
                   \<lparr>dj_group = gid, dj_file = name, dj_dest_path = dest, dj_size = sz, dj_file_hash = h,
                    dj_piece_hashes = hs, dj_peers = peers, dj_user_id = ca_user a, dj_store = se_store E,
                    dj_done = False, dj_failed = False\<rparr> a of
                 (out, a) \<Rightarrow> (out, a, w))))"

section \<open>The loop\<close>

text \<open>\<open>None\<close>: \<open>exit\<close> or \<open>quit\<close>.\<close>

definition exec_cmd :: "'w link \<Rightarrow> shell_env \<Rightarrow> bytes \<Rightarrow> shell_cmd \<Rightarrow> client_app \<Rightarrow> 'w \<Rightarrow> 'w done_cmd option" where
  "exec_cmd L E line cmd a w =
    (case cmd of
       Sh_Create_User uid pwd \<Rightarrow> Some (plain_cmd L MSG_CREATE_USER [uid, pwd] a w)
     | Sh_Login uid pwd \<Rightarrow> Some (login_cmd L uid pwd a w)
     | Sh_List \<Rightarrow> Some (out_line (str ''usage: list groups | list files <group> | list requests <group>''), a, w)
     | Sh_List_Groups \<Rightarrow> Some (list_cmd L MSG_LIST_GROUPS [] a w)
     | Sh_Create_Group gid \<Rightarrow> Some (plain_cmd L MSG_CREATE_GROUP [gid] a w)
     | Sh_Join gid \<Rightarrow> Some (plain_cmd L MSG_JOIN_GROUP [gid] a w)
     | Sh_Leave gid \<Rightarrow> Some (plain_cmd L MSG_LEAVE_GROUP [gid] a w)
     | Sh_List_Requests gid \<Rightarrow> Some (list_cmd L MSG_LIST_REQUESTS [gid] a w)
     | Sh_Accept gid uid \<Rightarrow> Some (plain_cmd L MSG_ACCEPT_REQUEST [gid, uid] a w)
     | Sh_Upload gid path \<Rightarrow> Some (upload_cmd L E gid path a w)
     | Sh_List_Files gid \<Rightarrow> Some (list_cmd L MSG_LIST_FILES [gid] a w)
     | Sh_Download gid name dest \<Rightarrow> Some (download_cmd L E gid name dest a w)
     | Sh_Show_Downloads \<Rightarrow> Some (concat (map out_line (status_lines (ca_jobs a) (ca_downloads a))), a, w)
     | Sh_Stop_Share gid name \<Rightarrow> Some (stop_share_cmd L gid name a w)
     | Sh_Logout \<Rightarrow> Some (logout_cmd L a w)
     | Sh_Exit \<Rightarrow> None
     | Sh_Unknown \<Rightarrow> Some (out_line (str ''unrecognised command: '' @ line), a, w))"

definition client_line :: "'w link \<Rightarrow> shell_env \<Rightarrow> bytes \<Rightarrow> client_app \<Rightarrow> 'w \<Rightarrow> 'w done_cmd option" where
  "client_line L E line a w =
    (let t = tokenize line in if t = [] then Some ([], a, w) else exec_cmd L E line (parse_cmd t) a w)"

definition prompt :: "client_app \<Rightarrow> bytes" where
  "prompt a = str ''['' @ ca_ip a @ str '':'' @ decimal (unat (ca_port a)) @ str ''] Client >''"

text \<open>The lines of the input; the loop ends with the input or on \<open>exit\<close>.\<close>

fun client_loop :: "'w link \<Rightarrow> (shell_env \<times> bytes) list \<Rightarrow> client_app \<Rightarrow> 'w \<Rightarrow> 'w done_cmd" where
  "client_loop L [] a w = (prompt a, a, w)"
| "client_loop L ((E, line) # ls) a w =
     (case client_line L E line a w of
        None \<Rightarrow> (prompt a, a, w)
      | Some (out, a', w') \<Rightarrow>
          (case client_loop L ls a' w' of (out', a'', w'') \<Rightarrow> (prompt a @ out @ out', a'', w'')))"

text \<open>The objects that \<open>main\<close> starts with, once a tracker answers and the seeder's port is bound.\<close>

definition new_app :: "bytes \<Rightarrow> u16 \<Rightarrow> tracker_client \<Rightarrow> seeder \<Rightarrow> client_app" where
  "new_app ip port c sd = \<lparr>ca_ip = ip, ca_port = port, ca_tracker = c, ca_seeder = sd,
     ca_downloads = \<lparr>dm_jobs = [], dm_threads = []\<rparr>, ca_user = [], ca_stores = (\<lambda>_. (ps_new, [])),
     ca_jobs = (\<lambda>_. \<lparr>dj_group = [], dj_file = [], dj_dest_path = [], dj_size = 0, dj_file_hash = [], dj_piece_hashes = [],
       dj_peers = [], dj_user_id = [], dj_store = 0, dj_done = False, dj_failed = False\<rparr>)\<rparr>"

text \<open>
  \<open>main\<close> up to the loop. \<open>files\<close> are the files that can be opened; \<open>listening\<close> is whether the port can be bound. \<open>None\<close> is the
  exit with code 1.
\<close>

definition client_start ::
    "'w link \<Rightarrow> (bytes \<Rightarrow> bytes option) \<Rightarrow> bool \<Rightarrow> bytes list \<Rightarrow> 'w \<Rightarrow> client_app option \<times> 'w" where
  "client_start L files listening argv w =
    (if length argv \<noteq> 3 then (None, w)
     else case parse_endpoint (argv ! 1) of
       None \<Rightarrow> (None, w)
     | Some (ip, port) \<Rightarrow>
         (let eps = (case files (argv ! 2) of None \<Rightarrow> []
                     | Some s \<Rightarrow> map (\<lambda>(ip, port). \<lparr>te_ip = ip, te_port = port\<rparr>) (read_endpoints s)) in
          if eps = [] then (None, w)
          else case connect_any L (configure eps new_client) w of
            (False, _, w) \<Rightarrow> (None, w)
          | (True, c, w) \<Rightarrow>
              (case seeder_start listening port new_seeder of
                 (False, _) \<Rightarrow> (None, w)
               | (True, sd) \<Rightarrow> (Some (new_app ip port c sd), w))))"

text \<open>The end of \<open>main\<close>, with the destructor of the download manager.\<close>

definition client_end :: "'w link \<Rightarrow> client_app \<Rightarrow> 'w \<Rightarrow> client_app \<times> 'w" where
  "client_end L a w =
    (case disconnect L (ca_tracker a) w of
       (c, w) \<Rightarrow> (a\<lparr>ca_seeder := seeder_stop (ca_seeder a), ca_tracker := c, ca_downloads := join_all (ca_downloads a)\<rparr>, w))"

end
