(* ===== verification/File_Sharing.thy ===== *)
theory File_Sharing
  imports Client_Shell
begin

text \<open>
  From one user's \<open>upload_file\<close> to another's finished download: the upload message says what the file is, the tracker
  records it, the metadata that \<open>download_file\<close> reads back makes a job for exactly that file, and the job that
  succeeds has it on disk. The trackers are those of theory \<open>Tracker_Client\<close>.
\<close>

section \<open>The upload message\<close>

lemma concat_slice: "list_all (\<lambda>h. length h = n) hs \<Longrightarrow> i < length hs \<Longrightarrow> take n (drop (i * n) (concat hs)) = hs ! i"
proof (induction hs arbitrary: i)
  case (Cons h hs)
  then show ?case by (cases i) auto
qed simp

lemma length_concat_same: "list_all (\<lambda>h. length h = n) hs \<Longrightarrow> length (concat hs) = length hs * n"
  by (induction hs) auto

lemma unat_hex_len [simp]: "unat SHA1_HEX_LEN = 40"
  by (simp add: SHA1_HEX_LEN_def)

lemma unat_times_u32: "i * 40 < 2 ^ 32 \<Longrightarrow> unat (of_nat i * SHA1_HEX_LEN :: u32) = i * 40"
proof -
  assume "i * 40 < 2 ^ 32"
  then have "unat (of_nat (i * 40) :: u32) = i * 40" by (subst unat_of_nat) simp
  then show ?thesis by (simp add: SHA1_HEX_LEN_def)
qed

text \<open>The pieces that the client cuts out of the blob are the piece hashes, as long as the offsets fit 32 bits.\<close>

lemma blob_pieces:
  assumes "list_all (\<lambda>h. length h = 40) hs" and "length hs * 40 < 2 ^ 32"
  shows "unat (blob_count (concat hs)) = length hs"
    and "map (blob_piece (concat hs)) [0..<length hs] = hs"
proof -
  have "(of_nat (length (concat hs) div 40) :: u32) = of_nat (length hs)"
    by (simp add: length_concat_same [OF assms(1)])
  moreover have "length hs < 2 ^ 32" using assms(2) by simp
  ultimately show "unat (blob_count (concat hs)) = length hs" by (simp add: blob_count_def unat_of_nat)
  have "blob_piece (concat hs) i = hs ! i" if "i < length hs" for i
    using that assms unat_times_u32 [of i] concat_slice [of 40 hs i] by (simp add: blob_piece_def)
  then show "map (blob_piece (concat hs)) [0..<length hs] = hs" by (intro nth_equalityI) simp_all
qed

lemma upload_bytes_enc:
  assumes "list_all (\<lambda>h. length h = 40) hs" and "length hs * 40 < 2 ^ 32"
  shows "upload_bytes gid name sz whole (concat hs) =
    enc_str gid @ enc_str name @ enc_u64 sz @ enc_str whole @ enc_list enc_str hs"
proof -
  note b = blob_pieces [OF assms]
  have hs_len: "length hs < 2 ^ 32" using assms(2) by simp
  have "buf_data (fold (\<lambda>i. put_str (blob_piece (concat hs) i)) [0..<length hs] c) = buf_data c @ concat (map enc_str hs)" for c
  proof -
    have "buf_data (fold (\<lambda>i. put_str (blob_piece (concat hs) i)) [0..<length hs] c) =
        buf_data c @ concat (map (\<lambda>i. enc_str (blob_piece (concat hs) i)) [0..<length hs])"
      by (rule fold_put) simp
    also have "map (\<lambda>i. enc_str (blob_piece (concat hs) i)) [0..<length hs] = map enc_str hs"
      using arg_cong [OF b(2), of "map enc_str"] by (simp add: comp_def)
    finally show ?thesis .
  qed
  moreover have "blob_count (concat hs) = of_nat (length hs)" using b(1) hs_len by (simp add: word_unat_eq_iff unat_of_nat)
  ultimately show ?thesis using b(1) by (simp add: upload_bytes_def Let_def enc_list_def)
qed

definition upload_meta :: "bytes \<Rightarrow> u64 \<Rightarrow> bytes \<Rightarrow> bytes list \<Rightarrow> file_meta" where
  "upload_meta name sz whole hs =
     \<lparr>fm_name = name, fm_size = sz, fm_hash = whole, fm_piece_hashes = hs, fm_seeders = []\<rparr>"

lemma rd_upload_bytes:
  assumes hs: "list_all (\<lambda>h. length h = 40) hs" "length hs * 40 < 2 ^ 32"
    and "str_ok gid" and "str_ok name" and "str_ok whole"
  shows "rd_upload (buf_at [] (upload_bytes gid name sz whole (concat hs))) =
    Some ((gid, upload_meta name sz whole hs), buf_at (upload_bytes gid name sz whole (concat hs)) [])"
proof -
  have h: "list_all str_ok hs" using hs(1) by (auto simp: list_all_iff str_ok_def)
  have n: "unat (of_nat (length hs) :: u32) = length hs" using hs(2) by (simp add: unat_of_nat)
  show ?thesis
    using assms(3-5) h n
    by (simp add: upload_bytes_enc [OF hs] rd_upload_def enc_list_def upload_meta_def wire)
qed

section \<open>The file that is uploaded\<close>

abbreviation pieces_of :: "bytes \<Rightarrow> bytes list" where
  "pieces_of \<equiv> file_pieces 524288"

definition hashes_of :: "bytes \<Rightarrow> bytes list" where
  "hashes_of f = map hash_buffer (pieces_of f)"

definition file_hash_of :: "bytes \<Rightarrow> bytes" where
  "file_hash_of f = hash_buffer (concat (hashes_of f))"

text \<open>The file can be read, is not enormous, and the threads that hash it all end.\<close>

definition readable :: "shell_env \<Rightarrow> bytes \<Rightarrow> bool" where
  "readable E f \<longleftrightarrow> se_opened E \<and> se_reopened E \<and> se_disk E = f \<and> (\<forall>i. io_calm (se_ios E i)) \<and> length f < 2 ^ 44 \<and>
     pool_joined (hash_pool PIECE_SIZE (se_ios E) 0 (se_cores E) (se_sched E) f)"

lemma length_hashes_of:
  assumes "length f < 2 ^ 44"
  shows "length (hashes_of f) = (length f + 524287) div 524288" and "length (hashes_of f) \<le> 33554432"
proof -
  show l: "length (hashes_of f) = (length f + 524287) div 524288" by (simp add: hashes_of_def)
  show "length (hashes_of f) \<le> 33554432" using assms unfolding l by simp
qed

lemma hashes_of_40: "list_all (\<lambda>h. length h = 40) (hashes_of f)"
  by (simp add: hashes_of_def list_all_iff)

lemma readable_hash:
  assumes "readable E f"
  shows "env_hash E = Some (file_hash_of f, concat (hashes_of f), of_nat (length f))"
proof -
  have r: "se_opened E" "se_disk E = f" "\<forall>i. io_calm (se_ios E i)" "length f < 2 ^ 44"
    "pool_joined (hash_pool PIECE_SIZE (se_ios E) 0 (se_cores E) (se_sched E) f)"
    using assms by (auto simp: readable_def)
  have n: "(length f + unat PIECE_SIZE - 1) div unat PIECE_SIZE \<le> 33554432" using r(4) by simp
  then have c: "unat (hash_pc f PIECE_SIZE) \<le> 33554432" by (simp add: hash_pc_def unat_of_nat)
  have b: "unat (hash_pc f PIECE_SIZE) + hash_threads 0 (se_cores E) (hash_pc f PIECE_SIZE) < 2 ^ 32"
    using c by (auto simp: hash_threads_def min_def max_def)
  have "hash_file True PIECE_SIZE (se_ios E) 0 (se_cores E) (se_sched E) f =
      Some (rfc_sha1 (piece_blob (unat PIECE_SIZE) f), piece_blob (unat PIECE_SIZE) f, of_nat (length f))"
  proof (rule hash_file_ok [OF b r(5)])
    show "0 < PIECE_SIZE" by (simp add: PIECE_SIZE_def)
  qed (use n r(3) in simp_all)
  then show ?thesis
    using r(1,2) by (simp add: env_hash_def piece_blob_def file_hash_of_def hashes_of_def hash_buffer_rfc)
qed

section \<open>What the tracker records\<close>

definition may_publish :: "bytes \<Rightarrow> bytes \<Rightarrow> bytes \<Rightarrow> tracker_state \<Rightarrow> bool" where
  "may_publish gid uid name st \<longleftrightarrow> gid \<noteq> [] \<and> uid \<noteq> [] \<and> name \<noteq> [] \<and>
     (case map_find (ts_groups st) gid of
        None \<Rightarrow> False
      | Some g \<Rightarrow> set_count (g_members g) uid \<and> map_find (g_files g) name = None)"

text \<open>The entry of a file \<open>f\<close> that one user has just published from this address.\<close>

definition published :: "bytes \<Rightarrow> bytes \<Rightarrow> bytes \<Rightarrow> bytes \<Rightarrow> u16 \<Rightarrow> file_meta" where
  "published name f uid ip port =
     \<lparr>fm_name = name, fm_size = of_nat (length f), fm_hash = file_hash_of f, fm_piece_hashes = hashes_of f,
      fm_seeders = [(uid, \<lparr>pr_user_id = uid, pr_ip = ip, pr_port = port, pr_bitfield = full_bitfield (hashes_of f)\<rparr>)]\<rparr>"

lemma add_published:
  assumes "may_publish gid uid name st"
  shows "\<exists>st'. add_file gid uid ip port (upload_meta name (of_nat (length f)) (file_hash_of f) (hashes_of f)) st = (ST_OK, st') \<and>
    (\<forall>v out. v \<noteq> [] \<longrightarrow> roster_member (rosters_of st) gid v \<longrightarrow>
       get_file gid v name out st' = (ST_OK, published name f uid ip port))"
  using assms
  by (auto simp: may_publish_def add_file_def upload_meta_def get_file_def set_group_def set_file_def published_def roster_member_of
      split: option.splits)

definition upload_msg :: "bytes \<Rightarrow> bytes \<Rightarrow> bytes \<Rightarrow> bytes" where
  "upload_msg gid name f = upload_bytes gid name (of_nat (length f)) (file_hash_of f) (concat (hashes_of f))"

lemma upload_dispatched:
  assumes "may_publish gid (ss_user ss) name (tr_state t)" and "str_ok gid" and "str_ok name" and "length f < 2 ^ 44"
  shows "\<exists>t' out. dispatch now (msg_code MSG_UPLOAD_FILE) (upload_msg gid name f) ss t = (ss, t', (ST_OK, []), out) \<and>
    (\<forall>v meta. v \<noteq> [] \<longrightarrow> roster_member (rosters_of (tr_state t)) gid v \<longrightarrow>
       get_file gid v name meta (tr_state t') = (ST_OK, published name f (ss_user ss) (ss_peer_ip ss) (ss_seed_port ss))) \<and>
    (session_fits ss \<longrightarrow> faithful t t')"
proof -
  let ?m = "upload_meta name (of_nat (length f)) (file_hash_of f) (hashes_of f)"
  have n: "length (hashes_of f) * 40 < 2 ^ 32" using length_hashes_of [OF assms(4)] by simp
  have "str_ok (file_hash_of f)" by (simp add: str_ok_def file_hash_of_def)
  note r = rd_upload_bytes [OF hashes_of_40 n assms(2,3) this, of "of_nat (length f)", folded upload_msg_def]
  obtain st' where st': "add_file gid (ss_user ss) (ss_peer_ip ss) (ss_seed_port ss) ?m (tr_state t) = (ST_OK, st')"
    "\<forall>v out. v \<noteq> [] \<longrightarrow> roster_member (rosters_of (tr_state t)) gid v \<longrightarrow>
       get_file gid v name out st' = (ST_OK, published name f (ss_user ss) (ss_peer_ip ss) (ss_seed_port ss))"
    using add_published [OF assms(1)] by blast
  obtain m out where rep: "record_and_replicate now (msg_code MSG_UPLOAD_FILE) (with_origin (upload_msg gid name f) ss) (tr_sync t) = (m, out)"
    by (cases "record_and_replicate now (msg_code MSG_UPLOAD_FILE) (with_origin (upload_msg gid name f) ss) (tr_sync t)")
  have "ss_user ss \<noteq> []" using assms(1) by (simp add: may_publish_def)
  then have d: "dispatch now (msg_code MSG_UPLOAD_FILE) (upload_msg gid name f) ss t =
      (ss, \<lparr>tr_state = st', tr_sync = m\<rparr>, (ST_OK, []), out)"
    using r st'(1) rep by (simp add: dispatch_def do_upload_def of_bytes_at commit_def)
  have "exact_request (msg_code MSG_UPLOAD_FILE) (upload_msg gid name f)"
    using r by (simp add: exact_request_def consumed_def of_bytes_at)
  then have "session_fits ss \<longrightarrow> faithful t \<lparr>tr_state = st', tr_sync = m\<rparr>"
    using dispatch_faithful [of ss "msg_code MSG_UPLOAD_FILE" "upload_msg gid name f" t now] d by simp
  then show ?thesis using d st'(2) by (intro exI [of _ "\<lparr>tr_state = st', tr_sync = m\<rparr>"] exI [of _ out]) simp
qed

section \<open>The command \<open>upload_file\<close>\<close>

lemma upload_line:
  "tokenize line = [str ''upload_file'', gid, path] \<Longrightarrow> client_line L E line a w = Some (upload_cmd L E gid path a w)"
  by (simp add: client_line_def exec_cmd_def parse_cmd_def is_cmd_def)

lemma download_line:
  "tokenize line = [str ''download_file'', gid, name, dest] \<Longrightarrow>
   client_line L E line a w = Some (download_cmd L E gid name dest a w)"
  by (simp add: client_line_def exec_cmd_def parse_cmd_def is_cmd_def)

text \<open>A client that is logged in to the tracker it is connected to.\<close>

definition on_tracker :: "client_app \<Rightarrow> tracker_world \<Rightarrow> tracker_endpoint \<Rightarrow> session \<Rightarrow> tracker \<Rightarrow> bool" where
  "on_tracker a w e ss t \<longleftrightarrow> tc_open (ca_tracker a) \<and> tw_session w = Some (e, ss) \<and> e \<in> set (tw_up w) \<and>
     map_find (tw_trackers w) e = Some t \<and> ca_user a = ss_user ss \<and> ss_user ss \<noteq> []"

lemma ask_tracker:
  assumes "on_tracker a w e ss t" and "length payload \<le> unat MAX_PAYLOAD" and "length body \<le> unat MAX_PAYLOAD"
    and "dispatch (tw_now w) (msg_code ty) payload ss t = (ss', t', (s, body), out)"
  shows "ask tracker_link ty payload a w = (Some (status_code s, body), a,
    w\<lparr>tw_session := Some (e, ss'), tw_trackers := put_tracker e t' (tw_trackers w)\<rparr>)"
  using tracker_answers [of "ca_tracker a" w e ss t payload "msg_code ty" ss' t' s body out] assms
  by (simp add: ask_def on_tracker_def)

text \<open>What the uploader has afterwards: a share whose store is complete and verified for the file.\<close>

definition seeds_file :: "client_app \<Rightarrow> bytes \<Rightarrow> bytes \<Rightarrow> bytes \<Rightarrow> bool" where
  "seeds_file a gid name f \<longleftrightarrow>
     (\<exists>r st. find_share (ShareKey gid name) (ca_seeder a) = Some r \<and> ca_stores a r = (st, f) \<and>
        complete st \<and> layout_ok st f \<and> verified (hashes_of f) st f)"

lemma upload_command:
  assumes on: "on_tracker a w e ss t" and f: "readable E f"
    and may: "may_publish gid (ss_user ss) (basename path) (tr_state t)"
    and len: "length (upload_msg gid (basename path) f) \<le> unat MAX_PAYLOAD" "str_ok gid" "str_ok (basename path)"
    and line: "tokenize line = [str ''upload_file'', gid, path]"
  shows "\<exists>out a' t'. client_line tracker_link E line a w =
      Some (out, a', w\<lparr>tw_session := Some (e, ss), tw_trackers := put_tracker e t' (tw_trackers w)\<rparr>) \<and>
    seeds_file a' gid (basename path) f \<and>
    (\<forall>v meta. v \<noteq> [] \<longrightarrow> roster_member (rosters_of (tr_state t)) gid v \<longrightarrow> get_file gid v (basename path) meta (tr_state t') =
       (ST_OK, published (basename path) f (ss_user ss) (ss_peer_ip ss) (ss_seed_port ss))) \<and>
    (session_fits ss \<longrightarrow> faithful t t')"
proof -
  let ?n = "basename path" and ?b = "concat (hashes_of f)"
  have big: "length f < 2 ^ 44" and re: "se_reopened E" "se_disk E = f" using f by (simp_all add: readable_def)
  obtain t' out where t': "dispatch (tw_now w) (msg_code MSG_UPLOAD_FILE) (upload_msg gid ?n f) ss t = (ss, t', (ST_OK, []), out)"
    "\<forall>v meta. v \<noteq> [] \<longrightarrow> roster_member (rosters_of (tr_state t)) gid v \<longrightarrow>
       get_file gid v ?n meta (tr_state t') = (ST_OK, published ?n f (ss_user ss) (ss_peer_ip ss) (ss_seed_port ss))"
    "session_fits ss \<longrightarrow> faithful t t'"
    using upload_dispatched [OF may len(2,3) big] by blast
  note asked = ask_tracker [OF on len(1) _ t'(1), unfolded upload_msg_def]
  have c: "unat (blob_count ?b) = length (hashes_of f)" "length (hashes_of f) \<le> 33554432"
    using blob_pieces(1) [OF hashes_of_40, of f] length_hashes_of(2) [OF big] by simp_all
  obtain st where st: "open_for_seed True (of_nat (length f)) (blob_count ?b) ps_new = (True, st)"
    by (simp add: open_for_seed_def)
  have "unat (of_nat (length f) :: u64) = length f" using big by (simp add: unat_of_nat)
  then have ok: "complete st \<and> layout_ok st f \<and> verified (hashes_of f) st f"
    using seed_verified [OF st, of f] c by (simp add: hashes_of_def)
  let ?a = "a\<lparr>ca_stores := (ca_stores a)(se_store E := (st, f)), ca_seeder := add_share (ShareKey gid ?n) (se_store E) (ca_seeder a)\<rparr>"
  have "ca_user a \<noteq> []" using on by (simp add: on_tracker_def)
  then have "\<exists>o'. client_line tracker_link E line a w =
      Some (o', ?a, w\<lparr>tw_session := Some (e, ss), tw_trackers := put_tracker e t' (tw_trackers w)\<rparr>)"
    using asked readable_hash [OF f] st re
    by (simp add: upload_line [OF line] upload_cmd_def)
  moreover have "seeds_file ?a gid ?n f"
    using ok by (auto simp: seeds_file_def find_share_def add_share_def)
  ultimately show ?thesis using t'(2,3) by blast
qed

section \<open>The metadata that \<open>download_file\<close> reads\<close>

lemma get_or_enc [wire]:
  "str_ok s \<Longrightarrow> get_or get_str d (buf_at pre (enc_str s @ rest)) = (s, buf_at (pre @ enc_str s) rest)"
  "get_or get_u16 d16 (buf_at pre (enc_u16 v16 @ rest)) = (v16, buf_at (pre @ enc_u16 v16) rest)"
  "get_or get_u32 d32 (buf_at pre (enc_u32 v32 @ rest)) = (v32, buf_at (pre @ enc_u32 v32) rest)"
  by (simp_all add: get_or_def str_codec.get_enc u16_codec.get_enc u32_codec.get_enc)

lemma get_strs_enc: "list_all str_ok ss \<Longrightarrow>
    get_strs (length ss) (buf_at pre (concat (map enc_str ss) @ rest)) = (ss, buf_at (pre @ concat (map enc_str ss)) rest)"
proof (induction ss arbitrary: pre)
  case (Cons s ss)
  then show ?case using get_or_enc(1) [of s "[]" pre "concat (map enc_str ss) @ rest"] by simp
qed simp

lemma get_peer_enc:
  assumes "peer_fits p"
  shows "get_peer junk (buf_at pre (enc_peer p @ rest)) = (addr_of p, buf_at (pre @ enc_peer p) rest)"
proof -
  have n: "unat (of_nat (length (pr_bitfield p)) :: u32) = length (pr_bitfield p)"
    using assms by (simp add: peer_fits_def str_ok_def unat_of_nat)
  then have z: "(0 :: u32) < of_nat (length (pr_bitfield p)) \<longleftrightarrow> pr_bitfield p \<noteq> []"
    by (simp add: word_less_nat_alt)
  show ?thesis
    using assms n z
    by (simp add: get_peer_def enc_peer_def addr_of_def peer_fits_def wire get_raw_at)
qed

lemma get_peers_enc:
  "list_all peer_fits ps \<Longrightarrow>
   get_peers junk self (length ps) (buf_at pre (concat (map enc_peer ps) @ rest)) =
     map addr_of (filter (\<lambda>p. pr_user_id p \<noteq> self) ps)"
proof (induction ps arbitrary: pre)
  case (Cons p ps)
  then show ?case
    using get_peer_enc [of p "junk (length ps)" pre "concat (map enc_peer ps) @ rest"] by (simp add: Let_def addr_of_def)
qed simp

lemma read_meta_bytes:
  assumes "file_fits fm"
  shows "read_meta junk self (meta_bytes fm) = Some (fm_size fm, fm_hash fm, fm_piece_hashes fm,
    map addr_of (filter (\<lambda>p. pr_user_id p \<noteq> self) (map snd (fm_seeders fm))))"
proof -
  let ?ps = "map snd (fm_seeders fm)"
  have f: "str_ok (fm_hash fm)" "list_all str_ok (fm_piece_hashes fm)" "list_all peer_fits ?ps"
    using assms by (auto simp: file_fits_def list.pred_map comp_def)
  have n: "unat (of_nat (length (fm_piece_hashes fm)) :: u32) = length (fm_piece_hashes fm)"
    "unat (of_nat (length ?ps) :: u32) = length ?ps"
    using assms by (simp_all add: file_fits_def len_ok_def unat_of_nat)
  note p = get_peers_enc [OF f(3), of junk self _ "[]", simplified]
  show ?thesis
    using f n p get_strs_enc [OF f(2)]
    by (simp add: read_meta_def meta_bytes_enc enc_list_def wire comp_def Let_def)
qed

section \<open>The command \<open>download_file\<close>\<close>

definition meta_job :: "shell_env \<Rightarrow> bytes \<Rightarrow> bytes \<Rightarrow> bytes \<Rightarrow> bytes \<Rightarrow> file_meta \<Rightarrow> download_job" where
  "meta_job E gid name dest user fm =
     \<lparr>dj_group = gid, dj_file = name, dj_dest_path = dest, dj_size = fm_size fm, dj_file_hash = fm_hash fm,
      dj_piece_hashes = fm_piece_hashes fm,
      dj_peers = map addr_of (filter (\<lambda>p. pr_user_id p \<noteq> user) (map snd (fm_seeders fm))),
      dj_user_id = user, dj_store = se_store E, dj_done = False, dj_failed = False\<rparr>"

lemma download_command:
  assumes on: "on_tracker a w e ss t" and found: "get_file gid (ss_user ss) name no_meta (tr_state t) = (ST_OK, fm)" "file_fits fm"
    and len: "str_ok gid" "str_ok name" "length gid + length name + 8 \<le> unat MAX_PAYLOAD" "length (meta_bytes fm) \<le> unat MAX_PAYLOAD"
    and peers: "dj_peers (meta_job E gid name dest (ss_user ss) fm) \<noteq> []"
    and free: "map_find (dm_jobs (ca_downloads a)) (gid @ str ''/'' @ name) = None"
    and line: "tokenize line = [str ''download_file'', gid, name, dest]"
  shows "\<exists>a' w'. client_line tracker_link E line a w = Some (out_line (str ''download started''), a', w') \<and>
    ca_jobs a' (se_job E) = meta_job E gid name dest (ss_user ss) fm \<and> se_job E \<in> set (dm_threads (ca_downloads a'))"
proof -
  have on': "ca_user a = ss_user ss" "ss_user ss \<noteq> []" using on by (simp_all add: on_tracker_def)
  have 1: "length (buf_data (put_str name (put_str gid new_buf))) \<le> unat MAX_PAYLOAD" using len(3) by simp
  note asked = ask_tracker [OF on 1 len(4) get_meta_reply [OF on'(2) len(1,2) found(1)]]
  have "read_meta (se_junk E) (ca_user a) (meta_bytes fm) = Some (fm_size fm, fm_hash fm, fm_piece_hashes fm,
      dj_peers (meta_job E gid name dest (ss_user ss) fm))"
    by (simp add: read_meta_bytes [OF found(2)] on'(1) meta_job_def)
  then show ?thesis
    using asked on' peers free
    by (simp add: download_line [OF line] download_cmd_def start_job_def dm_start_def dm_key_def meta_job_def Let_def)
qed

lemma published_fits:
  assumes "str_ok name" and "str_ok uid" and "str_ok ip" and "length f < 2 ^ 44"
  shows "file_fits (published name f uid ip port)"
proof -
  have h: "length (hashes_of f) \<le> 33554432" by (rule length_hashes_of [OF assms(4)])
  then have "length (full_bitfield (hashes_of f)) < 2 ^ 32" by (simp add: full_bitfield_def)
  moreover have "str_ok (file_hash_of f)" by (simp add: str_ok_def file_hash_of_def)
  moreover have "list_all str_ok (hashes_of f)" using hashes_of_40 [of f] by (auto simp: list_all_iff str_ok_def)
  ultimately show ?thesis using assms(1-3) h by (simp add: file_fits_def published_def peer_fits_def str_ok_def len_ok_def)
qed

lemma published_meta_ok:
  assumes "length f < 2 ^ 44"
  shows "meta_ok (meta_job E gid name dest user (published name f uid ip port))"
  using length_hashes_of [OF assms] assms by (simp add: meta_ok_def meta_job_def published_def unat_of_nat)

section \<open>The properties of file sharing\<close>

text \<open>Two users of one tracker, members of one group; the first is about to upload a file of two bytes.\<close>

definition sample_endpoint :: tracker_endpoint where
  "sample_endpoint = \<lparr>te_ip = [9], te_port = 2\<rparr>"

definition sample_tracker :: tracker where
  "sample_tracker = \<lparr>tr_state =
     fold step [CreateUser [1] [7], CreateUser [5] [7], CreateGroup [2] [1], JoinGroup [2] [5], AcceptRequest [2] [1] [5]] new_tracker,
     tr_sync = new_sync\<rparr>"

definition sample_session :: "bytes \<Rightarrow> bytes \<Rightarrow> u16 \<Rightarrow> session" where
  "sample_session uid ip port = \<lparr>ss_peer_ip = ip, ss_user = uid, ss_seed_port = port\<rparr>"

definition sample_net :: tracker_world where
  "sample_net = \<lparr>tw_trackers = [(sample_endpoint, sample_tracker)], tw_up = [sample_endpoint],
     tw_session = Some (sample_endpoint, sample_session [1] [9] 80), tw_ip = [9], tw_now = 0\<rparr>"

definition sample_app :: "bytes \<Rightarrow> bytes \<Rightarrow> u16 \<Rightarrow> client_app" where
  "sample_app uid ip port = (new_app ip port sample_client new_seeder)\<lparr>ca_user := uid\<rparr>"

definition sample_shell :: shell_env where
  "sample_shell = \<lparr>se_opened = True, se_disk = [7, 8], se_ios = (\<lambda>_. []), se_cores = 1, se_sched = [0, 0, 0], se_reopened = True,
     se_store = 0, se_job = 0, se_junk = (\<lambda>_. 0)\<rparr>"

definition sample_upload :: bytes where
  "sample_upload = spaced [(str ''upload_file'', [32]), ([2], [32]), ([3], [10])]"

definition sample_download :: bytes where
  "sample_download = spaced [(str ''download_file'', [32]), ([2], [32]), ([3], [32]), ([4], [10])]"

lemma sample_lines:
  "tokenize sample_upload = [str ''upload_file'', [2], [3]]"
  "tokenize sample_download = [str ''download_file'', [2], [3], [4]]"
  unfolding sample_upload_def sample_download_def
  by (subst tokenize_spaced; simp add: word_ok_def gap_ok_def is_space_def word_le_nat_alt)+

lemma sample_readable: "readable sample_shell [7, 8]"
proof -
  have n: "unat (hash_pc [7, 8] PIECE_SIZE) = 1" by (simp add: hash_pc_def)
  have "pool_joined (hash_pool PIECE_SIZE (\<lambda>_. []) 0 1 [0, 0, 0] [7, 8])"
    unfolding hash_pool_def n Let_def by (rule pool_finishes) (simp_all add: hash_threads_def n)
  then show ?thesis by (simp add: readable_def sample_shell_def io_calm_def)
qed

lemma sample_hashes: "hashes_of [7, 8] = [hash_buffer [7, 8]]" "file_hash_of [7, 8] = hash_buffer (hash_buffer [7, 8])"
  by (simp_all add: file_hash_of_def hashes_of_def file_pieces_def)

lemma sample_publish:
  "may_publish [2] (ss_user (sample_session [1] [9] 80)) [3] (tr_state sample_tracker)"
  "roster_member (rosters_of (tr_state sample_tracker)) [2] [1]"
  "roster_member (rosters_of (tr_state sample_tracker)) [2] [5]"
  unfolding sample_tracker_def tracker.simps sample_members
  by (simp_all add: may_publish_def sample_session_def roster_member_of)

lemma sample_on: "on_tracker (sample_app [1] [9] 80) sample_net sample_endpoint (sample_session [1] [9] 80) sample_tracker"
  by (simp add: on_tracker_def sample_app_def new_app_def sample_client_def sample_net_def sample_session_def)

lemma sample_upload_len: "length (upload_msg [2] [3] [7, 8]) \<le> unat MAX_PAYLOAD"
  using upload_bytes_enc [OF hashes_of_40 [of "[7, 8]"]]
  by (simp add: upload_msg_def sample_hashes enc_list_def)

lemma sample_meta_job:
  "meta_job sample_shell [2] [3] [4] [5] (published [3] [7, 8] [1] [9] 80) = sample_job"
  by (simp add: meta_job_def published_def sample_job_def sample_shell_def sample_hashes addr_of_def)

lemma sample_basename: "basename [3] = [3]"
  by (simp add: basename_def)

text \<open>The upload and the download of the sample.\<close>

lemma sample_uploaded:
  "\<exists>out a' t'. client_line tracker_link sample_shell sample_upload (sample_app [1] [9] 80) sample_net =
      Some (out, a', sample_net\<lparr>tw_session := Some (sample_endpoint, sample_session [1] [9] 80),
        tw_trackers := put_tracker sample_endpoint t' (tw_trackers sample_net)\<rparr>) \<and>
    get_file [2] [5] [3] no_meta (tr_state t') = (ST_OK, published [3] [7, 8] [1] [9] 80)"
proof -
  let ?ss = "sample_session [1] [9] 80"
  have ss: "ss_user ?ss = [1]" "ss_peer_ip ?ss = [9]" "ss_seed_port ?ss = 80" by (simp_all add: sample_session_def)
  show ?thesis
    using upload_command [OF sample_on sample_readable, of "[2]" "[3]" sample_upload, unfolded sample_basename ss,
        OF sample_publish(1) [unfolded ss] sample_upload_len _ _ sample_lines(1)] sample_publish(3)
    by (fastforce simp: str_ok_def)
qed

lemma sample_meta_len: "length (meta_bytes (published [3] [7, 8] [1] [9] 80)) \<le> unat MAX_PAYLOAD"
  by (simp add: meta_bytes_enc published_def sample_hashes enc_list_def enc_peer_def full_bitfield_def)

lemma sample_downloaded:
  assumes "map_find (tw_trackers w) sample_endpoint = Some t" and "tw_up w = [sample_endpoint]"
    and "tw_session w = Some (sample_endpoint, sample_session [5] [8] 81)"
    and "get_file [2] [5] [3] no_meta (tr_state t) = (ST_OK, published [3] [7, 8] [1] [9] 80)"
  shows "\<exists>a' w'. client_line tracker_link sample_shell sample_download (sample_app [5] [8] 81) w =
      Some (out_line (str ''download started''), a', w') \<and> ca_jobs a' 0 = sample_job"
proof -
  have on: "on_tracker (sample_app [5] [8] 81) w sample_endpoint (sample_session [5] [8] 81) t"
    using assms(1-3) by (simp add: on_tracker_def sample_app_def new_app_def sample_client_def sample_session_def)
  have u: "ss_user (sample_session [5] [8] 81) = [5]" by (simp add: sample_session_def)
  have "file_fits (published [3] [7, 8] [1] [9] 80)" by (rule published_fits) (simp_all add: str_ok_def)
  moreover have "dj_peers sample_job \<noteq> []" "se_job sample_shell = 0" "dm_jobs (ca_downloads (sample_app [5] [8] 81)) = []"
    by (simp_all add: sample_job_def sample_shell_def sample_app_def new_app_def)
  ultimately show ?thesis
    using download_command [OF on, where gid = "[2]" and name = "[3]" and dest = "[4]" and E = sample_shell
        and line = sample_download and fm = "published [3] [7, 8] [1] [9] 80"]
      assms(4) sample_meta_len sample_lines(2) sample_meta_job u by (fastforce simp: str_ok_def)
qed

text \<open>C15. A logged-in member who uploads a file it can read publishes exactly that file: the command hashes it, the tracker
  lists it for every member of the group with its size, its hash and the hash of each piece and with the uploader as its seeder,
  the client serves it from a store that is complete and verified, and the tracker's peer is sent an operation that it will apply
  with the same result. The message has to fit \<open>MAX_PAYLOAD\<close>.\<close>

theorem upload_published:
  assumes "on_tracker a w e ss t" and "readable E f" and "may_publish gid (ss_user ss) (basename path) (tr_state t)"
    and "length (upload_msg gid (basename path) f) \<le> unat MAX_PAYLOAD" and "str_ok gid" and "str_ok (basename path)"
    and "tokenize line = [str ''upload_file'', gid, path]"
  shows "\<exists>out a' t'. client_line tracker_link E line a w =
      Some (out, a', w\<lparr>tw_session := Some (e, ss), tw_trackers := put_tracker e t' (tw_trackers w)\<rparr>) \<and>
    seeds_file a' gid (basename path) f \<and>
    (\<forall>v meta. v \<noteq> [] \<longrightarrow> roster_member (rosters_of (tr_state t)) gid v \<longrightarrow> get_file gid v (basename path) meta (tr_state t') =
       (ST_OK, published (basename path) f (ss_user ss) (ss_peer_ip ss) (ss_seed_port ss))) \<and>
    (session_fits ss \<longrightarrow> faithful t t')"
  using assms by (rule upload_command)

theorem upload_published_witness:
  "\<exists>out a' t'. client_line tracker_link sample_shell sample_upload (sample_app [1] [9] 80) sample_net =
      Some (out, a', sample_net\<lparr>tw_session := Some (sample_endpoint, sample_session [1] [9] 80),
        tw_trackers := put_tracker sample_endpoint t' (tw_trackers sample_net)\<rparr>) \<and>
    seeds_file a' [2] [3] [7, 8] \<and>
    get_file [2] [5] [3] no_meta (tr_state t') = (ST_OK, published [3] [7, 8] [1] [9] 80)"
proof -
  let ?ss = "sample_session [1] [9] 80"
  have ss: "ss_user ?ss = [1]" "ss_peer_ip ?ss = [9]" "ss_seed_port ?ss = 80" by (simp_all add: sample_session_def)
  obtain out a' t' where u: "client_line tracker_link sample_shell sample_upload (sample_app [1] [9] 80) sample_net =
      Some (out, a', sample_net\<lparr>tw_session := Some (sample_endpoint, ?ss),
        tw_trackers := put_tracker sample_endpoint t' (tw_trackers sample_net)\<rparr>)" "seeds_file a' [2] [3] [7, 8]"
    and g: "\<forall>v meta. v \<noteq> [] \<longrightarrow> roster_member (rosters_of (tr_state sample_tracker)) [2] v \<longrightarrow>
      get_file [2] v [3] meta (tr_state t') = (ST_OK, published [3] [7, 8] [1] [9] 80)"
    using upload_published [OF sample_on sample_readable, of "[2]" "[3]" sample_upload, unfolded sample_basename ss,
        OF sample_publish(1) [unfolded ss] sample_upload_len _ _ sample_lines(1)]
    by (auto simp: str_ok_def)
  have "get_file [2] [5] [3] no_meta (tr_state t') = (ST_OK, published [3] [7, 8] [1] [9] 80)"
    using g sample_publish(3) by (intro g [rule_format]) simp_all
  then show ?thesis using u by blast
qed

text \<open>C1. From disk to disk: a member uploads a file, another member of the group who is connected to the tracker asks for it, and
  the download this starts succeeds. Then the second has the file, byte for byte unless two different pieces of the same index have
  the same SHA-1, and shares it under the same name.\<close>

theorem shared_file_arrives:
  assumes "on_tracker au w e ssu t" and "readable Eu f" and "may_publish gid (ss_user ssu) (basename path) (tr_state t)"
    and "length (upload_msg gid (basename path) f) \<le> unat MAX_PAYLOAD" and "str_ok gid" and "str_ok (basename path)"
    and "session_fits ssu" and "tokenize lu = [str ''upload_file'', gid, path]"
    and "client_line tracker_link Eu lu au w = Some (ou, au', w1)"
    and "w2 = w1\<lparr>tw_session := Some (e, ssd), tw_ip := ip, tw_now := now\<rparr>"
    and "tc_open (ca_tracker ad)" and "ca_user ad = ss_user ssd" and "ss_user ssd \<noteq> []" and "ss_user ssd \<noteq> ss_user ssu"
    and "roster_member (rosters_of (tr_state t)) gid (ss_user ssd)"
    and "length gid + length (basename path) + 8 \<le> unat MAX_PAYLOAD"
    and "length (meta_bytes (published (basename path) f (ss_user ssu) (ss_peer_ip ssu) (ss_seed_port ssu))) \<le> unat MAX_PAYLOAD"
    and "map_find (dm_jobs (ca_downloads ad)) (gid @ str ''/'' @ basename path) = None"
    and "tokenize ld = [str ''download_file'', gid, basename path, dest]"
    and "client_line tracker_link Ed ld ad w2 = Some (od, ad', w3)"
    and "run_job JE (ca_jobs ad' (se_job Ed)) f0 sd (job', sd', st, f')" and "dj_done job'"
  shows "length f' = length f \<and>
    (f' = f \<or> (\<exists>i < length (pieces_of f). pieces_of f' ! i \<noteq> pieces_of f ! i \<and>
       rfc_sha1 (pieces_of f' ! i) = rfc_sha1 (pieces_of f ! i))) \<and>
    find_share (ShareKey gid (basename path)) sd' = Some (se_store Ed)"
proof -
  let ?n = "basename path" and ?u = "ss_user ssu" and ?v = "ss_user ssd"
  let ?fm = "published ?n f ?u (ss_peer_ip ssu) (ss_seed_port ssu)"
  let ?job = "meta_job Ed gid ?n dest ?v ?fm"
  have big: "length f < 2 ^ 44" using assms(2) by (simp add: readable_def)
  obtain t' where w1: "w1 = w\<lparr>tw_session := Some (e, ssu), tw_trackers := put_tracker e t' (tw_trackers w)\<rparr>"
    and got: "get_file gid ?v ?n no_meta (tr_state t') = (ST_OK, ?fm)"
    using upload_command [OF assms(1-6,8)] assms(9,13,15) by auto
  have on: "on_tracker ad w2 e ssd t'"
    using assms(1,10-13) by (simp add: on_tracker_def w1 find_put_tracker)
  have "file_fits ?fm" using assms(6,7) big by (intro published_fits) (simp_all add: session_fits_def)
  moreover have "dj_peers ?job \<noteq> []" using assms(14) by (simp add: meta_job_def published_def)
  ultimately have j: "ca_jobs ad' (se_job Ed) = ?job"
    using download_command [OF on got _ assms(5,6,16,17) _ assms(18,19), of Ed] assms(20) by auto
  have h: "dj_piece_hashes ?job = map hash_buffer (file_pieces (unat PIECE_SIZE) f)" "unat (dj_size ?job) = length f"
    using big by (simp_all add: meta_job_def published_def hashes_of_def unat_of_nat)
  have "\<not> dj_done ?job" by (simp add: meta_job_def)
  from download_done [OF assms(21) [unfolded j] published_meta_ok [OF big] assms(22) this h]
  show ?thesis by (simp add: job_key_def meta_job_def)
qed

theorem shared_file_arrives_witness:
  "\<exists>ou au' w1 od ad' w3 sd' st f'.
    client_line tracker_link sample_shell sample_upload (sample_app [1] [9] 80) sample_net = Some (ou, au', w1) \<and>
    client_line tracker_link sample_shell sample_download (sample_app [5] [8] 81)
      (w1\<lparr>tw_session := Some (sample_endpoint, sample_session [5] [8] 81), tw_ip := [8], tw_now := 1\<rparr>) = Some (od, ad', w3) \<and>
    run_job sample_env (ca_jobs ad' (se_job sample_shell)) [] new_seeder (sample_job\<lparr>dj_done := True\<rparr>, sd', st, f') \<and>
    length f' = length [7, 8 :: u8] \<and> find_share (ShareKey [2] (basename [3])) sd' = Some (se_store sample_shell)"
proof -
  let ?su = "sample_session [1] [9] 80" and ?sd = "sample_session [5] [8] 81"
  have su: "ss_user ?su = [1]" "ss_peer_ip ?su = [9]" "ss_seed_port ?su = 80" and sd: "ss_user ?sd = [5]"
    by (simp_all add: sample_session_def)
  obtain ou au' t' w1 where u: "client_line tracker_link sample_shell sample_upload (sample_app [1] [9] 80) sample_net = Some (ou, au', w1)"
    and w1: "w1 = sample_net\<lparr>tw_session := Some (sample_endpoint, ?su), tw_trackers := put_tracker sample_endpoint t' (tw_trackers sample_net)\<rparr>"
    and got: "get_file [2] [5] [3] no_meta (tr_state t') = (ST_OK, published [3] [7, 8] [1] [9] 80)"
    using sample_uploaded by blast
  let ?w2 = "w1\<lparr>tw_session := Some (sample_endpoint, ?sd), tw_ip := [8], tw_now := 1\<rparr>"
  obtain od ad' w3 where d: "client_line tracker_link sample_shell sample_download (sample_app [5] [8] 81) ?w2 = Some (od, ad', w3)"
    and j: "ca_jobs ad' 0 = sample_job"
    using sample_downloaded [of ?w2 t'] got by (auto simp: w1 sample_net_def)
  have z: "se_job sample_shell = 0" by (simp add: sample_shell_def)
  obtain st f' where r: "run_job sample_env (ca_jobs ad' (se_job sample_shell)) [] new_seeder
      (sample_job\<lparr>dj_done := True\<rparr>, add_share (ShareKey [2] [3]) 0 new_seeder, st, f')"
    using sample_run unfolding z j by blast
  have "length f' = length [7, 8 :: u8] \<and>
    find_share (ShareKey [2] (basename [3])) (add_share (ShareKey [2] [3]) 0 new_seeder) = Some (se_store sample_shell)"
    using shared_file_arrives [where gid = "[2]" and path = "[3]" and dest = "[4]", OF sample_on sample_readable _ _ _ _ _ _ u
        refl _ _ _ _ _ _ _ _ _ d r] sample_publish sample_upload_len sample_meta_len sample_lines su sd
    by (simp add: sample_basename str_ok_def session_fits_def sample_app_def new_app_def sample_client_def sample_session_def)
  then show ?thesis using u d r by blast
qed

end
