(* ===== verification/Tracker_Cluster.thy ===== *)
theory Tracker_Cluster
  imports Tracker_Session Net
begin

text \<open>
  The two trackers and the link between them (\<open>tracker/sync.cpp\<close> on both sides, with the dispatch of the first message
  in \<open>tracker/main.cpp\<close>): tracker 0 dials, tracker 1 accepts. The step relation interleaves the requests of clients, the
  delivery of messages, which arrive in order, and the link going down, which loses what is in flight and is noticed by
  each side in its own time.

  A message longer than \<open>MAX_PAYLOAD\<close> is not delivered: \<open>recv_msg\<close> fails on it and the reader drops the link.
\<close>

section \<open>The state of the pair\<close>

record cluster =
  cl_t0 :: tracker
  cl_t1 :: tracker
  cl_live :: bool
  cl_bound :: bool
  cl_fd :: int
  cl_to1 :: "(u16 \<times> bytes) list"
  cl_to0 :: "(u16 \<times> bytes) list"

definition cluster_start :: cluster where
  "cluster_start = \<lparr>cl_t0 = started, cl_t1 = started, cl_live = False, cl_bound = False, cl_fd = -1,
     cl_to1 = [], cl_to0 = []\<rparr>"

text \<open>
  What a tracker sends goes into the link, or is lost when its descriptor belongs to a link that is gone. \<open>cl_bound\<close>:
  tracker 1 has taken over the current link.
\<close>

definition push1 :: "sends \<Rightarrow> cluster \<Rightarrow> cluster" where
  "push1 out c = (if cl_live c then c\<lparr>cl_to1 := cl_to1 c @ map snd out\<rparr> else c)"

definition push0 :: "sends \<Rightarrow> cluster \<Rightarrow> cluster" where
  "push0 out c = (if cl_live c \<and> cl_bound c then c\<lparr>cl_to0 := cl_to0 c @ map snd out\<rparr> else c)"

definition cut_link :: "cluster \<Rightarrow> cluster" where
  "cut_link c = c\<lparr>cl_live := False, cl_bound := False, cl_to1 := [], cl_to0 := []\<rparr>"

definition deliverable :: "bytes \<Rightarrow> bool" where
  "deliverable p = (length p \<le> unat MAX_PAYLOAD)"

section \<open>The steps\<close>

inductive cluster_step :: "cluster \<Rightarrow> cluster \<Rightarrow> bool" where
  request0: "dispatch now ty p ss (cl_t0 c) = (ss', t, r, out) \<Longrightarrow> cluster_step c (push1 out (c\<lparr>cl_t0 := t\<rparr>))"
| request1: "dispatch now ty p ss (cl_t1 c) = (ss', t, r, out) \<Longrightarrow> cluster_step c (push0 out (c\<lparr>cl_t1 := t\<rparr>))"
| hangup0: "cluster_step c (c\<lparr>cl_t0 := session_end ss (cl_t0 c)\<rparr>)"
| hangup1: "cluster_step c (c\<lparr>cl_t1 := session_end ss (cl_t1 c)\<rparr>)"
| link_up: "\<not> cl_live c \<Longrightarrow> sm_out_fd (tr_sync (cl_t0 c)) < 0 \<Longrightarrow> 0 \<le> fd \<Longrightarrow> dialer_up fd 0 (cl_t0 c) = (t, out) \<Longrightarrow>
    cluster_step c (c\<lparr>cl_t0 := t, cl_live := True, cl_bound := False, cl_to1 := map snd out, cl_to0 := []\<rparr>)"
| link_bound: "cl_live c \<Longrightarrow> \<not> cl_bound c \<Longrightarrow> cl_to1 c = (msg_code MSG_SYNC_HELLO, p) # rest \<Longrightarrow>
    0 \<le> fd \<Longrightarrow> fd \<noteq> sm_out_fd (tr_sync (cl_t1 c)) \<Longrightarrow> acceptor_up fd (cl_t1 c) = (t, out) \<Longrightarrow>
    cluster_step c (push0 out (c\<lparr>cl_t1 := t, cl_bound := True, cl_fd := fd, cl_to1 := rest\<rparr>))"
| deliver1: "cl_live c \<Longrightarrow> cl_bound c \<Longrightarrow> cl_to1 c = (ty, p) # rest \<Longrightarrow> deliverable p \<Longrightarrow>
    process_peer_message (cl_fd c) ty p (cl_t1 c) = (t, out) \<Longrightarrow>
    cluster_step c (push0 out (c\<lparr>cl_t1 := t, cl_to1 := rest\<rparr>))"
| deliver0: "cl_live c \<Longrightarrow> cl_to0 c = (ty, p) # rest \<Longrightarrow> deliverable p \<Longrightarrow>
    process_peer_message (sm_out_fd (tr_sync (cl_t0 c))) ty p (cl_t0 c) = (t, out) \<Longrightarrow>
    cluster_step c (push1 out (c\<lparr>cl_t0 := t, cl_to0 := rest\<rparr>))"
| link_cut: "cl_live c \<Longrightarrow> cluster_step c (cut_link c)"
| notice0: "\<not> cl_live c \<Longrightarrow> cluster_step c (c\<lparr>cl_t0 := dialer_down (cl_t0 c)\<rparr>)"
| notice1: "\<not> cl_live c \<or> fd \<noteq> cl_fd c \<Longrightarrow> cluster_step c (c\<lparr>cl_t1 := acceptor_down fd (cl_t1 c)\<rparr>)"
| crash0: "cluster_step c (cut_link (c\<lparr>cl_t0 := started\<rparr>))"
| crash1: "cluster_step c (cut_link (c\<lparr>cl_t1 := started\<rparr>))"

abbreviation reachable :: "cluster \<Rightarrow> bool" where
  "reachable \<equiv> cluster_step\<^sup>*\<^sup>* cluster_start"

section \<open>Snapshots that fit a message\<close>

lemma enc_list_bound:
  assumes "length (enc_list e xs) < 2 ^ 32" and "\<And>x. 0 < length (e x)"
  shows "len_ok xs" and "x \<in> set xs \<Longrightarrow> length (e x) < 2 ^ 32"
proof -
  have l: "length (enc_list e xs) = 4 + sum_list (map (length \<circ> e) xs)"
    by (simp add: enc_list_def length_concat comp_def)
  have "length ys \<le> sum_list (map (length \<circ> e) ys)" for ys
  proof (induction ys)
    case (Cons y ys)
    have "Suc (length ys) \<le> length (e y) + sum_list (map (length \<circ> e) ys)"
      using assms(2) [of y] Cons by linarith
    then show ?case by (simp add: comp_def)
  qed simp
  from this [of xs] show "len_ok xs" using assms(1) l by (simp add: len_ok_def)
  show "length (e x) < 2 ^ 32" if x: "x \<in> set xs"
  proof -
    have "length (e x) \<le> sum_list (map (length \<circ> e) xs)"
      using x by (intro member_le_sum_list) (auto simp: rev_image_eqI)
    then show ?thesis using assms(1) l by linarith
  qed
qed

lemma list_fits:
  assumes "\<And>x. 0 < length (e x)" and "\<And>x. length (e x) < 2 ^ 32 \<Longrightarrow> P x" and "length (enc_list e xs) < 2 ^ 32"
  shows "len_ok xs \<and> list_all P xs"
  using enc_list_bound [OF assms(3,1)] assms(2) by (auto simp: list_all_iff)

lemma enc_pos:
  "0 < length (enc_str x)" "0 < length (enc_user u)" "0 < length (enc_peer p)" "0 < length (enc_file f)" "0 < length (enc_group g)"
  by (simp_all add: enc_user_def enc_peer_def enc_file_def enc_group_def del: length_greater_0_conv)

lemma str_fits_len: "length (enc_str x) < 2 ^ 32 \<Longrightarrow> str_ok x"
  by (simp add: str_ok_def)

lemma user_fits_len: "length (enc_user u) < 2 ^ 32 \<Longrightarrow> user_fits u"
  by (simp add: enc_user_def user_fits_def str_ok_def)

lemma peer_fits_len: "length (enc_peer p) < 2 ^ 32 \<Longrightarrow> peer_fits p"
  by (simp add: enc_peer_def peer_fits_def str_ok_def)

lemmas strs_fit = list_fits [of enc_str str_ok, OF enc_pos(1) str_fits_len]
lemmas peers_fit = list_fits [of "enc_peer \<circ> snd" "peer_fits \<circ> snd", unfolded comp_def, OF enc_pos(3) peer_fits_len]
lemmas users_fit = list_fits [of "enc_user \<circ> snd" "user_fits \<circ> snd", unfolded comp_def, OF enc_pos(2) user_fits_len]

lemma file_fits_len: "length (enc_file f) < 2 ^ 32 \<Longrightarrow> file_fits f"
proof -
  assume a: "length (enc_file f) < 2 ^ 32"
  then have "length (enc_list enc_str (fm_piece_hashes f)) < 2 ^ 32" "length (enc_list (\<lambda>x. enc_peer (snd x)) (fm_seeders f)) < 2 ^ 32"
    "str_ok (fm_name f)" "str_ok (fm_hash f)"
    by (simp_all add: enc_file_def str_ok_def comp_def)
  then show ?thesis using strs_fit [of "fm_piece_hashes f"] peers_fit [of "fm_seeders f"] by (simp add: file_fits_def comp_def)
qed

lemmas files_fit = list_fits [of "enc_file \<circ> snd" "file_fits \<circ> snd", unfolded comp_def, OF enc_pos(4) file_fits_len]

lemma group_fits_len: "length (enc_group g) < 2 ^ 32 \<Longrightarrow> group_fits g"
proof -
  assume a: "length (enc_group g) < 2 ^ 32"
  then have "length (enc_list enc_str (g_members g)) < 2 ^ 32" "length (enc_list enc_str (g_pending g)) < 2 ^ 32"
    "length (enc_list (\<lambda>x. enc_file (snd x)) (g_files g)) < 2 ^ 32" "str_ok (g_id g)" "str_ok (g_owner g)"
    by (simp_all add: enc_group_def str_ok_def comp_def)
  then show ?thesis
    using strs_fit [of "g_members g"] strs_fit [of "g_pending g"] files_fit [of "g_files g"] by (simp add: group_fits_def comp_def)
qed

lemmas groups_fit = list_fits [of "enc_group \<circ> snd" "group_fits \<circ> snd", unfolded comp_def, OF enc_pos(5) group_fits_len]

lemma state_fits_len: "length (snapshot st) < 2 ^ 32 \<Longrightarrow> state_fits st"
proof -
  assume "length (snapshot st) < 2 ^ 32"
  then have "length (enc_list (\<lambda>x. enc_user (snd x)) (ts_users st)) < 2 ^ 32" "length (enc_list (\<lambda>x. enc_group (snd x)) (ts_groups st)) < 2 ^ 32"
    by (simp_all add: snapshot_enc comp_def)
  then show ?thesis using users_fit [of "ts_users st"] groups_fit [of "ts_groups st"] by (simp add: state_fits_def comp_def)
qed

text \<open>A snapshot that arrives is restored exactly.\<close>

lemma deliverable_snapshot:
  "state_ok st \<Longrightarrow> deliverable (snapshot st) \<Longrightarrow> restore (snapshot st) old = (True, st)"
  by (rule restore_snapshot) (auto intro: state_fits_len simp: deliverable_def)

section \<open>Both trackers stay sound\<close>

definition snap_ok :: "u16 \<times> bytes \<Rightarrow> bool" where
  "snap_ok m \<longleftrightarrow> (fst m = msg_code MSG_SYNC_SNAPSHOT_DATA \<longrightarrow> (\<exists>st. state_ok st \<and> snd m = snapshot st))"

definition cluster_ok :: "cluster \<Rightarrow> bool" where
  "cluster_ok c \<longleftrightarrow> state_ok (tr_state (cl_t0 c)) \<and> state_ok (tr_state (cl_t1 c)) \<and>
     (\<forall>m \<in> set (cl_to1 c) \<union> set (cl_to0 c). snap_ok m)"

lemma cluster_ok_push:
  "cluster_ok c \<Longrightarrow> \<forall>m \<in> set out. snap_ok (snd m) \<Longrightarrow> cluster_ok (push1 out c) \<and> cluster_ok (push0 out c)"
  by (auto simp: cluster_ok_def push1_def push0_def)

lemma cluster_ok_cut: "cluster_ok c \<Longrightarrow> cluster_ok (cut_link c)"
  by (simp add: cluster_ok_def cut_link_def)

lemma commit_out: "commit now type rep r ss t = (ss', t', q, out) \<Longrightarrow> m \<in> set out \<Longrightarrow> fst (snd m) = msg_code MSG_SYNC_OP"
  by (auto simp: commit_def record_and_replicate_def send_op_def Let_def split: if_splits)

lemma dispatch_out:
  "dispatch now type payload ss t = (ss', t', q, out) \<Longrightarrow> m \<in> set out \<Longrightarrow> fst (snd m) = msg_code MSG_SYNC_OP"
proof (cases "msg_of type")
  case (Some k)
  assume "dispatch now type payload ss t = (ss', t', q, out)" "m \<in> set out"
  then show ?thesis
    using Some
    by (cases k) (auto simp: dispatch_def reply_def Let_def do_create_user_def do_login_def do_logout_def
        group_request_def list_request_def do_accept_def do_upload_def do_get_meta_def do_stop_share_def
        do_have_def dest: commit_out split: option.splits if_splits)
qed (simp add: dispatch_def reply_def)

lemma dispatch_snap:
  "dispatch now type payload ss t = (ss', t', q, out) \<Longrightarrow> \<forall>m \<in> set out. snap_ok (snd m)"
  by (auto simp: snap_ok_def dest: dispatch_out)

lemma dispatch_ok:
  "dispatch now type payload ss t = (ss', t', q, out) \<Longrightarrow> state_ok (tr_state t) \<Longrightarrow> state_ok (tr_state t')"
  using dispatch_keeps [of t now type payload ss] by simp

lemma process_snap:
  assumes "process_peer_message fd ty p t = (t', out)" and "state_ok (tr_state t)"
  shows "\<forall>m \<in> set out. snap_ok (snd m)"
proof (cases "msg_of ty")
  case (Some k)
  then show ?thesis
    using assms
    by (cases k) (auto simp: process_peer_message_def send_catchup_from_def send_op_def snap_ok_def Let_def
        split: option.splits prod.splits)
qed (use assms in \<open>simp add: process_peer_message_def\<close>)

lemma process_ok:
  assumes "process_peer_message fd ty p t = (t', out)" and "state_ok (tr_state t)" and "snap_ok (ty, p)" and "deliverable p"
  shows "state_ok (tr_state t')"
proof (cases "msg_of ty")
  case (Some k)
  then have ty: "ty = msg_code k" by (simp add: msg_of_Some)
  show ?thesis
  proof (cases "k = MSG_SYNC_SNAPSHOT_DATA")
    case True
    then obtain st where "state_ok st" "p = snapshot st" using assms(3) ty by (auto simp: snap_ok_def)
    then have "tr_state t' = st"
      using assms(1,4) Some True deliverable_snapshot by (auto simp: process_peer_message_def)
    then show ?thesis using \<open>state_ok st\<close> by simp
  next
    case False
    then show ?thesis
      using assms(1,2) Some apply_remote_keeps [OF assms(2)]
      by (cases k) (auto simp: process_peer_message_def Let_def split: option.splits prod.splits
          dest: arg_cong [where f = "\<lambda>r. state_ok (snd r)"])
  qed
qed (use assms(1,2) in \<open>simp add: process_peer_message_def\<close>)

lemma link_ends_ok:
  "dialer_up fd i t = (t', out) \<Longrightarrow> tr_state t' = tr_state t \<and> (\<forall>m \<in> set out. snap_ok (snd m))"
  "acceptor_up fd t = (t', out) \<Longrightarrow> tr_state t' = tr_state t \<and> (\<forall>m \<in> set out. snap_ok (snd m))"
  "tr_state (dialer_down t) = tr_state t"
  "tr_state (acceptor_down fd t) = tr_state t"
  by (auto simp: dialer_up_def acceptor_up_def dialer_down_def acceptor_down_def set_fd_def snap_ok_def)

lemma cluster_step_ok: "cluster_step c c' \<Longrightarrow> cluster_ok c \<Longrightarrow> cluster_ok c'"
proof (induction rule: cluster_step.induct)
  case (request0 now ty p ss c ss' t r out)
  then have "cluster_ok (c\<lparr>cl_t0 := t\<rparr>)" by (auto simp: cluster_ok_def dispatch_ok)
  then show ?case using cluster_ok_push dispatch_snap [OF request0(1)] by blast
next
  case (request1 now ty p ss c ss' t r out)
  then have "cluster_ok (c\<lparr>cl_t1 := t\<rparr>)" by (auto simp: cluster_ok_def dispatch_ok)
  then show ?case using cluster_ok_push dispatch_snap [OF request1(1)] by blast
next
  case (link_up c fd t out)
  then show ?case using link_ends_ok(1) [OF link_up(4)] by (auto simp: cluster_ok_def)
next
  case (link_bound c p rest fd t out)
  then have "cluster_ok (c\<lparr>cl_t1 := t, cl_bound := True, cl_fd := fd, cl_to1 := rest\<rparr>)"
    using link_ends_ok(2) [OF link_bound(6)] by (auto simp: cluster_ok_def)
  then show ?case using cluster_ok_push link_ends_ok(2) [OF link_bound(6)] by blast
next
  case (deliver1 c ty p rest t out)
  have s: "state_ok (tr_state (cl_t1 c))" "snap_ok (ty, p)" using deliver1 by (auto simp: cluster_ok_def)
  have "cluster_ok (c\<lparr>cl_t1 := t, cl_to1 := rest\<rparr>)"
    using deliver1 process_ok [OF deliver1(5) s deliver1(4)] by (auto simp: cluster_ok_def)
  then show ?case using cluster_ok_push process_snap [OF deliver1(5) s(1)] by blast
next
  case (deliver0 c ty p rest t out)
  have s: "state_ok (tr_state (cl_t0 c))" "snap_ok (ty, p)" using deliver0 by (auto simp: cluster_ok_def)
  have "cluster_ok (c\<lparr>cl_t0 := t, cl_to0 := rest\<rparr>)"
    using deliver0 process_ok [OF deliver0(4) s deliver0(3)] by (auto simp: cluster_ok_def)
  then show ?case using cluster_ok_push process_snap [OF deliver0(4) s(1)] by blast
qed (auto simp: cluster_ok_def cut_link_def link_ends_ok session_end_keeps started_def state_ok_new)

lemma cluster_start_ok: "cluster_ok cluster_start"
  by (simp add: cluster_ok_def cluster_start_def started_def state_ok_new)

lemma reachable_ok: "reachable c \<Longrightarrow> cluster_ok c"
  by (induction rule: rtranclp_induct) (auto intro: cluster_start_ok cluster_step_ok)

section \<open>A request reaches the other tracker\<close>

text \<open>What a session sends is what it adds to the log.\<close>

definition sends_log :: "tracker \<Rightarrow> tracker \<Rightarrow> sends \<Rightarrow> bool" where
  "sends_log t t' out \<longleftrightarrow> sm_out_fd (tr_sync t') = sm_out_fd (tr_sync t) \<and>
     out = map (send_op (sm_out_fd (tr_sync t))) (drop (length (sm_log (tr_sync t))) (sm_log (tr_sync t')))"

lemma sends_log_same [simp]: "sends_log t t []" "sends_log t (t\<lparr>tr_state := st\<rparr>) []"
  by (simp_all add: sends_log_def)

lemma commit_sends:
  "commit now type rep r ss t = (ss', t', q, out) \<Longrightarrow> 0 \<le> sm_out_fd (tr_sync t) \<Longrightarrow> sends_log t t' out"
  by (auto simp: sends_log_def commit_def record_and_replicate_def Let_def split: if_splits)

lemma dispatch_sends:
  assumes "dispatch now type payload ss t = (ss', t', q, out)" and "0 \<le> sm_out_fd (tr_sync t)"
  shows "sends_log t t' out"
proof (cases "msg_of type")
  case (Some k)
  then show ?thesis
    using assms
    by (cases k) (auto simp: dispatch_def reply_def Let_def do_create_user_def do_login_def do_logout_def
        group_request_def list_request_def do_accept_def do_upload_def do_get_meta_def do_stop_share_def
        do_have_def dest: commit_sends split: option.splits if_splits)
qed (use assms in \<open>auto simp: dispatch_def reply_def\<close>)

text \<open>The link is up, nothing is in flight and the trackers agree.\<close>

definition in_step :: "cluster \<Rightarrow> bool" where
  "in_step c \<longleftrightarrow> cl_live c \<and> cl_bound c \<and> cl_to1 c = [] \<and> cl_to0 c = [] \<and> 0 \<le> sm_out_fd (tr_sync (cl_t0 c)) \<and>
     tr_state (cl_t0 c) = tr_state (cl_t1 c)"

lemma length_op_bytes: "length (op_payload op) \<le> length (op_bytes op)"
  by (simp add: op_bytes_enc enc_op_def)

lemma deliver_op:
  assumes "deliverable (op_bytes op)"
  shows "process_peer_message fd (msg_code MSG_SYNC_OP) (op_bytes op) t =
    (let (ok, st) = apply_remote op (tr_state t); m = tr_sync t
     in (t\<lparr>tr_state := st, tr_sync := (if ok \<and> op_seq op > sm_applied m then m\<lparr>sm_applied := op_seq op\<rparr> else m)\<rparr>,
         [(fd, msg_code MSG_SYNC_ACK, seq_bytes (op_seq op))]))"
proof -
  have "op_fits op" using assms length_op_bytes [of op] by (simp add: deliverable_def op_fits_def str_ok_def)
  then show ?thesis by (simp add: process_peer_message_def)
qed

lemma deliver_ack:
  "process_peer_message fd (msg_code MSG_SYNC_ACK) (seq_bytes sq) t =
    (t\<lparr>tr_sync := (tr_sync t)\<lparr>sm_log := trim_log sq (sm_log (tr_sync t))\<rparr>\<rparr>, [])"
  by (simp add: process_peer_message_def)

lemma deliverable_seq [simp]: "deliverable (seq_bytes sq)"
  by (simp add: deliverable_def seq_bytes_enc)

lemma request_spreads:
  assumes c: "in_step c" and d: "dispatch now ty p ss (cl_t0 c) = (ss', t, r, out)"
    and ok: "session_fits ss" "exact_request ty p" "ty \<noteq> msg_code MSG_LOGIN" "ty \<noteq> msg_code MSG_LOGOUT"
    and fit: "\<forall>m \<in> set out. deliverable (snd (snd m))"
  shows "\<exists>c'. cluster_step\<^sup>*\<^sup>* c c' \<and> in_step c' \<and> tr_state (cl_t0 c') = tr_state t"
proof -
  let ?m = "tr_sync (cl_t0 c)"
  have i: "cl_live c" "cl_bound c" "cl_to1 c = []" "cl_to0 c = []" "0 \<le> sm_out_fd ?m"
    "tr_state (cl_t1 c) = tr_state (cl_t0 c)"
    using c by (auto simp: in_step_def)
  have s: "sm_out_fd (tr_sync t) = sm_out_fd ?m"
    "out = map (send_op (sm_out_fd ?m)) (drop (length (sm_log ?m)) (sm_log (tr_sync t)))"
    using dispatch_sends [OF d i(5)] by (auto simp: sends_log_def)
  let ?c1 = "push1 out (c\<lparr>cl_t0 := t\<rparr>)"
  have 1: "cluster_step c ?c1" by (rule request0 [OF d])
  have "faithful (cl_t0 c) t" using dispatch_faithful [OF ok, of "cl_t0 c" now] d by simp
  then consider "t = cl_t0 c" | op where "sm_log (tr_sync t) = sm_log ?m @ [op]"
      "apply_remote op (tr_state (cl_t0 c)) = (True, tr_state t)"
    by (auto simp: faithful_def)
  then show ?thesis
  proof cases
    case 1
    then have "?c1 = c" using s by (simp add: push1_def)
    then show ?thesis using c 1 by blast
  next
    case (2 op)
    have out: "out = [send_op (sm_out_fd ?m) op]" using s 2(1) by simp
    then have fits: "deliverable (op_bytes op)" using fit by (simp add: send_op_def)
    let ?ack = "(msg_code MSG_SYNC_ACK, seq_bytes (op_seq op))"
    have c1: "cl_live ?c1" "cl_bound ?c1" "cl_to1 ?c1 = (msg_code MSG_SYNC_OP, op_bytes op) # []" "cl_t1 ?c1 = cl_t1 c"
      using i out by (simp_all add: push1_def send_op_def)
    obtain t1 where t1: "process_peer_message (cl_fd ?c1) (msg_code MSG_SYNC_OP) (op_bytes op) (cl_t1 ?c1) =
        (t1, [(cl_fd ?c1, ?ack)])" "tr_state t1 = tr_state t"
      using deliver_op [OF fits] 2(2) i(6) c1(4) by (simp add: Let_def)
    let ?c2 = "push0 [(cl_fd ?c1, ?ack)] (?c1\<lparr>cl_t1 := t1, cl_to1 := []\<rparr>)"
    have 2: "cluster_step ?c1 ?c2" by (rule deliver1 [OF c1(1-3) fits t1(1)])
    have c2: "cl_live ?c2" "cl_to0 ?c2 = ?ack # []" "cl_t0 ?c2 = t"
      using i by (simp_all add: push0_def push1_def)
    let ?t = "t\<lparr>tr_sync := (tr_sync t)\<lparr>sm_log := trim_log (op_seq op) (sm_log (tr_sync t))\<rparr>\<rparr>"
    let ?c3 = "push1 [] (?c2\<lparr>cl_t0 := ?t, cl_to0 := []\<rparr>)"
    have 3: "cluster_step ?c2 ?c3"
      by (rule deliver0 [OF c2(1,2)]) (use c2(3) in \<open>simp_all add: deliver_ack\<close>)
    have "in_step ?c3 \<and> tr_state (cl_t0 ?c3) = tr_state t"
      using i s t1(2) by (simp add: in_step_def push0_def push1_def)
    moreover have "cluster_step\<^sup>*\<^sup>* c ?c3" using \<open>cluster_step c ?c1\<close> 2 3 by auto
    ultimately show ?thesis by blast
  qed
qed

section \<open>An operation that is lost\<close>

text \<open>Trackers that know only users, all with the password 7.\<close>

definition some_user :: "u8 \<Rightarrow> bytes \<times> user" where
  "some_user u = ([u], \<lparr>u_id = [u], u_password = hash_password [7], u_online = False, u_ip = [], u_port = 0\<rparr>)"

definition user_op :: "u64 \<Rightarrow> u8 \<Rightarrow> sync_op" where
  "user_op sq u = \<lparr>op_seq = sq, op_type = msg_code MSG_CREATE_USER, op_payload = enc_str [u] @ enc_str [7], op_ts = 0\<rparr>"

definition users_tracker :: "u8 list \<Rightarrow> u64 \<Rightarrow> u64 \<Rightarrow> sync_op list \<Rightarrow> int \<Rightarrow> tracker" where
  "users_tracker us nxt app l fd =
    \<lparr>tr_state = \<lparr>ts_users = map some_user us, ts_groups = []\<rparr>,
     tr_sync = \<lparr>sm_next_seq = nxt, sm_applied = app, sm_log = l, sm_out_fd = fd\<rparr>\<rparr>"

lemma has_user [simp]: "has_key (map some_user us) [u] = (u \<in> set us)"
  by (induction us) (auto simp: some_user_def has_key_def)

lemma users_fd [simp]: "sm_out_fd (tr_sync (users_tracker us n a l fd)) = fd"
  by (simp add: users_tracker_def)

lemma started_users: "started = users_tracker [] 1 0 [] (-1)"
  by (simp add: started_def users_tracker_def new_tracker_def new_sync_def)

lemma create_some_user:
  assumes "u \<notin> set us" and "sorted us"
  shows "create_user [u] [7] \<lparr>ts_users = map some_user us, ts_groups = []\<rparr> =
    (ST_OK, \<lparr>ts_users = map some_user (insort u us), ts_groups = []\<rparr>)"
proof -
  have "map_put [u] (snd (some_user u)) (map some_user us) = map some_user (insort u us)"
    using assms by (induction us) (auto simp: some_user_def)
  then show ?thesis using assms(1) by (simp add: create_user_def set_user_def some_user_def)
qed

lemma request_some_user:
  assumes "u \<notin> set us" and "sorted us"
  shows "dispatch 0 (msg_code MSG_CREATE_USER) (enc_str [u] @ enc_str [7]) (new_session []) (users_tracker us nxt app l fd) =
    (new_session [], users_tracker (insort u us) (nxt + 1) app (l @ [user_op nxt u]) fd, (ST_OK, []),
     if fd < 0 then [] else [send_op fd (user_op nxt u)])"
  using create_some_user [OF assms]
  by (simp add: dispatch_def do_create_user_def rd_str2_def wire str_ok_def commit_def record_and_replicate_def
      users_tracker_def user_op_def Let_def)

lemma deliverable_user_op: "deliverable (op_bytes (user_op sq u))"
  by (simp add: deliverable_def op_bytes_enc enc_op_def user_op_def)

lemma deliver_some_user:
  assumes "u \<notin> set us" and "sorted us" and "app < sq"
  shows "process_peer_message fd' (msg_code MSG_SYNC_OP) (op_bytes (user_op sq u)) (users_tracker us nxt app l fd) =
    (users_tracker (insort u us) nxt sq l fd, [(fd', msg_code MSG_SYNC_ACK, seq_bytes sq)])"
proof -
  have "apply_remote (user_op sq u) \<lparr>ts_users = map some_user us, ts_groups = []\<rparr> =
      (True, \<lparr>ts_users = map some_user (insort u us), ts_groups = []\<rparr>)"
    using create_some_user [OF assms(1,2)]
    by (simp add: apply_remote_def user_op_def rd_str2_def wire str_ok_def accept_def Let_def)
  then show ?thesis
    using deliver_op [OF deliverable_user_op, of fd' sq u "users_tracker us nxt app l fd"] assms(3)
    by (simp add: users_tracker_def user_op_def Let_def)
qed

lemma deliver_user_ack:
  "process_peer_message fd' (msg_code MSG_SYNC_ACK) (seq_bytes sq) (users_tracker us nxt app l fd) =
    (users_tracker us nxt app (trim_log sq l) fd, [])"
  by (simp add: deliver_ack users_tracker_def)

definition pair_of :: "tracker \<Rightarrow> tracker \<Rightarrow> bool \<Rightarrow> bool \<Rightarrow> int \<Rightarrow> (u16 \<times> bytes) list \<Rightarrow> (u16 \<times> bytes) list \<Rightarrow> cluster" where
  "pair_of t0 t1 live bound fd q1 q0 = \<lparr>cl_t0 = t0, cl_t1 = t1, cl_live = live, cl_bound = bound, cl_fd = fd,
     cl_to1 = q1, cl_to0 = q0\<rparr>"

lemmas pair_simps = pair_of_def push0_def push1_def users_tracker_def send_op_def

lemma pair_request0:
  assumes "u \<notin> set us" and "sorted us"
  shows "cluster_step (pair_of (users_tracker us n a l fd) t1 live b f q1 q0)
    (pair_of (users_tracker (insort u us) (n + 1) a (l @ [user_op n u]) fd) t1 live b f
      (q1 @ (if 0 \<le> fd \<and> live then [(msg_code MSG_SYNC_OP, op_bytes (user_op n u))] else [])) q0)"
  using request0 [of 0 "msg_code MSG_CREATE_USER" "enc_str [u] @ enc_str [7]" "new_session []"
      "pair_of (users_tracker us n a l fd) t1 live b f q1 q0"] request_some_user [OF assms, of n a l fd]
  by (auto simp: pair_simps split: if_splits)

lemma pair_request1:
  assumes "u \<notin> set us" and "sorted us"
  shows "cluster_step (pair_of t0 (users_tracker us n a l fd) live b f q1 q0)
    (pair_of t0 (users_tracker (insort u us) (n + 1) a (l @ [user_op n u]) fd) live b f q1
      (q0 @ (if 0 \<le> fd \<and> live \<and> b then [(msg_code MSG_SYNC_OP, op_bytes (user_op n u))] else [])))"
  using request1 [of 0 "msg_code MSG_CREATE_USER" "enc_str [u] @ enc_str [7]" "new_session []"
      "pair_of t0 (users_tracker us n a l fd) live b f q1 q0"] request_some_user [OF assms, of n a l fd]
  by (auto simp: pair_simps split: if_splits)

text \<open>The link comes up between two trackers that both know somebody: tracker 0 asks, tracker 1 does not.\<close>

lemma pair_link:
  assumes "us \<noteq> []" and "vs \<noteq> []"
  shows "cluster_step\<^sup>*\<^sup>* (pair_of (users_tracker us n a l (-1)) (users_tracker vs n' a' l' (-1)) False False (-1) [] [])
    (pair_of (users_tracker us n a l 3) (users_tracker vs n' a' l' 4) True True 4 [(msg_code MSG_SYNC_CATCHUP, seq_bytes a)] [])"
proof -
  let ?c = "pair_of (users_tracker us n a l (-1)) (users_tracker vs n' a' l' (-1)) False False (-1) [] []"
  let ?h = "(msg_code MSG_SYNC_HELLO, buf_data (put_u8 0 new_buf))" and ?q = "(msg_code MSG_SYNC_CATCHUP, seq_bytes a)"
  let ?d = "pair_of (users_tracker us n a l 3) (users_tracker vs n' a' l' (-1)) True False (-1) [?h, ?q] []"
  have "dialer_up 3 0 (users_tracker us n a l (-1)) = (users_tracker us n a l 3, [(3, ?h), (3, ?q)])"
    using assms(1) by (simp add: dialer_up_def users_tracker_def set_fd_def ts_empty_def)
  then have 1: "cluster_step ?c ?d" using link_up [of ?c 3] by (simp add: pair_simps)
  have "acceptor_up 4 (users_tracker vs n' a' l' (-1)) = (users_tracker vs n' a' l' 4, [])"
    using assms(2) by (simp add: acceptor_up_def users_tracker_def set_fd_def ts_empty_def)
  then have "cluster_step ?d (pair_of (users_tracker us n a l 3) (users_tracker vs n' a' l' 4) True True 4 [?q] [])"
    using link_bound [of ?d "buf_data (put_u8 0 new_buf)" "[?q]" 4] by (simp add: pair_simps)
  with 1 show ?thesis by auto
qed

lemma pair_deliver1:
  assumes "process_peer_message f ty p t1 = (t, map (\<lambda>m. (f, m)) out)" and "deliverable p" and "q = q0 @ out"
  shows "cluster_step (pair_of t0 t1 True True f ((ty, p) # q1) q0) (pair_of t0 t True True f q1 q)"
  using deliver1 [of "pair_of t0 t1 True True f ((ty, p) # q1) q0" ty p q1] assms by (simp add: pair_simps comp_def)

lemma pair_deliver0:
  assumes "process_peer_message (sm_out_fd (tr_sync t0)) ty p t0 = (t, map (\<lambda>m. (f', m)) out)" and "deliverable p" and "q = q1 @ out"
  shows "cluster_step (pair_of t0 t1 True b f q1 ((ty, p) # q0)) (pair_of t t1 True b f q q0)"
  using deliver0 [of "pair_of t0 t1 True b f q1 ((ty, p) # q0)" ty p q0] assms by (simp add: pair_simps comp_def)

lemma pair_catchup:
  "cluster_step (pair_of t0 (users_tracker us n a [user_op 1 u] fd) True True f ((msg_code MSG_SYNC_CATCHUP, seq_bytes 0) # q1) q0)
    (pair_of t0 (users_tracker us n a [user_op 1 u] fd) True True f q1 (q0 @ [(msg_code MSG_SYNC_OP, op_bytes (user_op 1 u))]))"
  by (rule pair_deliver1 [where out = "[(msg_code MSG_SYNC_OP, op_bytes (user_op 1 u))]"])
    (simp_all add: process_peer_message_def send_catchup_from_def send_op_def users_tracker_def user_op_def)

lemma reach_step: "reachable c \<Longrightarrow> cluster_step c d \<Longrightarrow> reachable d"
  by (rule rtranclp.rtrancl_into_rtrancl)

text \<open>User 1 is created at tracker 0 and user 5 at tracker 1 while the link is down; later user 6 at tracker 0.\<close>

lemma lost_run:
  "reachable (pair_of (users_tracker [1, 5, 6] 3 1 [] 3) (users_tracker [5, 6] 2 2 [] 4) True True 4 [] [])"
proof -
  let ?op = "\<lambda>sq u. (msg_code MSG_SYNC_OP, op_bytes (user_op sq u))" and ?ack = "\<lambda>sq. (msg_code MSG_SYNC_ACK, seq_bytes sq)"
  have s: "cluster_start = pair_of (users_tracker [] 1 0 [] (-1)) (users_tracker [] 1 0 [] (-1)) False False (-1) [] []"
    by (simp add: cluster_start_def started_users pair_of_def)
  have 1: "cluster_step cluster_start
      (pair_of (users_tracker [1] 2 0 [user_op 1 1] (-1)) (users_tracker [] 1 0 [] (-1)) False False (-1) [] [])"
    using pair_request0 [of 1 "[]" 1 0 "[]" "-1"] by (simp add: s)
  have 2: "cluster_step (pair_of (users_tracker [1] 2 0 [user_op 1 1] (-1)) (users_tracker [] 1 0 [] (-1)) False False (-1) [] [])
      (pair_of (users_tracker [1] 2 0 [user_op 1 1] (-1)) (users_tracker [5] 2 0 [user_op 1 5] (-1)) False False (-1) [] [])"
    using pair_request1 [of 5 "[]" "users_tracker [1] 2 0 [user_op 1 1] (-1)" 1 0 "[]" "-1"] by simp
  have 3: "cluster_step\<^sup>*\<^sup>*
      (pair_of (users_tracker [1] 2 0 [user_op 1 1] (-1)) (users_tracker [5] 2 0 [user_op 1 5] (-1)) False False (-1) [] [])
      (pair_of (users_tracker [1] 2 0 [user_op 1 1] 3) (users_tracker [5] 2 0 [user_op 1 5] 4) True True 4
        [(msg_code MSG_SYNC_CATCHUP, seq_bytes 0)] [])"
    by (rule pair_link) simp_all
  have 4: "cluster_step (pair_of (users_tracker [1] 2 0 [user_op 1 1] 3) (users_tracker [5] 2 0 [user_op 1 5] 4) True True 4
        [(msg_code MSG_SYNC_CATCHUP, seq_bytes 0)] [])
      (pair_of (users_tracker [1] 2 0 [user_op 1 1] 3) (users_tracker [5] 2 0 [user_op 1 5] 4) True True 4 [] [?op 1 5])"
    using pair_catchup [of _ "[5]" 2 0 5 4 4 "[]" "[]"] by simp
  have 5: "cluster_step (pair_of (users_tracker [1] 2 0 [user_op 1 1] 3) (users_tracker [5] 2 0 [user_op 1 5] 4) True True 4 [] [?op 1 5])
      (pair_of (users_tracker [1, 5] 2 1 [user_op 1 1] 3) (users_tracker [5] 2 0 [user_op 1 5] 4) True True 4 [?ack 1] [])"
    by (rule pair_deliver0 [where f' = 3 and out = "[?ack 1]"]) (simp_all add: deliver_some_user deliverable_user_op word_le_nat_alt)
  have 6: "cluster_step (pair_of (users_tracker [1, 5] 2 1 [user_op 1 1] 3) (users_tracker [5] 2 0 [user_op 1 5] 4) True True 4 [?ack 1] [])
      (pair_of (users_tracker [1, 5] 2 1 [user_op 1 1] 3) (users_tracker [5] 2 0 [] 4) True True 4 [] [])"
    by (rule pair_deliver1 [where out = "[]"]) (simp_all add: deliver_user_ack trim_log_def user_op_def)
  have 7: "cluster_step (pair_of (users_tracker [1, 5] 2 1 [user_op 1 1] 3) (users_tracker [5] 2 0 [] 4) True True 4 [] [])
      (pair_of (users_tracker [1, 5, 6] 3 1 [user_op 1 1, user_op 2 6] 3) (users_tracker [5] 2 0 [] 4) True True 4 [?op 2 6] [])"
    using pair_request0 [of 6 "[1, 5]" 2 1 "[user_op 1 1]" 3 "users_tracker [5] 2 0 [] 4" True True 4 "[]" "[]"]
    by (simp add: word_le_nat_alt)
  have 8: "cluster_step (pair_of (users_tracker [1, 5, 6] 3 1 [user_op 1 1, user_op 2 6] 3) (users_tracker [5] 2 0 [] 4) True True 4 [?op 2 6] [])
      (pair_of (users_tracker [1, 5, 6] 3 1 [user_op 1 1, user_op 2 6] 3) (users_tracker [5, 6] 2 2 [] 4) True True 4 [] [?ack 2])"
    by (rule pair_deliver1 [where out = "[?ack 2]"]) (simp_all add: deliver_some_user deliverable_user_op word_le_nat_alt)
  have 9: "cluster_step (pair_of (users_tracker [1, 5, 6] 3 1 [user_op 1 1, user_op 2 6] 3) (users_tracker [5, 6] 2 2 [] 4) True True 4 [] [?ack 2])
      (pair_of (users_tracker [1, 5, 6] 3 1 [] 3) (users_tracker [5, 6] 2 2 [] 4) True True 4 [] [])"
    by (rule pair_deliver0 [where f' = 3 and out = "[]"]) (simp_all add: deliver_user_ack trim_log_def user_op_def)
  have "reachable (pair_of (users_tracker [1] 2 0 [user_op 1 1] (-1)) (users_tracker [5] 2 0 [user_op 1 5] (-1)) False False (-1) [] [])"
    using 1 2 by auto
  note r3 = rtranclp_trans [OF this 3]
  show ?thesis by (rule reach_step [OF reach_step [OF reach_step [OF reach_step [OF reach_step [OF reach_step [OF r3 4] 5] 6] 7] 8] 9])
qed

section \<open>The properties of the pair\<close>

text \<open>C12. In every state that the two trackers can reach together, whatever the clients request, whatever is lost when the link
  goes down and whenever a tracker crashes and starts again, the tables of both are sound.\<close>

theorem cluster_invariant: "cluster_step\<^sup>*\<^sup>* cluster_start c \<Longrightarrow> state_ok (tr_state (cl_t0 c)) \<and> state_ok (tr_state (cl_t1 c))"
  using reachable_ok by (simp add: cluster_ok_def)

theorem cluster_invariant_witness:
  "state_ok (tr_state (cl_t0 (pair_of (users_tracker [1, 5, 6] 3 1 [] 3) (users_tracker [5, 6] 2 2 [] 4) True True 4 [] []))) \<and>
   state_ok (tr_state (cl_t1 (pair_of (users_tracker [1, 5, 6] 3 1 [] 3) (users_tracker [5, 6] 2 2 [] 4) True True 4 [] [])))"
  by (rule cluster_invariant [OF lost_run])

text \<open>While the link is up the trackers converge: when they agree and nothing is in flight, and a client sends tracker 0 a request
  other than login and logout with no bytes left over, then, once what is sent has been delivered and acknowledged, they agree again,
  on the state that the request led to.\<close>

lemma request_converges:
  assumes "in_step c" and "dispatch now ty p ss (cl_t0 c) = (ss', t, r, out)"
    and "session_fits ss" and "exact_request ty p" and "ty \<noteq> msg_code MSG_LOGIN" and "ty \<noteq> msg_code MSG_LOGOUT"
    and "\<forall>m \<in> set out. deliverable (snd (snd m))"
  shows "\<exists>c'. cluster_step\<^sup>*\<^sup>* c c' \<and> in_step c' \<and> tr_state (cl_t0 c') = tr_state t"
  using assms by (rule request_spreads)

text \<open>Replication can lose an operation for good: there is a run after which the link is up, nothing is in flight and both logs are
  empty, but a user created at tracker 0 while the link was down is unknown to tracker 1. On reconnection only the dialler asks for
  what it has missed, and the acknowledgement of a later operation removes the unsent one from the log.\<close>

lemma operation_lost:
  "\<exists>c. cluster_step\<^sup>*\<^sup>* cluster_start c \<and> cl_live c \<and> cl_bound c \<and> cl_to1 c = [] \<and> cl_to0 c = [] \<and>
    sm_log (tr_sync (cl_t0 c)) = [] \<and> sm_log (tr_sync (cl_t1 c)) = [] \<and>
    has_key (ts_users (tr_state (cl_t0 c))) [1] \<and> \<not> has_key (ts_users (tr_state (cl_t1 c))) [1]"
  by (rule exI [of _ "pair_of (users_tracker [1, 5, 6] 3 1 [] 3) (users_tracker [5, 6] 2 2 [] 4) True True 4 [] []"], intro conjI)
    (rule lost_run, simp_all add: pair_of_def users_tracker_def del: list.map)

end
