(* ===== verification/Tracker_Agreement.thy ===== *)
theory Tracker_Agreement
  imports Tracker_Cluster
begin

text \<open>
  In what sense the two trackers agree while users are logged in. Logins are not replicated, so that the user tables differ in
  who is online and where; everything else should be the same. The theory forgets the difference, shows that replicated
  operations do not see it, and that after any request except logout the trackers agree again once the traffic has been
  delivered.
\<close>

section \<open>What a login leaves behind\<close>

definition offline :: "user \<Rightarrow> user" where
  "offline u = u\<lparr>u_online := False, u_ip := [], u_port := 0\<rparr>"

definition forget :: "tracker_state \<Rightarrow> tracker_state" where
  "forget st = st\<lparr>ts_users := map_vals offline (ts_users st)\<rparr>"

lemma map_vals_put: "map_vals f (map_put k v m) = map_put k (f v) (map_vals f m)"
  by (induction m) (auto simp: map_vals_def)

lemma map_vals_same: "map_ok m \<Longrightarrow> map_find m k = Some v \<Longrightarrow> f w = f v \<Longrightarrow> map_vals f (map_put k w m) = map_vals f m"
  by (simp add: map_vals_put map_put_same)

lemma offline_offline [simp]: "offline (offline u) = offline u"
  by (simp add: offline_def)

lemma forget_simps [simp]:
  "ts_groups (forget st) = ts_groups st"
  "has_key (ts_users (forget st)) uid = has_key (ts_users st) uid"
  "forget (set_group gid g st) = set_group gid g (forget st)"
  "forget (st\<lparr>ts_groups := gs\<rparr>) = (forget st)\<lparr>ts_groups := gs\<rparr>"
  "forget (set_user uid u st) = set_user uid (offline u) (forget st)"
  by (simp_all add: forget_def set_group_def set_user_def map_vals_put)

lemma rosters_forget [simp]: "rosters_of (forget st) = rosters_of st"
  by (simp add: rosters_of_def)

lemma get_file_forget: "get_file gid uid fname out (forget st) = get_file gid uid fname out st"
  by (simp add: get_file_def)

text \<open>A login is forgotten.\<close>

lemma forget_login: "state_ok st \<Longrightarrow> forget (snd (login uid pwd ip port st)) = forget st"
proof -
  assume "state_ok st"
  then have "map_ok (ts_users st)" by (simp add: state_ok_def users_ok_def)
  then show ?thesis
    by (auto simp: login_def forget_def set_user_def offline_def map_vals_same split: option.split)
qed

section \<open>Replicated operations do not see it\<close>

lemma forget_ops:
  "create_user uid pwd (forget st) = map_prod id forget (create_user uid pwd st)"
  "create_group gid uid (forget st) = map_prod id forget (create_group gid uid st)"
  "join_group gid uid (forget st) = map_prod id forget (join_group gid uid st)"
  "leave_group gid uid (forget st) = map_prod id forget (leave_group gid uid st)"
  "accept_request gid owner uid (forget st) = map_prod id forget (accept_request gid owner uid st)"
  "add_file gid uid ip port meta (forget st) = map_prod id forget (add_file gid uid ip port meta st)"
  "stop_share gid uid fname (forget st) = map_prod id forget (stop_share gid uid fname st)"
  "update_bitfield gid uid ip port fname bits (forget st) = map_prod id forget (update_bitfield gid uid ip port fname bits st)"
  by (simp_all add: create_user_def create_group_def join_group_def leave_group_def accept_request_def add_file_def stop_share_def
      update_bitfield_def offline_def Let_def split: option.split)

lemma accept_forget: "accept oks (map_prod id forget r) = map_prod id forget (accept oks r)"
  by (cases r) (simp add: accept_def)

lemma apply_remote_forget: "apply_remote op (forget st) = map_prod id forget (apply_remote op st)"
proof (cases "msg_of (op_type op)")
  case (Some m)
  then show ?thesis
    by (cases m) (simp_all add: apply_remote_def forget_ops accept_forget Let_def split: option.split prod.split)
qed (simp add: apply_remote_def)

lemma apply_remote_agree:
  assumes "forget a = forget b" and "apply_remote op a = (ok, a')"
  shows "\<exists>b'. apply_remote op b = (ok, b') \<and> forget b' = forget a'"
proof -
  have "map_prod id forget (apply_remote op b) = map_prod id forget (apply_remote op a)"
    using assms(1) by (simp flip: apply_remote_forget)
  then show ?thesis using assms(2) by (cases "apply_remote op b") simp
qed

section \<open>Requests\<close>

text \<open>What a request leaves: the log of the manager as it was and the tables the same but for logins, or one more operation that the
  peer will apply with the same result.\<close>

lemma login_out:
  "dispatch now (msg_code MSG_LOGIN) p ss t = (ss', t', r, out) \<Longrightarrow> state_ok (tr_state t) \<Longrightarrow>
   out = [] \<and> tr_sync t' = tr_sync t \<and> forget (tr_state t') = forget (tr_state t)"
  by (auto simp: dispatch_def do_login_def reply_def Let_def forget_login split: option.splits)

lemma request_effect:
  assumes d: "dispatch now ty p ss t = (ss', t', r, out)" and fd: "0 \<le> sm_out_fd (tr_sync t)" and st: "state_ok (tr_state t)"
    and ok: "session_fits ss" "exact_request ty p" "ty \<noteq> msg_code MSG_LOGOUT"
  obtains (quiet) "out = []" "tr_sync t' = tr_sync t" "forget (tr_state t') = forget (tr_state t)"
  | (sends) op cmd where "out = [send_op (sm_out_fd (tr_sync t)) op]" "sm_out_fd (tr_sync t') = sm_out_fd (tr_sync t)"
      "apply_remote op (tr_state t) = (True, tr_state t')" "op_cmd op = Some cmd" "exec cmd (tr_state t) = (ST_OK, tr_state t')"
proof (cases "ty = msg_code MSG_LOGIN")
  case True
  then show ?thesis using login_out [OF d [unfolded True] st] quiet by simp
next
  case False
  have s: "sends_log t t' out" by (rule dispatch_sends [OF d fd])
  have "committed t t'" using dispatch_committed [OF ok(1,2) False ok(3), of t now] d by simp
  then consider "t' = t" | op cmd where "sm_log (tr_sync t') = sm_log (tr_sync t) @ [op]" "op_cmd op = Some cmd"
      "exec cmd (tr_state t) = (ST_OK, tr_state t')"
    by (auto simp: committed_def)
  then show ?thesis
  proof cases
    case 1
    then show ?thesis using s quiet by (simp add: sends_log_def)
  next
    case (2 op cmd)
    then have "apply_remote op (tr_state t) = (True, tr_state t')"
      using apply_remote_ok [OF 2(2), of "tr_state t"] apply_remote_cmd [of op "tr_state t"] by (simp add: prod_eq_iff step_def)
    then show ?thesis using s 2 sends by (simp add: sends_log_def)
  qed
qed

section \<open>The trackers agree\<close>

definition agreed :: "cluster \<Rightarrow> bool" where
  "agreed c \<longleftrightarrow> cl_live c \<and> cl_bound c \<and> cl_to1 c = [] \<and> cl_to0 c = [] \<and> 0 \<le> sm_out_fd (tr_sync (cl_t0 c)) \<and>
     0 \<le> sm_out_fd (tr_sync (cl_t1 c)) \<and> forget (tr_state (cl_t0 c)) = forget (tr_state (cl_t1 c))"

text \<open>The other side of \<open>deliver_op\<close>: the state that an operation leads to, and the descriptor.\<close>

lemma deliver_agree:
  assumes "deliverable (op_bytes op)" and "apply_remote op a = (True, a')" and "forget a = forget (tr_state t)"
  obtains t' where "process_peer_message fd (msg_code MSG_SYNC_OP) (op_bytes op) t =
      (t', [(fd, msg_code MSG_SYNC_ACK, seq_bytes (op_seq op))])"
    "forget (tr_state t') = forget a'" "sm_out_fd (tr_sync t') = sm_out_fd (tr_sync t)"
proof -
  obtain b where "apply_remote op (tr_state t) = (True, b)" "forget b = forget a'"
    using apply_remote_agree [OF assms(3,2)] by blast
  then show ?thesis using deliver_op [OF assms(1), of fd t] that by (auto simp: Let_def)
qed

abbreviation acked :: "sync_op \<Rightarrow> tracker \<Rightarrow> tracker" where
  "acked op t \<equiv> t\<lparr>tr_sync := (tr_sync t)\<lparr>sm_log := trim_log (op_seq op) (sm_log (tr_sync t))\<rparr>\<rparr>"

lemma agreed_request0:
  assumes c: "agreed c" and d: "dispatch now ty p ss (cl_t0 c) = (ss', t, r, out)" and st: "state_ok (tr_state (cl_t0 c))"
    and ok: "session_fits ss" "exact_request ty p" "ty \<noteq> msg_code MSG_LOGOUT"
    and fit: "\<forall>m \<in> set out. deliverable (snd (snd m))"
  shows "\<exists>c'. cluster_step\<^sup>*\<^sup>* c c' \<and> agreed c' \<and> tr_state (cl_t0 c') = tr_state t"
proof -
  have i: "cl_live c" "cl_bound c" "cl_to1 c = []" "cl_to0 c = []" "0 \<le> sm_out_fd (tr_sync (cl_t0 c))"
    "0 \<le> sm_out_fd (tr_sync (cl_t1 c))" "forget (tr_state (cl_t0 c)) = forget (tr_state (cl_t1 c))"
    using c by (auto simp: agreed_def)
  let ?c1 = "push1 out (c\<lparr>cl_t0 := t\<rparr>)"
  have 1: "cluster_step c ?c1" by (rule request0 [OF d])
  show ?thesis using d i(5) st ok
  proof (cases rule: request_effect)
    case quiet
    then have "agreed ?c1 \<and> tr_state (cl_t0 ?c1) = tr_state t" using i by (simp add: agreed_def push1_def)
    then show ?thesis using 1 by blast
  next
    case (sends op cmd)
    let ?ack = "(msg_code MSG_SYNC_ACK, seq_bytes (op_seq op))"
    have fits: "deliverable (op_bytes op)" using fit sends(1) by (simp add: send_op_def)
    have c1: "cl_live ?c1" "cl_bound ?c1" "cl_to1 ?c1 = (msg_code MSG_SYNC_OP, op_bytes op) # []" "cl_t1 ?c1 = cl_t1 c"
      using i sends(1) by (simp_all add: push1_def send_op_def)
    obtain t1 where t1: "process_peer_message (cl_fd ?c1) (msg_code MSG_SYNC_OP) (op_bytes op) (cl_t1 ?c1) = (t1, [(cl_fd ?c1, ?ack)])"
      "forget (tr_state t1) = forget (tr_state t)" "sm_out_fd (tr_sync t1) = sm_out_fd (tr_sync (cl_t1 c))"
      using deliver_agree [OF fits sends(3) i(7), of "cl_fd ?c1"] unfolding c1(4) by blast
    let ?c2 = "push0 [(cl_fd ?c1, ?ack)] (?c1\<lparr>cl_t1 := t1, cl_to1 := []\<rparr>)"
    have 2: "cluster_step ?c1 ?c2" by (rule deliver1 [OF c1(1-3) fits t1(1)])
    have c2: "cl_live ?c2" "cl_to0 ?c2 = ?ack # []" "cl_t0 ?c2 = t" using i by (simp_all add: push0_def push1_def)
    let ?c3 = "push1 [] (?c2\<lparr>cl_t0 := acked op t, cl_to0 := []\<rparr>)"
    have 3: "cluster_step ?c2 ?c3" by (rule deliver0 [OF c2(1,2)]) (use c2(3) in \<open>simp_all add: deliver_ack\<close>)
    have "agreed ?c3 \<and> tr_state (cl_t0 ?c3) = tr_state t"
      using i sends(2) t1 by (simp add: agreed_def push0_def push1_def)
    moreover have "cluster_step\<^sup>*\<^sup>* c ?c3" using 1 2 3 by auto
    ultimately show ?thesis by blast
  qed
qed

lemma agreed_request1:
  assumes c: "agreed c" and d: "dispatch now ty p ss (cl_t1 c) = (ss', t, r, out)" and st: "state_ok (tr_state (cl_t1 c))"
    and ok: "session_fits ss" "exact_request ty p" "ty \<noteq> msg_code MSG_LOGOUT"
    and fit: "\<forall>m \<in> set out. deliverable (snd (snd m))"
  shows "\<exists>c'. cluster_step\<^sup>*\<^sup>* c c' \<and> agreed c' \<and> tr_state (cl_t1 c') = tr_state t"
proof -
  have i: "cl_live c" "cl_bound c" "cl_to1 c = []" "cl_to0 c = []" "0 \<le> sm_out_fd (tr_sync (cl_t0 c))"
    "0 \<le> sm_out_fd (tr_sync (cl_t1 c))" "forget (tr_state (cl_t1 c)) = forget (tr_state (cl_t0 c))"
    using c by (auto simp: agreed_def)
  let ?c1 = "push0 out (c\<lparr>cl_t1 := t\<rparr>)"
  have 1: "cluster_step c ?c1" by (rule request1 [OF d])
  show ?thesis using d i(6) st ok
  proof (cases rule: request_effect)
    case quiet
    then have "agreed ?c1 \<and> tr_state (cl_t1 ?c1) = tr_state t" using i by (simp add: agreed_def push0_def)
    then show ?thesis using 1 by blast
  next
    case (sends op cmd)
    let ?ack = "(msg_code MSG_SYNC_ACK, seq_bytes (op_seq op))"
    have fits: "deliverable (op_bytes op)" using fit sends(1) by (simp add: send_op_def)
    have c1: "cl_live ?c1" "cl_to0 ?c1 = (msg_code MSG_SYNC_OP, op_bytes op) # []" "cl_t0 ?c1 = cl_t0 c"
      using i sends(1) by (simp_all add: push0_def send_op_def)
    let ?fd = "sm_out_fd (tr_sync (cl_t0 ?c1))"
    obtain t0 where t0: "process_peer_message ?fd (msg_code MSG_SYNC_OP) (op_bytes op) (cl_t0 ?c1) = (t0, [(?fd, ?ack)])"
      "forget (tr_state t0) = forget (tr_state t)" "sm_out_fd (tr_sync t0) = sm_out_fd (tr_sync (cl_t0 c))"
      using deliver_agree [OF fits sends(3) i(7), of ?fd] unfolding c1(3) by blast
    let ?c2 = "push1 [(?fd, ?ack)] (?c1\<lparr>cl_t0 := t0, cl_to0 := []\<rparr>)"
    have 2: "cluster_step ?c1 ?c2" by (rule deliver0 [OF c1(1,2) fits t0(1)])
    have c2: "cl_live ?c2" "cl_bound ?c2" "cl_to1 ?c2 = ?ack # []" "cl_t1 ?c2 = t"
      using i by (simp_all add: push0_def push1_def)
    let ?c3 = "push0 [] (?c2\<lparr>cl_t1 := acked op t, cl_to1 := []\<rparr>)"
    have 3: "cluster_step ?c2 ?c3" by (rule deliver1 [OF c2(1-3)]) (use c2(4) in \<open>simp_all add: deliver_ack\<close>)
    have "agreed ?c3 \<and> tr_state (cl_t1 ?c3) = tr_state t"
      using i sends(2) t0 by (simp add: agreed_def push0_def push1_def)
    moreover have "cluster_step\<^sup>*\<^sup>* c ?c3" using 1 2 3 by auto
    ultimately show ?thesis by blast
  qed
qed

definition tracker_at :: "bool \<Rightarrow> cluster \<Rightarrow> tracker" where
  "tracker_at first c = (if first then cl_t0 c else cl_t1 c)"

text \<open>While the link is up the trackers converge, with users logged in on either: when they agree up to who is online and nothing is in
  flight, and a client sends either of them any request except logout, then, once what is sent has been delivered and
  acknowledged, they agree again, and the tracker that was asked is in the state the request led to.\<close>

lemma tables_converge:
  assumes "agreed c" and "state_ok (tr_state (tracker_at i c))" and "dispatch now ty p ss (tracker_at i c) = (ss', t, r, out)"
    and "session_fits ss" and "exact_request ty p" and "ty \<noteq> msg_code MSG_LOGOUT" and "\<forall>m \<in> set out. deliverable (snd (snd m))"
  shows "\<exists>c'. cluster_step\<^sup>*\<^sup>* c c' \<and> agreed c' \<and> tr_state (tracker_at i c') = tr_state t"
  using assms agreed_request0 [OF assms(1) _ _ assms(4-7)] agreed_request1 [OF assms(1) _ _ assms(4-7)]
  by (cases i) (auto simp: tracker_at_def)

text \<open>A user is created at tracker 1 while user 5 is online at tracker 0 only.\<close>

definition one_online :: cluster where
  "one_online = pair_of ((users_tracker [5] 1 0 [] 3)\<lparr>tr_state := snd (login [5] [7] [9] 80 (tr_state (users_tracker [5] 1 0 [] 3)))\<rparr>)
     (users_tracker [5] 1 0 [] 4) True True 4 [] []"

lemma users_tracker_ok: "state_ok (tr_state (users_tracker [5] n a l fd))"
  by (auto simp: state_ok_def users_ok_def users_tracker_def some_user_def map_ok_Cons)

lemma tables_converge_witness:
  "\<exists>c'. cluster_step\<^sup>*\<^sup>* one_online c' \<and> agreed c' \<and>
    tr_state (tracker_at False c') = tr_state (users_tracker [5, 6] 2 0 [user_op 1 6] 4)"
proof -
  have t: "tracker_at False one_online = users_tracker [5] 1 0 [] 4" by (simp add: tracker_at_def one_online_def pair_of_def)
  have "agreed one_online"
    using users_tracker_ok [of 1 0 "[]" 3]
    by (simp add: agreed_def one_online_def pair_of_def forget_login) (simp add: users_tracker_def)
  from tables_converge [OF this, of False 0 "msg_code MSG_CREATE_USER" "enc_str [6] @ enc_str [7]" "new_session []", unfolded t,
      OF users_tracker_ok request_some_user [of 6 "[5]" 1 0 "[]" 4]]
  show ?thesis by (simp add: session_fits_def new_session_def exact_request_def send_op_def deliverable_user_op)
qed

section \<open>Logout\<close>

text \<open>A logout removes the user from the seeders of every file, but is not sent to the peer, which goes on listing them.\<close>

lemma logout_not_sent:
  "dispatch now (msg_code MSG_LOGOUT) p ss t = (ss', t', r, out) \<Longrightarrow> out = [] \<and> tr_sync t' = tr_sync t"
  by (auto simp: dispatch_def do_logout_def reply_def Let_def split: if_splits)

definition seeded :: tracker_state where
  "seeded = \<lparr>ts_users = [some_user 5], ts_groups = [([2], \<lparr>g_id = [2], g_owner = [5], g_members = [[5]], g_pending = [],
     g_files = [([3], \<lparr>fm_name = [3], fm_size = 0, fm_hash = [], fm_piece_hashes = [],
       fm_seeders = [([5], \<lparr>pr_user_id = [5], pr_ip = [9], pr_port = 80, pr_bitfield = []\<rparr>)]\<rparr>)]\<rparr>)]\<rparr>"

lemma logout_splits: "forget (snd (logout [5] seeded)) \<noteq> forget seeded"
proof -
  have "ts_groups (forget (snd (logout [5] seeded))) \<noteq> ts_groups (forget seeded)"
    by (simp add: seeded_def logout_def some_user_def map_vals_def drop_seeder_def set_user_def)
  then show ?thesis by metis
qed

end
