(* ===== verification/Tracker_Process.thy ===== *)
theory Tracker_Process
  imports Tracker_Spec Tracker_Session Net Text_Input
begin

text \<open>
  \<open>tracker/main.cpp\<close>: the configuration of a tracker, and what it does with an accepted connection: the first message
  decides whether it is the link of the peer tracker or a client's session. The bytes of the connection are the events of
  theory \<open>Net\<close>. The accept loop, the console and the end of the
  process are in theories \<open>Accepted_Connections\<close> and \<open>Tracker_Main\<close>.
\<close>

section \<open>The configuration\<close>

text \<open>\<open>file\<close> is \<open>None\<close> when it cannot be opened.\<close>

definition load_tracker_info :: "bytes option \<Rightarrow> bool \<times> (bytes \<times> u16) list" where
  "load_tracker_info content =
    (case content of None \<Rightarrow> (False, [])
     | Some s \<Rightarrow> (let out = read_endpoints s in (length out \<ge> 2, out)))"

text \<open>\<open>std::atoi\<close>: \<open>strtol\<close>, cut to the 32 bits of an \<open>int\<close>.\<close>

definition atoi :: "bytes \<Rightarrow> int" where
  "atoi s = sint (of_int (strtol10 s) :: u32)"

text \<open>The index of this tracker, its own address and its peer's; \<open>None\<close> is the exit with code 1.\<close>

definition tracker_setup ::
    "(bytes \<Rightarrow> bytes option) \<Rightarrow> bytes list \<Rightarrow> (int \<times> (bytes \<times> u16) \<times> (bytes \<times> u16)) option" where
  "tracker_setup files argv =
    (if length argv \<noteq> 3 then None
     else case load_tracker_info (files (argv ! 1)) of
       (False, _) \<Rightarrow> None
     | (True, eps) \<Rightarrow>
         (let idx = atoi (argv ! 2) in
          if idx < 0 \<or> idx \<ge> int (length eps) then None
          else Some (idx, eps ! nat idx, eps ! (if idx = 0 then 1 else 0))))"

text \<open>\<open>connect_loop\<close> dials the peer on tracker 0 only.\<close>

definition dials :: "int \<Rightarrow> bool" where
  "dials self_index = (self_index = 0)"

text \<open>With two trackers each is the other's peer, and exactly one of them dials.\<close>

lemma setup_pair:
  assumes "files f = Some (concat (map endpoint_line [a, b]))" and "word_ok (fst a)" and "word_ok (fst b)"
    and "atoi n = 0 \<or> atoi n = 1"
  shows "tracker_setup files [p, f, n] = Some (if atoi n = 0 then (0, a, b) else (1, b, a))"
proof -
  have "read_endpoints ([] @ concat (map endpoint_line [a, b])) = [a, b]"
    using assms(2,3) by (intro read_endpoints_lines) (simp_all add: gap_ok_def)
  then show ?thesis
    using assms(1,4) by (auto simp: tracker_setup_def load_tracker_info_def)
qed

section \<open>Connections\<close>

text \<open>
  The messages that \<open>recv_msg\<close> returns one after the other, at most \<open>n\<close>, and whether the connection then ended
  (otherwise the next call blocks).
\<close>

fun read_messages :: "nat \<Rightarrow> msg_header \<times> bytes \<Rightarrow> rx_ev list \<Rightarrow> (u16 \<times> bytes) list \<times> bool" where
  "read_messages 0 old rx = ([], False)"
| "read_messages (Suc n) old rx =
     (case recv_msg old rx of
        None \<Rightarrow> ([], False)
      | Some (r, hdr, payload, rx') \<Rightarrow>
          if r \<noteq> 1 then ([], True)
          else (case read_messages n (hdr, payload) rx' of (ms, ended) \<Rightarrow> ((h_type hdr, payload) # ms, ended)))"

text \<open>\<open>handle_one\<close>, then the loop of \<open>Session::run\<close>: the \<open>i\<close>-th message is handled at time \<open>now i\<close>.\<close>

fun session_msgs ::
    "(nat \<Rightarrow> u64) \<Rightarrow> nat \<Rightarrow> (u16 \<times> bytes) list \<Rightarrow> session \<Rightarrow> tracker \<Rightarrow> (status \<times> bytes) list \<times> sends \<times> session \<times> tracker" where
  "session_msgs now i [] ss t = ([], [], ss, t)"
| "session_msgs now i ((type, payload) # ms) ss t =
     (case dispatch (now i) type payload ss t of
        (ss, t, r, out) \<Rightarrow>
          (case session_msgs now (Suc i) ms ss t of (rs, out', ss, t) \<Rightarrow> (r # rs, out @ out', ss, t)))"

text \<open>The loop of \<open>handle_peer_connection\<close>.\<close>

fun peer_msgs :: "int \<Rightarrow> (u16 \<times> bytes) list \<Rightarrow> tracker \<Rightarrow> sends \<times> tracker" where
  "peer_msgs fd [] t = ([], t)"
| "peer_msgs fd ((type, payload) # ms) t =
     (case process_peer_message fd type payload t of
        (t, out) \<Rightarrow> (case peer_msgs fd ms t of (out', t) \<Rightarrow> (out @ out', t)))"

text \<open>The thread of a connection: the replies to a client, what is sent to the peer, and the tracker.\<close>

definition serve_connection ::
    "nat \<Rightarrow> (nat \<Rightarrow> u64) \<Rightarrow> int \<Rightarrow> bytes \<Rightarrow> rx_ev list \<Rightarrow> tracker \<Rightarrow> (status \<times> bytes) list \<times> sends \<times> tracker" where
  "serve_connection n now fd ip rx t =
    (case read_messages n (no_header, []) rx of
       ([], _) \<Rightarrow> ([], [], t)
     | ((type, payload) # ms, ended) \<Rightarrow>
         if type = msg_code MSG_SYNC_HELLO then
           (case acceptor_up fd t of
              (t, out) \<Rightarrow>
                (case peer_msgs fd ms t of
                   (out', t) \<Rightarrow> ([], out @ out', if ended then acceptor_down fd t else t)))
         else
           (case session_msgs now 0 ((type, payload) # ms) (new_session ip) t of
              (rs, out, ss, t) \<Rightarrow> (rs, out, if ended then session_end ss t else t)))"

section \<open>How many messages there can be\<close>

lemma recv_all_full: "recv_all n es = Some (1, d, es') \<Longrightarrow> length (rx_bytes es) = n + length (rx_bytes es')"
proof -
  assume r: "recv_all n es = Some (1, d, es')"
  have "n \<le> length (rx_bytes es)"
  proof (rule ccontr)
    assume "\<not> n \<le> length (rx_bytes es)"
    then obtain e where "recv_all n es = map_option (\<lambda>c. (c, rx_bytes es, e)) (rx_end es)"
      using recv_all_short by force
    then have "rx_end es = Some 1" using r by (cases "rx_end es") auto
    moreover have "rx_end es \<noteq> Some 1" by (induction es rule: rx_end.induct) auto
    ultimately show False by simp
  qed
  then show ?thesis using recv_all_enough [of n es] r by auto
qed

lemma recv_msg_shorter:
  "recv_msg old rx = Some (1, hdr, payload, rx') \<Longrightarrow> length (rx_bytes rx') + 12 \<le> length (rx_bytes rx)"
  by (auto simp: recv_msg_def bind_eq_Some_conv Let_def split: if_splits dest!: recv_all_full)

text \<open>More fuel than bytes is as good as any: no message is shorter than its header.\<close>

lemma read_messages_enough:
  "length (rx_bytes rx) < n \<Longrightarrow> length (rx_bytes rx) < m \<Longrightarrow> read_messages n old rx = read_messages m old rx"
proof (induction n arbitrary: m old rx)
  case (Suc n)
  obtain k where m: "m = Suc k" using Suc.prems(2) by (cases m) auto
  show ?case
  proof (cases "recv_msg old rx")
    case None
    then show ?thesis by (simp add: m)
  next
    case (Some q)
    obtain r hdr p rx' where q: "q = (r, hdr, p, rx')" by (cases q) auto
    show ?thesis
    proof (cases "r = 1")
      case True
      then have "length (rx_bytes rx') + 12 \<le> length (rx_bytes rx)" using recv_msg_shorter Some q by simp
      then have "read_messages n (hdr, p) rx' = read_messages k (hdr, p) rx'"
        using Suc.prems m by (intro Suc.IH) simp_all
      then show ?thesis using Some q True by (simp add: m)
    qed (simp add: m Some q)
  qed
qed simp

section \<open>Messages that were framed\<close>

definition frame :: "u16 \<times> bytes \<Rightarrow> bytes" where
  "frame m = header_bytes (fst m) 0 (length (snd m)) @ snd m"

definition sendable :: "u16 \<times> bytes \<Rightarrow> bool" where
  "sendable m \<longleftrightarrow> length (snd m) \<le> unat MAX_PAYLOAD"

lemma read_frames:
  assumes "list_all sendable ms" and "rx_bytes rx = concat (map frame ms)" and "length ms < n"
  shows "read_messages n old rx = (ms, rx_end rx \<noteq> None)"
  using assms
proof (induction ms arbitrary: n old rx)
  case Nil
  obtain k where n: "n = Suc k" using Nil.prems(3) by (cases n) auto
  have "rx_end rx \<noteq> Some 1" by (induction rx rule: rx_end.induct) auto
  moreover obtain e where "recv_all 12 rx = map_option (\<lambda>c. (c, rx_bytes rx, e)) (rx_end rx)"
    using recv_all_short [of rx 12] Nil.prems(2) by auto
  ultimately show ?case by (cases "rx_end rx") (auto simp: n recv_msg_def)
next
  case (Cons m ms)
  obtain k where n: "n = Suc k" using Cons.prems(3) by (cases n) auto
  obtain ty p where m: "m = (ty, p)" by (cases m)
  have l: "length p \<le> unat MAX_PAYLOAD" using Cons.prems(1) m by (simp add: sendable_def)
  have b: "rx_bytes rx = header_bytes ty 0 (length p) @ p @ concat (map frame ms)"
    using Cons.prems(2) by (simp add: m frame_def [of "(ty, p)"])
  obtain hdr rx' where r: "recv_msg old rx = Some (1, hdr, p, rx')" "h_type hdr = ty" "rx_bytes rx' = concat (map frame ms)"
    "rx_end rx' = rx_end rx"
    using recv_msg_frame [OF l b, of old] by auto
  have "read_messages k (hdr, p) rx' = (ms, rx_end rx' \<noteq> None)"
    using Cons.prems(1,3) r(3) n by (intro Cons.IH) simp_all
  then show ?case using r by (simp add: n m)
qed

lemma length_frame: "length (frame m) = 12 + length (snd m)"
  by (simp add: frame_def length_header)

lemma length_frames: "length ms \<le> length (concat (map frame ms))"
  by (induction ms) (simp_all add: length_frame)

text \<open>The requests with their times, as theory \<open>Tracker_Session\<close> has them.\<close>

definition timed :: "(nat \<Rightarrow> u64) \<Rightarrow> nat \<Rightarrow> (u16 \<times> bytes) list \<Rightarrow> (u64 \<times> u16 \<times> bytes) list" where
  "timed now i ms = map (\<lambda>(k, m). (now k, m)) (enumerate i ms)"

lemma session_msgs_run:
  "session_run (timed now i ms) ss t =
    (case session_msgs now i ms ss t of (rs, out, ss', t') \<Rightarrow> (rs, out, session_end ss' t'))"
proof (induction now i ms ss t rule: session_msgs.induct)
  case (2 now i type payload ms ss t)
  obtain ss' t' r out where d: "dispatch (now i) type payload ss t = (ss', t', r, out)"
    by (cases "dispatch (now i) type payload ss t") auto
  obtain rs out' ss'' t'' where m: "session_msgs now (Suc i) ms ss' t' = (rs, out', ss'', t'')"
    by (cases "session_msgs now (Suc i) ms ss' t'") auto
  have "session_run (timed now (Suc i) ms) ss' t' = (rs, out', session_end ss'' t'')"
    using "2.IH" [of ss' "(t', r, out)" t' "(r, out)" r out] d m by simp
  then show ?case using d m by (simp add: timed_def)
qed (simp add: timed_def)

lemma serve_frames:
  assumes "list_all sendable ((type, p) # ms)" and "rx_bytes rx = concat (map frame ((type, p) # ms))"
    and "length (rx_bytes rx) < n"
  shows "read_messages n (no_header, []) rx = ((type, p) # ms, rx_end rx \<noteq> None)"
proof (rule read_frames [OF assms(1,2)])
  show "length ((type, p) # ms) < n"
    using assms(3) length_frames [of "(type, p) # ms"] unfolding assms(2) by (rule le_less_trans [rotated])
qed

section \<open>The properties of the tracker process\<close>

text \<open>C13. A client's bytes become its session: whatever pieces the messages arrive in and however often a call is interrupted, the
  tracker handles exactly the requests that were framed, in order, answers as the session does, and logs the user out when the
  connection ends; its tables stay sound.\<close>

theorem connection_served:
  assumes "list_all sendable ((type, p) # ms)" and "rx_bytes rx = concat (map frame ((type, p) # ms))"
    and "type \<noteq> msg_code MSG_SYNC_HELLO" and "rx_end rx \<noteq> None" and "length (rx_bytes rx) < n" and "state_ok (tr_state t)"
  shows "serve_connection n now fd ip rx t = session_run (timed now 0 ((type, p) # ms)) (new_session ip) t \<and>
    state_ok (tr_state (snd (snd (serve_connection n now fd ip rx t))))"
proof -
  have "serve_connection n now fd ip rx t = session_run (timed now 0 ((type, p) # ms)) (new_session ip) t"
    using serve_frames [OF assms(1,2,5)] assms(3,4)
    unfolding session_msgs_run by (simp add: serve_connection_def del: session_msgs.simps)
  then show ?thesis using session_run_keeps [OF assms(6)] by simp
qed

theorem connection_served_witness:
  "serve_connection 100 (\<lambda>_. 0) 7 [9]
      [RxData (frame (msg_code MSG_LIST_GROUPS, [])), RxIntr, RxClosed] started =
    session_run [(0, msg_code MSG_LIST_GROUPS, [])] (new_session [9]) started"
proof -
  have "serve_connection 100 (\<lambda>_. 0) 7 [9] [RxData (frame (msg_code MSG_LIST_GROUPS, [])), RxIntr, RxClosed] started =
      session_run (timed (\<lambda>_. 0) 0 [(msg_code MSG_LIST_GROUPS, [])]) (new_session [9]) started"
    using connection_served [of "msg_code MSG_LIST_GROUPS" "[]" "[]"
        "[RxData (frame (msg_code MSG_LIST_GROUPS, [])), RxIntr, RxClosed]" 100 started "\<lambda>_. 0" 7 "[9]"]
    by (simp add: sendable_def length_frame started_def state_ok_new)
  then show ?thesis by (simp add: timed_def)
qed

text \<open>Anybody who can connect to a tracker can replace all its tables: a connection whose first message is \<open>MSG_SYNC_HELLO\<close>
  is taken for the peer tracker's, and the snapshot it sends next is restored without a check.\<close>

lemma tracker_overwritten:
  assumes "state_fits (fold step cs new_tracker)" and "length (snapshot (fold step cs new_tracker)) \<le> unat MAX_PAYLOAD"
    and "rx_bytes rx = frame (msg_code MSG_SYNC_HELLO, [i]) @
      frame (msg_code MSG_SYNC_SNAPSHOT_DATA, snapshot (fold step cs new_tracker))"
    and "length (rx_bytes rx) < n"
  shows "tr_state (snd (snd (serve_connection n now fd ip rx t))) = fold step cs new_tracker"
proof -
  let ?ms = "[(msg_code MSG_SYNC_SNAPSHOT_DATA, snapshot (fold step cs new_tracker))]"
  have "read_messages n (no_header, []) rx = ((msg_code MSG_SYNC_HELLO, [i]) # ?ms, rx_end rx \<noteq> None)"
    using assms by (intro serve_frames) (simp_all add: sendable_def)
  then show ?thesis
    using restore_snapshot [OF run_ok assms(1)]
    by (simp add: serve_connection_def acceptor_up_def process_peer_message_def acceptor_down_def set_fd_def)
qed

end
