(* ===== verification/Sync_Link.thy ===== *)
theory Sync_Link
  imports Tracker_Process
begin

text \<open>
  The connection thread of \<open>SyncManager\<close> (\<open>connect_loop\<close> of \<open>tracker/sync.cpp\<close>), with \<open>start\<close> and \<open>stop\<close>: on the tracker
  with index 0 it dials the peer, reads its messages, and dials again when the link drops; \<open>stop\<close> waits for its end. What the
  thread does and when it can do nothing is what decides whether \<open>stop\<close> returns.
\<close>

section \<open>The thread\<close>

text \<open>
  Where it is: before the test of \<open>__running\<close>, in \<open>tcp_connect\<close>, before \<open>__out_fd\<close> is set, before the hello, before the request to be
  brought up to date, in the read loop, behind it, asleep, ended.
\<close>

datatype dialer_pc = D_Check | D_Connect | D_Connected int | D_Linked int | D_Greeted int | D_Read int | D_Dropped int
  | D_Sleep | D_End

text \<open>The thread that calls \<open>stop\<close>: not yet, waiting in \<open>join\<close>, returned.\<close>

datatype stop_pc = Stop_Not | Stop_Join | Stop_Done

text \<open>\<open>dl_inbox\<close> is what has arrived on the link and was not read, \<open>dl_shut\<close> says that \<open>stop\<close> has shut it down, \<open>dl_gone\<close>
  that the other side has ended it.\<close>

record dialer =
  dl_pc :: dialer_pc
  dl_tracker :: tracker
  dl_running :: bool
  dl_inbox :: "(u16 \<times> bytes) list"
  dl_shut :: bool
  dl_gone :: bool
  dl_stop :: stop_pc
  dl_sent :: sends

text \<open>\<open>SyncManager::start\<close>, with the first test of \<open>connect_loop\<close>.\<close>

definition sync_start :: "int \<Rightarrow> tracker \<Rightarrow> dialer" where
  "sync_start self_index t = \<lparr>dl_pc = if dials self_index then D_Check else D_End, dl_tracker = t, dl_running = True,
     dl_inbox = [], dl_shut = False, dl_gone = False, dl_stop = Stop_Not, dl_sent = []\<rparr>"

text \<open>The critical section of \<open>SyncManager::stop\<close>.\<close>

definition sync_stop :: "dialer \<Rightarrow> dialer" where
  "sync_stop s = s\<lparr>dl_running := False, dl_shut := sm_out_fd (tr_sync (dl_tracker s)) \<ge> 0, dl_stop := Stop_Join\<rparr>"

text \<open>One step of the thread, as far as it is its own doing; \<open>answer\<close> is the result of \<open>tcp_connect\<close>. \<open>None\<close>: it has to wait for
  the other side, or has ended.\<close>

definition dialer_own :: "u8 \<Rightarrow> int \<Rightarrow> dialer \<Rightarrow> dialer option" where
  "dialer_own self_index answer s =
    (case dl_pc s of
       D_Check \<Rightarrow> Some (s\<lparr>dl_pc := if dl_running s then D_Connect else D_End\<rparr>)
     | D_Connect \<Rightarrow>
         if answer < 0 then Some (s\<lparr>dl_pc := D_Sleep\<rparr>)
         else Some (s\<lparr>dl_pc := D_Connected answer, dl_inbox := [], dl_shut := False, dl_gone := False\<rparr>)
     | D_Connected fd \<Rightarrow> Some (s\<lparr>dl_pc := D_Linked fd, dl_tracker := set_fd fd (dl_tracker s)\<rparr>)
     | D_Linked fd \<Rightarrow> Some (s\<lparr>dl_pc := D_Greeted fd,
         dl_sent := dl_sent s @ [(fd, msg_code MSG_SYNC_HELLO, buf_data (put_u8 self_index new_buf))]\<rparr>)
     | D_Greeted fd \<Rightarrow> Some (s\<lparr>dl_pc := D_Read fd,
         dl_sent := dl_sent s @
           [if ts_empty (tr_state (dl_tracker s)) then (fd, msg_code MSG_SYNC_SNAPSHOT_REQUEST, [])
            else (fd, msg_code MSG_SYNC_CATCHUP, seq_bytes (sm_applied (tr_sync (dl_tracker s))))]\<rparr>)
     | D_Read fd \<Rightarrow>
         (case dl_inbox s of
            [] \<Rightarrow> if dl_shut s \<or> dl_gone s then Some (s\<lparr>dl_pc := D_Dropped fd\<rparr>) else None
          | (type, payload) # ms \<Rightarrow>
              (case process_peer_message fd type payload (dl_tracker s) of
                 (t, out) \<Rightarrow> Some (s\<lparr>dl_tracker := t, dl_sent := dl_sent s @ out, dl_inbox := ms\<rparr>)))
     | D_Dropped fd \<Rightarrow> Some (s\<lparr>dl_tracker := dialer_down (dl_tracker s), dl_pc := if dl_running s then D_Sleep else D_End\<rparr>)
     | D_Sleep \<Rightarrow> Some (s\<lparr>dl_pc := D_Check\<rparr>)
     | D_End \<Rightarrow> None)"

text \<open>The descriptor while the link is there, from \<open>__out_fd = fd\<close> to the clean-up.\<close>

fun link_fd :: "dialer_pc \<Rightarrow> int option" where
  "link_fd (D_Linked fd) = Some fd"
| "link_fd (D_Greeted fd) = Some fd"
| "link_fd (D_Read fd) = Some fd"
| "link_fd (D_Dropped fd) = Some fd"
| "link_fd _ = None"

text \<open>The thread, the peer, and the caller of \<open>stop\<close>.\<close>

inductive dialer_step :: "u8 \<Rightarrow> dialer \<Rightarrow> dialer \<Rightarrow> bool" for self_index where
  own: "dialer_own self_index answer s = Some s' \<Longrightarrow> dialer_step self_index s s'"
| arrives: "link_fd (dl_pc s) \<noteq> None \<Longrightarrow> \<not> dl_shut s \<Longrightarrow> \<not> dl_gone s \<Longrightarrow>
    dialer_step self_index s (s\<lparr>dl_inbox := dl_inbox s @ [m]\<rparr>)"
| peer_ends: "link_fd (dl_pc s) \<noteq> None \<Longrightarrow> \<not> dl_gone s \<Longrightarrow> dialer_step self_index s (s\<lparr>dl_gone := True\<rparr>)"
| stops: "dl_stop s = Stop_Not \<Longrightarrow> dialer_step self_index s (sync_stop s)"
| joins: "dl_stop s = Stop_Join \<Longrightarrow> dl_pc s = D_End \<Longrightarrow> dialer_step self_index s (s\<lparr>dl_stop := Stop_Done\<rparr>)"

section \<open>The thread and the operations of the link\<close>

text \<open>After \<open>tcp_connect\<close> three steps are \<open>dialer_up\<close> of theory \<open>Tracker_Sync\<close>.\<close>

lemma dialer_links:
  assumes "dl_pc s = D_Connected fd" and "dialer_up fd self_index (dl_tracker s) = (t, out)"
  shows "(dialer_step self_index)\<^sup>*\<^sup>* s (s\<lparr>dl_pc := D_Read fd, dl_tracker := t, dl_sent := dl_sent s @ out\<rparr>)"
proof -
  let ?s1 = "s\<lparr>dl_pc := D_Linked fd, dl_tracker := t\<rparr>"
  let ?s2 = "s\<lparr>dl_pc := D_Greeted fd, dl_tracker := t, dl_sent := dl_sent s @ [hd out]\<rparr>"
  have t: "t = set_fd fd (dl_tracker s)" and o: "out = hd out # tl out"
    and h: "hd out = (fd, msg_code MSG_SYNC_HELLO, buf_data (put_u8 self_index new_buf))"
    and l: "tl out = [if ts_empty (tr_state t) then (fd, msg_code MSG_SYNC_SNAPSHOT_REQUEST, [])
      else (fd, msg_code MSG_SYNC_CATCHUP, seq_bytes (sm_applied (tr_sync t)))]"
    using assms(2) by (auto simp: dialer_up_def set_fd_def)
  have "dialer_step self_index s ?s1" by (rule own [of _ 0]) (simp add: dialer_own_def assms(1) t)
  moreover have "dialer_step self_index ?s1 ?s2" by (rule own [of _ 0]) (simp add: dialer_own_def h)
  moreover have "dialer_step self_index ?s2 (s\<lparr>dl_pc := D_Read fd, dl_tracker := t, dl_sent := dl_sent s @ out\<rparr>)"
  proof (rule own [of _ 0])
    have d: "dl_sent s @ out = (dl_sent s @ [hd out]) @ tl out" using o by simp
    show "dialer_own self_index 0 ?s2 = Some (s\<lparr>dl_pc := D_Read fd, dl_tracker := t, dl_sent := dl_sent s @ out\<rparr>)"
      unfolding d by (cases s) (simp add: dialer_own_def l)
  qed
  ultimately show ?thesis by (meson rtranclp.rtrancl_into_rtrancl rtranclp.rtrancl_refl)
qed

text \<open>The read loop is \<open>peer_msgs\<close> of theory \<open>Tracker_Process\<close>.\<close>

lemma dialer_reads:
  "dl_pc s = D_Read fd \<Longrightarrow> dl_inbox s = ms @ ms' \<Longrightarrow> peer_msgs fd ms (dl_tracker s) = (out, t) \<Longrightarrow>
   (dialer_step self_index)\<^sup>*\<^sup>* s (s\<lparr>dl_tracker := t, dl_sent := dl_sent s @ out, dl_inbox := ms'\<rparr>)"
proof (induction ms arbitrary: s out)
  case (Cons m ms)
  obtain type payload where m: "m = (type, payload)" by fastforce
  obtain t1 out1 where p: "process_peer_message fd type payload (dl_tracker s) = (t1, out1)" by fastforce
  obtain out2 where r: "peer_msgs fd ms t1 = (out2, t)" and out: "out = out1 @ out2"
    using Cons.prems(3) m p by (auto split: prod.splits)
  let ?s1 = "s\<lparr>dl_tracker := t1, dl_sent := dl_sent s @ out1, dl_inbox := ms @ ms'\<rparr>"
  have "dialer_step self_index s ?s1"
    by (rule own [of _ 0]) (use Cons.prems(1,2) m p in \<open>simp add: dialer_own_def\<close>)
  moreover have "(dialer_step self_index)\<^sup>*\<^sup>* ?s1 (?s1\<lparr>dl_tracker := t, dl_sent := dl_sent ?s1 @ out2, dl_inbox := ms'\<rparr>)"
    by (rule Cons.IH) (use Cons.prems(1) r in simp_all)
  ultimately show ?case by (simp add: out converse_rtranclp_into_rtranclp)
next
  case Nil
  then have "s\<lparr>dl_tracker := t, dl_sent := dl_sent s @ out, dl_inbox := ms'\<rparr> = s" by (cases s) simp
  then show ?case by simp
qed

section \<open>The descriptor of the link\<close>

lemma process_keeps_fd: "sm_out_fd (tr_sync (fst (process_peer_message fd type payload t))) = sm_out_fd (tr_sync t)"
  by (auto simp: process_peer_message_def Let_def split: option.splits msg_type.splits prod.splits)

definition dialer_ok :: "dialer \<Rightarrow> bool" where
  "dialer_ok s \<longleftrightarrow>
     sm_out_fd (tr_sync (dl_tracker s)) = (case link_fd (dl_pc s) of None \<Rightarrow> -1 | Some fd \<Rightarrow> fd) \<and>
     (\<forall>fd. link_fd (dl_pc s) = Some fd \<or> dl_pc s = D_Connected fd \<longrightarrow> 0 \<le> fd)"

lemma sync_start_ok: "sm_out_fd (tr_sync t) = -1 \<Longrightarrow> dialer_ok (sync_start i t)"
  by (simp add: dialer_ok_def sync_start_def)

lemma dialer_own_ok: "dialer_own i a s = Some s' \<Longrightarrow> dialer_ok s \<Longrightarrow> dialer_ok s'"
  using process_keeps_fd
  by (auto simp: dialer_own_def dialer_ok_def set_fd_def dialer_down_def split: dialer_pc.splits if_splits list.splits prod.splits)
    (metis fst_conv)+

lemma dialer_step_ok: "dialer_step i s s' \<Longrightarrow> dialer_ok s \<Longrightarrow> dialer_ok s'"
proof (induction rule: dialer_step.induct)
  case (own a s s')
  then show ?case by (rule dialer_own_ok)
qed (simp_all add: dialer_ok_def sync_stop_def)

lemma dialer_steps_ok: "(dialer_step i)\<^sup>*\<^sup>* s s' \<Longrightarrow> dialer_ok s \<Longrightarrow> dialer_ok s'"
  by (induction rule: rtranclp_induct) (auto intro: dialer_step_ok)

section \<open>When \<open>stop\<close> returns\<close>

text \<open>After \<open>stop\<close>, with a link that is shut down and no connection under way.\<close>

definition winding_down :: "dialer \<Rightarrow> bool" where
  "winding_down s \<longleftrightarrow> \<not> dl_running s \<and> dl_stop s \<noteq> Stop_Not \<and> (link_fd (dl_pc s) \<noteq> None \<longrightarrow> dl_shut s) \<and>
     dl_pc s \<noteq> D_Connect \<and> (\<forall>fd. dl_pc s \<noteq> D_Connected fd)"

fun pc_left :: "dialer_pc \<Rightarrow> nat" where
  "pc_left (D_Linked _) = 4"
| "pc_left (D_Greeted _) = 3"
| "pc_left (D_Read _) = 2"
| "pc_left (D_Dropped _) = 1"
| "pc_left D_Sleep = 2"
| "pc_left D_Check = 1"
| "pc_left _ = 0"

definition stop_left :: "dialer \<Rightarrow> nat" where
  "stop_left s = pc_left (dl_pc s) + length (dl_inbox s) + (if dl_gone s then 0 else 1) + (if dl_stop s = Stop_Done then 0 else 1)"

lemma sync_stop_simps [simp]:
  "dl_pc (sync_stop d) = dl_pc d" "dl_stop (sync_stop d) = Stop_Join" "dialer_ok (sync_stop d) = dialer_ok d"
  "dl_inbox (sync_stop d) = dl_inbox d"
  by (simp_all add: sync_stop_def dialer_ok_def)

lemma winding_own: "dialer_own i a s = Some s' \<Longrightarrow> winding_down s \<Longrightarrow> winding_down s' \<and> stop_left s' < stop_left s"
proof (cases "dl_pc s")
  case (D_Read fd)
  assume own: "dialer_own i a s = Some s'" and w: "winding_down s"
  show ?thesis
  proof (cases "dl_inbox s")
    case Nil
    then show ?thesis using D_Read own w by (auto simp: dialer_own_def winding_down_def stop_left_def split: if_splits)
  next
    case (Cons m ms)
    then have "s' = s\<lparr>dl_tracker := fst (process_peer_message fd (fst m) (snd m) (dl_tracker s)),
        dl_sent := dl_sent s @ snd (process_peer_message fd (fst m) (snd m) (dl_tracker s)), dl_inbox := ms\<rparr>"
      using D_Read own by (simp add: dialer_own_def split_beta)
    then show ?thesis using D_Read w Cons by (simp add: winding_down_def stop_left_def)
  qed
qed (auto simp: dialer_own_def winding_down_def stop_left_def)

lemma winding_step: "dialer_step i s s' \<Longrightarrow> winding_down s \<Longrightarrow> winding_down s' \<and> stop_left s' < stop_left s"
proof (induction rule: dialer_step.induct)
  case (own a s s')
  then show ?case using winding_own by blast
qed (auto simp: winding_down_def stop_left_def)

lemma winding_steps: "(dialer_step i ^^ n) s s' \<Longrightarrow> winding_down s \<Longrightarrow> winding_down s' \<and> n + stop_left s' \<le> stop_left s"
proof (induction n arbitrary: s')
  case (Suc n)
  then obtain r where "(dialer_step i ^^ n) s r" "dialer_step i r s'" by auto
  then show ?case using Suc winding_step [of i r s'] by force
qed simp

text \<open>The thread and the join never have to wait for the peer.\<close>

lemma winding_moves: "winding_down s \<Longrightarrow> dl_stop s = Stop_Done \<or> dl_pc s = D_End \<or> dialer_own i 0 s \<noteq> None"
  by (auto simp: winding_down_def dialer_own_def split: dialer_pc.splits list.splits prod.splits)

lemma stop_winds_down:
  assumes "dialer_ok d" and "dl_pc d \<noteq> D_Connect" and "\<forall>fd. dl_pc d \<noteq> D_Connected fd"
  shows "winding_down (sync_stop d)" and "stop_left (sync_stop d) \<le> 6 + length (dl_inbox d)"
proof -
  show "winding_down (sync_stop d)"
    using assms by (auto simp: dialer_ok_def winding_down_def sync_stop_def split: option.splits)
  have "pc_left p \<le> 4" for p by (cases p) auto
  from this [of "dl_pc d"] show "stop_left (sync_stop d) \<le> 6 + length (dl_inbox d)" by (simp add: stop_left_def sync_stop_def)
qed

text \<open>\<open>stop\<close> returns if the connection thread is not in the middle of \<open>tcp_connect\<close> when it is called: after it no run of the thread
  and of the peer is longer than six steps more than the messages that wait to be read, and as long as \<open>stop\<close> has not
  returned there is a step that does not depend on the peer. While there is a link \<open>__out_fd\<close> is its descriptor.\<close>

lemma stop_returns:
  assumes "(dialer_step i)\<^sup>*\<^sup>* (sync_start self_index t) s" and "sm_out_fd (tr_sync t) = -1" and "dl_stop s = Stop_Not"
    and "dl_pc s \<noteq> D_Connect" and "\<forall>fd. dl_pc s \<noteq> D_Connected fd"
    and "(dialer_step i ^^ n) (sync_stop s) s'"
  shows "n \<le> 6 + length (dl_inbox s) \<and> (dl_stop s' = Stop_Done \<or> dl_pc s' = D_End \<or> dialer_own i 0 s' \<noteq> None) \<and>
    sm_out_fd (tr_sync (dl_tracker s)) = (case link_fd (dl_pc s) of None \<Rightarrow> -1 | Some fd \<Rightarrow> fd)"
proof -
  have ok: "dialer_ok s" using dialer_steps_ok [OF assms(1)] sync_start_ok [OF assms(2)] by simp
  note w = stop_winds_down [OF ok assms(4,5)]
  show ?thesis using winding_steps [OF assms(6) w(1)] w(2) winding_moves [of s' i] ok by (auto simp: dialer_ok_def)
qed

text \<open>If it is called while the thread is in \<open>tcp_connect\<close>, \<open>stop\<close> may never return: nothing is shut down, for \<open>__out_fd\<close> is not set
  yet, the thread links all the same and waits for a message, and only the peer can end that. (\<open>main\<close> runs into this when its
  port is taken: \<open>tcp_listen\<close> fails right after \<open>start\<close>, and the destructor calls \<open>stop\<close>.)\<close>

lemma stop_may_hang:
  "\<exists>s. (dialer_step 0)\<^sup>*\<^sup>* (sync_start 0 started) s \<and> dl_stop s = Stop_Join \<and> \<not> dl_running s \<and> \<not> dl_shut s \<and>
    (\<forall>answer. dialer_own 0 answer s = None) \<and> dl_pc s = D_Read 3"
proof -
  let ?s0 = "sync_start 0 started"
  let ?s1 = "?s0\<lparr>dl_pc := D_Connect\<rparr>"
  let ?s2 = "sync_stop ?s1"
  let ?s3 = "?s2\<lparr>dl_pc := D_Connected 3\<rparr>"
  obtain t out where up: "dialer_up 3 0 (dl_tracker ?s3) = (t, out)" by fastforce
  let ?s4 = "?s3\<lparr>dl_pc := D_Read 3, dl_tracker := t, dl_sent := dl_sent ?s3 @ out\<rparr>"
  have "dialer_step 0 ?s0 ?s1" by (rule own [of _ 0]) (simp add: dialer_own_def sync_start_def dials_def)
  moreover have "dialer_step 0 ?s1 ?s2" by (rule stops) (simp add: sync_start_def)
  moreover have "dialer_step 0 ?s2 ?s3"
    by (rule own [of _ 3]) (simp add: dialer_own_def sync_start_def sync_stop_def started_def new_sync_def)
  moreover have "(dialer_step 0)\<^sup>*\<^sup>* ?s3 ?s4" using dialer_links [OF _ up] by simp
  ultimately have "(dialer_step 0)\<^sup>*\<^sup>* ?s0 ?s4" by (meson converse_rtranclp_into_rtranclp)
  moreover have "dl_stop ?s4 = Stop_Join" "\<not> dl_running ?s4" "\<not> dl_shut ?s4" "dl_pc ?s4 = D_Read 3" "dl_inbox ?s4 = []" "\<not> dl_gone ?s4"
    by (simp_all add: sync_stop_def sync_start_def started_def new_sync_def)
  ultimately show ?thesis by (intro exI [of _ ?s4]) (simp add: dialer_own_def)
qed

end
