(* ===== verification/Sockets.thy ===== *)
theory Sockets
  imports Net
begin

text \<open>
  \<open>tcp_connect\<close> and \<open>tcp_listen\<close> of \<open>common/net.cpp\<close> over the descriptor table of a process. What the kernel answers to
  \<open>socket\<close>, \<open>connect\<close>, \<open>bind\<close> and \<open>listen\<close> is the argument; what is left behind in the table is the result. The addresses are
  read by \<open>inet_pton\<close> and were, on the tracker, printed by \<open>inet_ntop\<close>; both are modelled.
\<close>

section \<open>Addresses\<close>

type_synonym ip4 = "u8 \<times> u8 \<times> u8 \<times> u8"

text \<open>The characters before the terminating null byte.\<close>

definition c_str :: "bytes \<Rightarrow> bytes" where
  "c_str s = takeWhile (\<lambda>c. c \<noteq> 0) s"

fun split_at :: "u8 \<Rightarrow> bytes \<Rightarrow> bytes list" where
  "split_at c [] = [[]]"
| "split_at c (x # xs) =
     (if x = c then [] # split_at c xs else (case split_at c xs of [] \<Rightarrow> [[x]] | p # ps \<Rightarrow> (x # p) # ps))"

text \<open>\<open>inet_pton(AF_INET, ...)\<close>: four decimal numbers up to 255 without leading zeros, separated by dots.\<close>

definition octet :: "bytes \<Rightarrow> u8 option" where
  "octet ds = (if ds \<noteq> [] \<and> list_all is_digit ds \<and> (hd ds \<noteq> 48 \<or> length ds = 1) \<and> digits_val ds \<le> 255
     then Some (of_int (digits_val ds)) else None)"

definition inet_pton :: "bytes \<Rightarrow> ip4 option" where
  "inet_pton s =
    (case map octet (split_at 46 (c_str s)) of
       [Some a, Some b, Some c, Some d] \<Rightarrow> Some (a, b, c, d)
     | _ \<Rightarrow> None)"

definition inet_ntop :: "ip4 \<Rightarrow> bytes" where
  "inet_ntop = (\<lambda>(a, b, c, d). decimal (unat a) @ 46 # decimal (unat b) @ 46 # decimal (unat c) @ 46 # decimal (unat d))"

lemma decimal_hd: "0 < n \<Longrightarrow> hd (decimal n) \<noteq> 48"
proof (induction n rule: decimal.induct)
  case (1 n)
  show ?case
  proof (cases "n < 10")
    case True
    then have "unat (48 + of_nat n :: u8) = 48 + n" by (rule unat_digit)
    then have "(48 + of_nat n :: u8) \<noteq> 48" using 1(2) by auto
    then show ?thesis using True by (simp add: decimal.simps [of n])
  next
    case False
    then have "hd (decimal (n div 10)) \<noteq> 48" using 1 by simp
    moreover have "decimal (n div 10) \<noteq> []" using decimal_Cons [of "n div 10"] by auto
    ultimately show ?thesis using False by (simp add: decimal.simps [of n])
  qed
qed

lemma octet_decimal: "octet (decimal (unat b)) = Some b"
proof -
  have "decimal (unat b) \<noteq> []" using decimal_Cons [of "unat b"] by auto
  moreover have "hd (decimal (unat b)) \<noteq> 48 \<or> length (decimal (unat b)) = 1"
    using decimal_hd [of "unat b"] by (cases "unat b = 0") (auto simp: decimal.simps [of 0])
  moreover have "digits_val (decimal (unat b)) \<le> 255" using unat_u8 [of b] unfolding decimal_val by linarith
  ultimately show ?thesis by (simp add: octet_def decimal_digits decimal_val)
qed

lemma split_at_none: "c \<notin> set s \<Longrightarrow> split_at c s = [s]"
  by (induction s) auto

lemma split_at_Cons: "c \<notin> set s \<Longrightarrow> split_at c (s @ c # t) = s # split_at c t"
  by (induction s) auto

lemma decimal_plain: "46 \<notin> set (decimal n)" "0 \<notin> set (decimal n)"
  using decimal_digits [of n] by (auto simp: list_all_iff is_digit_def)

lemma inet_ntop_plain: "0 \<notin> set (inet_ntop a)"
  by (auto simp: inet_ntop_def decimal_plain split: prod.splits)

lemma inet_pton_ntop: "inet_pton (inet_ntop a) = Some a"
proof -
  obtain p q r s where a: "a = (p, q, r, s)" by (cases a)
  have "c_str (inet_ntop a) = inet_ntop a"
    unfolding c_str_def using inet_ntop_plain [of a] by (auto intro: takeWhile_eq_all_conv [THEN iffD2])
  then show ?thesis
    by (simp add: a inet_pton_def inet_ntop_def split_at_Cons split_at_none decimal_plain octet_decimal)
qed

text \<open>The buffer of the tracker has \<open>INET_ADDRSTRLEN\<close> = 16 bytes.\<close>

lemma decimal_short: "n < 256 \<Longrightarrow> length (decimal n) \<le> 3"
proof -
  assume "n < 256"
  then have "n div 10 < 100" "n div 10 div 10 < 10" by linarith+
  then show ?thesis by (simp add: decimal.simps [of n] decimal.simps [of "n div 10"] decimal.simps [of "n div 10 div 10"])
qed

lemma inet_ntop_short: "length (inet_ntop a) < 16"
proof -
  obtain p q r s where a: "a = (p, q, r, s)" by (cases a)
  show ?thesis
    using decimal_short [OF unat_u8 [of p]] decimal_short [OF unat_u8 [of q]] decimal_short [OF unat_u8 [of r]]
      decimal_short [OF unat_u8 [of s]] by (simp add: a inet_ntop_def)
qed

section \<open>The descriptor table\<close>

text \<open>What a client relies on: a new descriptor was closed before, and opening and closing concern one descriptor only.\<close>

locale descriptors =
  fixes open_new :: "'s \<Rightarrow> 't \<Rightarrow> int \<times> 't"
    and close_it :: "int \<Rightarrow> 't \<Rightarrow> 't"
    and set_it :: "int \<Rightarrow> 's \<Rightarrow> 't \<Rightarrow> 't"
    and at :: "'t \<Rightarrow> int \<Rightarrow> 's option"
  assumes opened: "open_new s t = (fd, t') \<Longrightarrow> 0 \<le> fd \<and> at t fd = None \<and> at t' = (at t)(fd := Some s)"
    and closed: "at (close_it fd t) = (at t)(fd := None)"
    and changed: "at t fd \<noteq> None \<Longrightarrow> at (set_it fd s t) = (at t)(fd := Some s)"
begin

lemma open_close: "open_new s t = (fd, t') \<Longrightarrow> at (close_it fd t') = at t"
  using opened [of s t fd t'] closed [of fd t'] by (auto simp: fun_eq_iff)

lemma open_set: "open_new s t = (fd, t') \<Longrightarrow> at (set_it fd s' t') = (at t)(fd := Some s')"
  using opened [of s t fd t'] changed [of t' fd s'] by (auto simp: fun_eq_iff)

lemma open_set_close: "open_new s t = (fd, t') \<Longrightarrow> at (close_it fd (set_it fd s' t')) = at t"
  using opened [of s t fd t'] open_set [of s t fd t' s'] closed [of fd "set_it fd s' t'"] by (auto simp: fun_eq_iff)

lemma close_twice: "at (close_it fd (close_it fd t)) = at (close_it fd t)"
  by (simp add: closed)

end

text \<open>The kernel gives out the lowest descriptor that is free.\<close>

type_synonym 's fd_table = "'s option list"

fun lowest_free :: "'s fd_table \<Rightarrow> nat" where
  "lowest_free [] = 0"
| "lowest_free (None # t) = 0"
| "lowest_free (Some s # t) = Suc (lowest_free t)"

definition open_fd :: "'s \<Rightarrow> 's fd_table \<Rightarrow> int \<times> 's fd_table" where
  "open_fd s t =
    (let n = lowest_free t in (int n, if n < length t then t[n := Some s] else t @ [Some s]))"

definition close_fd :: "int \<Rightarrow> 's fd_table \<Rightarrow> 's fd_table" where
  "close_fd fd t = (if fd < 0 then t else t[nat fd := None])"

definition set_sock :: "int \<Rightarrow> 's \<Rightarrow> 's fd_table \<Rightarrow> 's fd_table" where
  "set_sock fd s t = (if fd < 0 then t else t[nat fd := Some s])"

definition fd_at :: "'s fd_table \<Rightarrow> int \<Rightarrow> 's option" where
  "fd_at t fd = (if 0 \<le> fd \<and> nat fd < length t then t ! nat fd else None)"

lemma lowest_free_le: "lowest_free t \<le> length t"
  by (induction t rule: lowest_free.induct) auto

lemma lowest_free_none: "lowest_free t < length t \<Longrightarrow> t ! lowest_free t = None"
  by (induction t rule: lowest_free.induct) auto

interpretation fds: descriptors open_fd close_fd set_sock fd_at
proof
  fix s :: 's and t t' fd
  assume "open_fd s t = (fd, t')"
  then have fd: "fd = int (lowest_free t)"
    and t': "t' = (if lowest_free t < length t then t[lowest_free t := Some s] else t @ [Some s])"
    by (simp_all add: open_fd_def Let_def)
  have "fd_at t' x = ((fd_at t)(fd := Some s)) x" for x
  proof (cases "lowest_free t < length t")
    case True
    then show ?thesis by (auto simp: fd t' fd_at_def nth_list_update)
  next
    case False
    then have "lowest_free t = length t" using lowest_free_le [of t] by simp
    then show ?thesis by (auto simp: fd t' fd_at_def nth_append less_Suc_eq)
  qed
  then show "0 \<le> fd \<and> fd_at t fd = None \<and> fd_at t' = (fd_at t)(fd := Some s)"
    using lowest_free_none [of t] by (auto simp: fd fd_at_def)
next
  show "fd_at (close_fd fd t) = (fd_at t)(fd := None)" for fd and t :: "'s fd_table"
    by (auto simp: fun_eq_iff fd_at_def close_fd_def nth_list_update)
next
  show "fd_at (set_sock fd s t) = (fd_at t)(fd := Some s)" if "fd_at t fd \<noteq> None" for fd and s :: 's and t
    using that by (auto simp: fun_eq_iff fd_at_def set_sock_def nth_list_update split: if_splits)
qed

section \<open>\<open>tcp_connect\<close> and \<open>tcp_listen\<close>\<close>

datatype sock_state = Sk_New | Sk_Connected ip4 u16 | Sk_Bound ip4 u16 | Sk_Listening ip4 u16 int

record sock =
  sk_nodelay :: bool
  sk_reuse :: bool
  sk_state :: sock_state

text \<open>What the kernel answers to the calls of one \<open>tcp_connect\<close> or \<open>tcp_listen\<close>.\<close>

record net_kernel =
  nk_socket :: bool
  nk_option :: bool
  nk_connect :: "ip4 \<Rightarrow> u16 \<Rightarrow> bool"
  nk_bind :: "ip4 \<Rightarrow> u16 \<Rightarrow> bool"
  nk_listen :: bool

definition new_sock :: sock where
  "new_sock = \<lparr>sk_nodelay = False, sk_reuse = False, sk_state = Sk_New\<rparr>"

definition tcp_connect :: "net_kernel \<Rightarrow> bytes \<Rightarrow> u16 \<Rightarrow> sock fd_table \<Rightarrow> int \<times> sock fd_table" where
  "tcp_connect K ip port t =
    (if \<not> nk_socket K then (-1, t)
     else (case open_fd new_sock t of (fd, t) \<Rightarrow>
       (case inet_pton ip of
          None \<Rightarrow> (-1, close_fd fd t)
        | Some addr \<Rightarrow>
            if \<not> nk_connect K addr port then (-1, close_fd fd t)
            else (fd, set_sock fd \<lparr>sk_nodelay = nk_option K, sk_reuse = False, sk_state = Sk_Connected addr port\<rparr> t))))"

definition tcp_listen :: "net_kernel \<Rightarrow> bytes \<Rightarrow> u16 \<Rightarrow> int \<Rightarrow> sock fd_table \<Rightarrow> int \<times> sock fd_table" where
  "tcp_listen K ip port backlog t =
    (if \<not> nk_socket K then (-1, t)
     else (case open_fd new_sock t of (fd, t) \<Rightarrow>
       (let s = new_sock\<lparr>sk_reuse := nk_option K\<rparr>; t = set_sock fd s t in
        case inet_pton ip of
          None \<Rightarrow> (-1, close_fd fd t)
        | Some addr \<Rightarrow>
            if \<not> nk_bind K addr port then (-1, close_fd fd t)
            else (let t = set_sock fd (s\<lparr>sk_state := Sk_Bound addr port\<rparr>) t in
              if \<not> nk_listen K then (-1, close_fd fd t)
              else (fd, set_sock fd (s\<lparr>sk_state := Sk_Listening addr port backlog\<rparr>) t)))))"

text \<open>When they succeed, and what they leave in the table then.\<close>

definition connects :: "net_kernel \<Rightarrow> bytes \<Rightarrow> u16 \<Rightarrow> bool" where
  "connects K ip port = (nk_socket K \<and> (case inet_pton ip of None \<Rightarrow> False | Some addr \<Rightarrow> nk_connect K addr port))"

definition listens :: "net_kernel \<Rightarrow> bytes \<Rightarrow> u16 \<Rightarrow> bool" where
  "listens K ip port =
    (nk_socket K \<and> (case inet_pton ip of None \<Rightarrow> False | Some addr \<Rightarrow> nk_bind K addr port \<and> nk_listen K))"

definition connected_to :: "net_kernel \<Rightarrow> ip4 \<Rightarrow> u16 \<Rightarrow> sock" where
  "connected_to K addr port = \<lparr>sk_nodelay = nk_option K, sk_reuse = False, sk_state = Sk_Connected addr port\<rparr>"

definition listening_at :: "net_kernel \<Rightarrow> ip4 \<Rightarrow> u16 \<Rightarrow> int \<Rightarrow> sock" where
  "listening_at K addr port b = \<lparr>sk_nodelay = False, sk_reuse = nk_option K, sk_state = Sk_Listening addr port b\<rparr>"

lemma tcp_connect_fails: "\<not> connects K ip port \<Longrightarrow> tcp_connect K ip port t = (fd, t') \<Longrightarrow> fd = -1 \<and> fd_at t' = fd_at t"
  by (auto simp: connects_def tcp_connect_def fds.open_close split: if_splits prod.splits option.splits)

lemma tcp_connect_works:
  assumes "connects K ip port" and "tcp_connect K ip port t = (fd, t')"
  shows "0 \<le> fd \<and> fd_at t fd = None \<and> (\<exists>addr. inet_pton ip = Some addr \<and>
    fd_at t' = (fd_at t)(fd := Some (connected_to K addr port)))"
  using assms fds.opened [of new_sock t]
  by (auto simp: connects_def tcp_connect_def connected_to_def fds.open_set split: if_splits prod.splits option.splits)

lemma set_sock_twice: "open_fd s t = (fd, t') \<Longrightarrow> fd_at (set_sock fd v (set_sock fd u t')) = (fd_at t)(fd := Some v)"
  using fds.open_set [of s t fd t' u] fds.changed [of "set_sock fd u t'" fd v] by (auto simp: fun_eq_iff)

lemma set_sock_thrice:
  "open_fd s t = (fd, t') \<Longrightarrow> fd_at (set_sock fd w (set_sock fd v (set_sock fd u t'))) = (fd_at t)(fd := Some w)"
  using set_sock_twice [of s t fd t' v u] fds.changed [of "set_sock fd v (set_sock fd u t')" fd w] by (auto simp: fun_eq_iff)

lemma close_set_twice: "open_fd s t = (fd, t') \<Longrightarrow> fd_at (close_fd fd (set_sock fd v (set_sock fd u t'))) = fd_at t"
  using set_sock_twice [of s t fd t' v u] fds.opened [of s t fd t'] by (auto simp: fun_eq_iff fds.closed)

lemma tcp_listen_fails: "\<not> listens K ip port \<Longrightarrow> tcp_listen K ip port b t = (fd, t') \<Longrightarrow> fd = -1 \<and> fd_at t' = fd_at t"
  by (auto simp: listens_def tcp_listen_def Let_def fds.open_set_close close_set_twice
      split: if_splits prod.splits option.splits)

lemma tcp_listen_works:
  assumes "listens K ip port" and "tcp_listen K ip port b t = (fd, t')"
  shows "0 \<le> fd \<and> fd_at t fd = None \<and> (\<exists>addr. inet_pton ip = Some addr \<and>
    fd_at t' = (fd_at t)(fd := Some (listening_at K addr port b)))"
  using assms fds.opened [of new_sock t]
  by (auto simp: listens_def tcp_listen_def listening_at_def new_sock_def Let_def set_sock_thrice split: if_splits prod.splits option.splits)

section \<open>The properties\<close>

text \<open>\<open>tcp_connect\<close> and \<open>tcp_listen\<close> leave nothing behind when they fail, at whichever call: the result is -1 and every
  descriptor is what it was. When they succeed the result is a descriptor that was closed, now the connected or listening
  socket for the address that was asked for, and every other descriptor is what it was.\<close>

lemma sockets_not_leaked:
  "(case tcp_connect K ip port t of (fd, t') \<Rightarrow>
      if connects K ip port
      then fd_at t fd = None \<and> 0 \<le> fd \<and> fd_at t' = (fd_at t)(fd \<mapsto> connected_to K (the (inet_pton ip)) port)
      else fd = -1 \<and> fd_at t' = fd_at t) \<and>
   (case tcp_listen K ip port b t of (fd, t') \<Rightarrow>
      if listens K ip port
      then fd_at t fd = None \<and> 0 \<le> fd \<and> fd_at t' = (fd_at t)(fd \<mapsto> listening_at K (the (inet_pton ip)) port b)
      else fd = -1 \<and> fd_at t' = fd_at t)"
  using tcp_connect_fails [of K ip port t] tcp_connect_works [of K ip port t]
    tcp_listen_fails [of K ip port b t] tcp_listen_works [of K ip port b t] by (auto split: prod.splits)

text \<open>An address in the form in which a tracker records it (\<open>inet_ntop\<close> of the address that \<open>accept\<close> reported) is read back by
  \<open>tcp_connect\<close> as that address, fits the buffer of the tracker, and a peer is dialled exactly there.\<close>

lemma recorded_address_dialled:
  "inet_pton (inet_ntop addr) = Some addr \<and> length (inet_ntop addr) < 16 \<and>
   connects K (inet_ntop addr) port = (nk_socket K \<and> nk_connect K addr port)"
  by (simp add: inet_pton_ntop inet_ntop_short connects_def)

end
