(* ===== verification/Tracker_Main.thy ===== *)
theory Tracker_Main
  imports Sync_Link Sockets
begin

text \<open>
  \<open>main\<close> of \<open>tracker/main.cpp\<close> as a whole: the connection thread is started, the port is opened, the console waits for
  \<open>quit\<close>, and both ways out of the program wait for that thread. The connections themselves are in theories
  \<open>Tracker_Process\<close> and \<open>Accepted_Connections\<close>; here are the life of the process and the address a session gets.
\<close>

section \<open>An accepted connection\<close>

text \<open>\<open>addr\<close> is what \<open>accept\<close> reports; the session knows its peer by the text of it.\<close>

definition serve_accepted ::
    "nat \<Rightarrow> (nat \<Rightarrow> u64) \<Rightarrow> int \<Rightarrow> ip4 \<Rightarrow> rx_ev list \<Rightarrow> tracker \<Rightarrow> (status \<times> bytes) list \<times> sends \<times> tracker" where
  "serve_accepted n now fd addr rx t = serve_connection n now fd (inet_ntop addr) rx t"

lemma commit_peer_ip: "commit now type rep r ss t = (ss', t', q, out) \<Longrightarrow> ss_peer_ip ss' = ss_peer_ip ss"
  by (auto simp: commit_def Let_def split: if_splits prod.splits)

lemma dispatch_peer_ip: "dispatch now type payload ss t = (ss', t', q, out) \<Longrightarrow> ss_peer_ip ss' = ss_peer_ip ss"
proof (cases "msg_of type")
  case (Some k)
  assume "dispatch now type payload ss t = (ss', t', q, out)"
  then show ?thesis
    using Some
    by (cases k) (auto simp: dispatch_def reply_def Let_def do_create_user_def do_login_def do_logout_def
        group_request_def list_request_def do_accept_def do_upload_def do_get_meta_def do_stop_share_def
        do_have_def dest: commit_peer_ip split: option.splits if_splits)
qed (simp add: dispatch_def reply_def)

lemma session_peer_ip: "session_msgs now i ms ss t = (rs, out, ss', t') \<Longrightarrow> ss_peer_ip ss' = ss_peer_ip ss"
proof (induction ms arbitrary: i ss t rs out)
  case (Cons m ms)
  then show ?case by (cases m) (auto split: prod.splits dest: dispatch_peer_ip)
qed simp

section \<open>The process\<close>

text \<open>Before \<open>tcp_listen\<close>, serving, in \<open>SyncManager::stop\<close> on the way out, gone.\<close>

datatype main_pc = M_Start | M_Serving int | M_Leaving int "int option" | M_Exit int

record tracker_main =
  tm_pc :: main_pc
  tm_dialer :: dialer
  tm_fds :: "sock fd_table"

definition main_begin :: "int \<Rightarrow> tracker \<Rightarrow> sock fd_table \<Rightarrow> tracker_main" where
  "main_begin idx t fds = \<lparr>tm_pc = M_Start, tm_dialer = sync_start idx t, tm_fds = fds\<rparr>"

text \<open>\<open>return 1\<close> destroys the manager, which calls \<open>stop\<close>.\<close>

definition main_listen :: "net_kernel \<Rightarrow> bytes \<Rightarrow> u16 \<Rightarrow> tracker_main \<Rightarrow> tracker_main" where
  "main_listen K ip port s =
    (case tcp_listen K ip port 64 (tm_fds s) of
       (fd, t) \<Rightarrow>
         if fd < 0 then s\<lparr>tm_pc := M_Leaving 1 None, tm_dialer := sync_stop (tm_dialer s), tm_fds := t\<rparr>
         else s\<lparr>tm_pc := M_Serving fd, tm_fds := t\<rparr>)"

text \<open>The line \<open>quit\<close> on the console; every other line is ignored.\<close>

definition main_line :: "bytes \<Rightarrow> int \<Rightarrow> tracker_main \<Rightarrow> tracker_main" where
  "main_line line lfd s =
    (if line = str ''quit'' then s\<lparr>tm_pc := M_Leaving 0 (Some lfd), tm_dialer := sync_stop (tm_dialer s)\<rparr> else s)"

definition main_leave :: "int \<Rightarrow> int option \<Rightarrow> tracker_main \<Rightarrow> tracker_main" where
  "main_leave code lfd s = s\<lparr>tm_pc := M_Exit code, tm_dialer := (tm_dialer s)\<lparr>dl_stop := Stop_Done\<rparr>,
     tm_fds := (case lfd of None \<Rightarrow> tm_fds s | Some fd \<Rightarrow> close_fd fd (tm_fds s))\<rparr>"

inductive main_step :: "int \<Rightarrow> bytes \<Rightarrow> u16 \<Rightarrow> tracker_main \<Rightarrow> tracker_main \<Rightarrow> bool" for idx ip port where
  thread: "(\<forall>code. tm_pc s \<noteq> M_Exit code) \<Longrightarrow> dialer_step (of_int idx) (tm_dialer s) d \<Longrightarrow> dl_stop d = dl_stop (tm_dialer s) \<Longrightarrow>
    main_step idx ip port s (s\<lparr>tm_dialer := d\<rparr>)"
| listen: "tm_pc s = M_Start \<Longrightarrow> main_step idx ip port s (main_listen K ip port s)"
| console: "tm_pc s = M_Serving lfd \<Longrightarrow> main_step idx ip port s (main_line line lfd s)"
| leave: "tm_pc s = M_Leaving code lfd \<Longrightarrow> dl_pc (tm_dialer s) = D_End \<Longrightarrow> main_step idx ip port s (main_leave code lfd s)"

section \<open>What holds on the way\<close>

definition main_ok :: "int \<Rightarrow> tracker_main \<Rightarrow> bool" where
  "main_ok idx s \<longleftrightarrow> dialer_ok (tm_dialer s) \<and> (dials idx \<or> dl_pc (tm_dialer s) = D_End) \<and>
     (case tm_pc s of M_Leaving _ _ \<Rightarrow> dl_stop (tm_dialer s) = Stop_Join | M_Exit _ \<Rightarrow> dl_stop (tm_dialer s) = Stop_Done
      | _ \<Rightarrow> dl_stop (tm_dialer s) = Stop_Not)"

lemma main_begin_ok: "sm_out_fd (tr_sync t) = -1 \<Longrightarrow> main_ok idx (main_begin idx t fds)"
  using sync_start_ok by (auto simp: main_ok_def main_begin_def sync_start_def)

lemma ended_thread: "dialer_step i s s' \<Longrightarrow> dl_pc s = D_End \<Longrightarrow> dl_pc s' = D_End"
  by (induction rule: dialer_step.induct) (auto simp: dialer_own_def sync_stop_def)

lemma main_step_ok: "main_step idx ip port s s' \<Longrightarrow> main_ok idx s \<Longrightarrow> main_ok idx s'"
proof (induction rule: main_step.induct)
  case (thread s d)
  then show ?case
    using dialer_step_ok [OF thread(2)] ended_thread [OF thread(2)] by (auto simp: main_ok_def split: main_pc.splits)
next
  case (listen s K)
  then show ?case by (auto simp: main_ok_def main_listen_def split: prod.splits)
next
  case (console s lfd line)
  then show ?case by (auto simp: main_ok_def main_line_def)
next
  case (leave s code lfd)
  then show ?case by (auto simp: main_ok_def main_leave_def dialer_ok_def)
qed

lemma main_steps_ok: "(main_step idx ip port)\<^sup>*\<^sup>* s s' \<Longrightarrow> main_ok idx s \<Longrightarrow> main_ok idx s'"
  by (induction rule: rtranclp_induct) (auto intro: main_step_ok)

text \<open>On the way out, with a thread that winds down.\<close>

definition leaving :: "int \<Rightarrow> tracker_main \<Rightarrow> bool" where
  "leaving code s \<longleftrightarrow> winding_down (tm_dialer s) \<and>
     ((\<exists>lfd. tm_pc s = M_Leaving code lfd \<and> dl_stop (tm_dialer s) = Stop_Join) \<or> tm_pc s = M_Exit code)"

lemma leaving_step: "main_step idx ip port s s' \<Longrightarrow> leaving code s \<Longrightarrow> leaving code s' \<and> stop_left (tm_dialer s') < stop_left (tm_dialer s)"
proof (induction rule: main_step.induct)
  case (thread s d)
  then show ?case using winding_step [OF thread(2)] by (auto simp: leaving_def)
next
  case (leave s c lfd)
  then show ?case by (auto simp: leaving_def main_leave_def winding_down_def stop_left_def)
qed (auto simp: leaving_def)

lemma leaving_steps: "(main_step idx ip port ^^ n) s s' \<Longrightarrow> leaving code s \<Longrightarrow>
    leaving code s' \<and> n + stop_left (tm_dialer s') \<le> stop_left (tm_dialer s)"
proof (induction n arbitrary: s')
  case (Suc n)
  then obtain r where "(main_step idx ip port ^^ n) s r" "main_step idx ip port r s'" by auto
  then show ?case using Suc leaving_step [of idx ip port r s' code] by force
qed simp

text \<open>The two ways out begin with a call of \<open>stop\<close>.\<close>

lemma leaving_begins:
  assumes "main_step idx ip port s s'" and "tm_pc s' = M_Leaving code lfd" and "\<forall>c l. tm_pc s \<noteq> M_Leaving c l"
  shows "tm_dialer s' = sync_stop (tm_dialer s)"
  using assms by (induction rule: main_step.induct) (auto simp: main_listen_def main_line_def main_leave_def split: prod.splits if_splits)

text \<open>C16. A tracker that is told to quit, or cannot open its port, exits with code 0 or 1: always if it is not tracker 0, and on tracker 0 if
  its connection thread is not just in \<open>tcp_connect\<close>. From the moment it begins to leave there are at most six steps, more than
  the messages that wait on the link, and until it is gone there is one that does not depend on the other tracker.\<close>

theorem tracker_exits:
  assumes "(main_step idx ip port)\<^sup>*\<^sup>* (main_begin idx t fds) s" and "sm_out_fd (tr_sync t) = -1"
    and "main_step idx ip port s s1" and "tm_pc s1 = M_Leaving code lfd" and "\<forall>c l. tm_pc s \<noteq> M_Leaving c l"
    and "\<not> dials idx \<or> dl_pc (tm_dialer s) \<noteq> D_Connect \<and> (\<forall>fd. dl_pc (tm_dialer s) \<noteq> D_Connected fd)"
    and "(main_step idx ip port ^^ n) s1 s2"
  shows "n \<le> 6 + length (dl_inbox (tm_dialer s)) \<and>
    (tm_pc s2 = M_Exit code \<or> dl_pc (tm_dialer s2) = D_End \<or> dialer_own (of_int idx) 0 (tm_dialer s2) \<noteq> None)"
proof -
  have ok: "main_ok idx s" by (rule main_steps_ok [OF assms(1) main_begin_ok [OF assms(2)]])
  have d: "tm_dialer s1 = sync_stop (tm_dialer s)" by (rule leaving_begins [OF assms(3-5)])
  have "dl_pc (tm_dialer s) \<noteq> D_Connect \<and> (\<forall>fd. dl_pc (tm_dialer s) \<noteq> D_Connected fd)"
    using assms(6) ok by (auto simp: main_ok_def)
  then have w: "winding_down (tm_dialer s1)" "stop_left (tm_dialer s1) \<le> 6 + length (dl_inbox (tm_dialer s))"
    using stop_winds_down [of "tm_dialer s"] ok unfolding d main_ok_def by blast+
  then have "leaving code s1" using assms(4) by (simp add: leaving_def d)
  from leaving_steps [OF assms(7) this] w(2) show ?thesis
    using winding_moves [of "tm_dialer s2" "of_int idx"] by (auto simp: leaving_def)
qed

theorem tracker_exits_witness:
  "\<exists>s1. main_step 1 (inet_ntop (10, 0, 0, 1)) 80 (main_begin 1 started []) s1 \<and> tm_pc s1 = M_Leaving 1 None \<and>
    (tm_pc s1 = M_Exit 1 \<or> dl_pc (tm_dialer s1) = D_End \<or> dialer_own 1 0 (tm_dialer s1) \<noteq> None)"
proof -
  let ?K = "\<lparr>nk_socket = False, nk_option = True, nk_connect = \<lambda>a p. True, nk_bind = \<lambda>a p. True, nk_listen = True\<rparr>"
  let ?s = "main_begin 1 started []" and ?ip = "inet_ntop (10, 0, 0, 1)"
  have st: "main_step 1 ?ip 80 ?s (main_listen ?K ?ip 80 ?s)" by (rule listen) (simp add: main_begin_def)
  have pc: "tm_pc (main_listen ?K ?ip 80 ?s) = M_Leaving 1 None" by (simp add: main_listen_def tcp_listen_def)
  have "(main_step 1 ?ip 80 ^^ 0) (main_listen ?K ?ip 80 ?s) (main_listen ?K ?ip 80 ?s)" by simp
  from tracker_exits [OF rtranclp.rtrancl_refl _ st pc _ _ this] show ?thesis
    using st pc by (auto simp: started_def new_sync_def main_begin_def dials_def)
qed

end
