(* ===== verification/Cross_Sharing.thy ===== *)
theory Cross_Sharing
  imports File_Sharing Tracker_Agreement Tracker_Main
begin

text \<open>
  Sharing between users of different trackers: a file that is uploaded through tracker 0 is found, downloaded and verified by a
  user who is connected to tracker 1. It puts theories \<open>File_Sharing\<close> (one tracker) and \<open>Tracker_Agreement\<close> (replication)
  together.
\<close>

text \<open>What a downloader has of a file \<open>f\<close>: the same bytes, unless two different pieces of the same index have the same SHA-1.\<close>

definition arrived :: "bytes \<Rightarrow> bytes \<Rightarrow> bool" where
  "arrived f f' \<longleftrightarrow> length f' = length f \<and>
    (f' = f \<or> (\<exists>i < length (pieces_of f). pieces_of f' ! i \<noteq> pieces_of f ! i \<and>
       rfc_sha1 (pieces_of f' ! i) = rfc_sha1 (pieces_of f ! i)))"

text \<open>From the metadata a tracker has to the file on disk.\<close>

lemma published_download:
  assumes on: "on_tracker a w e ss t"
    and got: "get_file gid (ss_user ss) name no_meta (tr_state t) = (ST_OK, published name f uid ip port)"
    and big: "length f < 2 ^ 44" and ok: "str_ok gid" "str_ok name" "str_ok uid" "str_ok ip" and other: "ss_user ss \<noteq> uid"
    and len: "length gid + length name + 8 \<le> unat MAX_PAYLOAD" "length (meta_bytes (published name f uid ip port)) \<le> unat MAX_PAYLOAD"
    and free: "map_find (dm_jobs (ca_downloads a)) (gid @ str ''/'' @ name) = None"
    and line: "tokenize line = [str ''download_file'', gid, name, dest]"
  shows "\<exists>a' w'. client_line tracker_link E line a w = Some (out_line (str ''download started''), a', w') \<and>
    (\<forall>JE f0 sd job' sd' st f'. run_job JE (ca_jobs a' (se_job E)) f0 sd (job', sd', st, f') \<and> dj_done job' \<longrightarrow>
       arrived f f' \<and> find_share (ShareKey gid name) sd' = Some (se_store E))"
proof -
  let ?fm = "published name f uid ip port"
  let ?job = "meta_job E gid name dest (ss_user ss) ?fm"
  have "dj_peers ?job \<noteq> []" using other by (simp add: meta_job_def published_def)
  from download_command [OF on got published_fits [OF ok(2-4) big] ok(1,2) len this free line]
  obtain a' w' where l: "client_line tracker_link E line a w = Some (out_line (str ''download started''), a', w')"
    and j: "ca_jobs a' (se_job E) = ?job" by blast
  have h: "dj_piece_hashes ?job = map hash_buffer (file_pieces (unat PIECE_SIZE) f)" "unat (dj_size ?job) = length f"
    using big by (simp_all add: meta_job_def published_def hashes_of_def unat_of_nat)
  have "\<not> dj_done ?job" by (simp add: meta_job_def)
  note ends = download_done [OF _ published_meta_ok [OF big] _ this h]
  have "arrived f f' \<and> find_share (ShareKey gid name) sd' = Some (se_store E)"
    if "run_job JE (ca_jobs a' (se_job E)) f0 sd (job', sd', st, f')" "dj_done job'" for JE f0 sd job' sd' st f'
    using ends [OF that(1) [unfolded j] that(2)] by (simp add: arrived_def job_key_def meta_job_def)
  then show ?thesis using l by blast
qed

text \<open>C2. A file crosses the trackers: while the link is up and the trackers agree, a member uploads a file through tracker 0. Once the
  operation has been delivered the trackers agree again, and every other member of the group who is connected to tracker 1 can
  start a download there; if it succeeds, that member has the file, byte for byte unless two different pieces have the same
  SHA-1, and shares it.\<close>

theorem file_crosses_trackers:
  assumes "agreed c" and "state_ok (tr_state (cl_t0 c))" and "may_publish gid (ss_user ssu) name (tr_state (cl_t0 c))"
    and "str_ok gid" and "str_ok name" and "length f < 2 ^ 44" and "session_fits ssu"
    and "dispatch now (msg_code MSG_UPLOAD_FILE) (upload_msg gid name f) ssu (cl_t0 c) = (ss', t, r, out)"
    and "\<forall>m \<in> set out. deliverable (snd (snd m))"
    and "ss_user ssd \<noteq> ss_user ssu" and "roster_member (rosters_of (tr_state (cl_t1 c))) gid (ss_user ssd)"
    and "length gid + length name + 8 \<le> unat MAX_PAYLOAD"
    and "length (meta_bytes (published name f (ss_user ssu) (ss_peer_ip ssu) (ss_seed_port ssu))) \<le> unat MAX_PAYLOAD"
  shows "\<exists>c'. cluster_step\<^sup>*\<^sup>* c c' \<and> agreed c' \<and>
    (\<forall>E ad w e dest line. on_tracker ad w e ssd (cl_t1 c') \<and> map_find (dm_jobs (ca_downloads ad)) (gid @ str ''/'' @ name) = None \<and>
       tokenize line = [str ''download_file'', gid, name, dest] \<longrightarrow>
       (\<exists>ad' w'. client_line tracker_link E line ad w = Some (out_line (str ''download started''), ad', w') \<and>
          (\<forall>JE f0 sd job' sd' st f'. run_job JE (ca_jobs ad' (se_job E)) f0 sd (job', sd', st, f') \<and> dj_done job' \<longrightarrow>
             arrived f f' \<and> find_share (ShareKey gid name) sd' = Some (se_store E))))"
proof -
  let ?u = "ss_user ssu" and ?v = "ss_user ssd"
  let ?fm = "published name f ?u (ss_peer_ip ssu) (ss_seed_port ssu)"
  have n: "length (hashes_of f) * 40 < 2 ^ 32" using length_hashes_of [OF assms(6)] by simp
  have "str_ok (file_hash_of f)" by (simp add: str_ok_def file_hash_of_def)
  note rd = rd_upload_bytes [OF hashes_of_40 n assms(4,5) this, of "of_nat (length f)", folded upload_msg_def]
  have exact: "exact_request (msg_code MSG_UPLOAD_FILE) (upload_msg gid name f)"
    using rd by (simp add: exact_request_def consumed_def of_bytes_at)
  obtain c' where c': "cluster_step\<^sup>*\<^sup>* c c'" "agreed c'" "tr_state (cl_t0 c') = tr_state t"
    using agreed_request0 [OF assms(1,8,2,7) exact _ assms(9)] by auto
  have "rosters_of (tr_state (cl_t0 c)) = rosters_of (tr_state (cl_t1 c))"
    using assms(1) rosters_forget unfolding agreed_def by metis
  then have member: "roster_member (rosters_of (tr_state (cl_t0 c))) gid ?v" using assms(11) by simp
  have got0: "get_file gid ?v name no_meta (tr_state t) = (ST_OK, ?fm)" if "?v \<noteq> []"
    using upload_dispatched [OF assms(3-6), of now] assms(8) member that by auto
  have "get_file gid ?v name no_meta (tr_state (cl_t1 c')) = get_file gid ?v name no_meta (tr_state (cl_t0 c'))"
    using c'(2) get_file_forget unfolding agreed_def by metis
  then have got: "get_file gid ?v name no_meta (tr_state (cl_t1 c')) = (ST_OK, ?fm)" if "?v \<noteq> []"
    using got0 [OF that] c'(3) by simp
  have u: "str_ok ?u" "str_ok (ss_peer_ip ssu)" using assms(7) by (simp_all add: session_fits_def)
  have "\<exists>ad' w'. client_line tracker_link E line ad w = Some (out_line (str ''download started''), ad', w') \<and>
      (\<forall>JE f0 sd job' sd' st f'. run_job JE (ca_jobs ad' (se_job E)) f0 sd (job', sd', st, f') \<and> dj_done job' \<longrightarrow>
         arrived f f' \<and> find_share (ShareKey gid name) sd' = Some (se_store E))"
    if on: "on_tracker ad w e ssd (cl_t1 c')" and free: "map_find (dm_jobs (ca_downloads ad)) (gid @ str ''/'' @ name) = None"
      and line: "tokenize line = [str ''download_file'', gid, name, dest]" for E ad w e dest line
  proof -
    have "?v \<noteq> []" using on by (simp add: on_tracker_def)
    from published_download [OF on got [OF this] assms(6,4,5) u assms(10,12,13) free line] show ?thesis .
  qed
  then show ?thesis using c'(1,2) by blast
qed

text \<open>The sample group on two trackers that are linked.\<close>

definition sample_pair :: cluster where
  "sample_pair = pair_of (set_fd 3 sample_tracker) (set_fd 4 sample_tracker) True True 4 [] []"

lemma sample_pair_ok: "agreed sample_pair" "cl_t0 sample_pair = set_fd 3 sample_tracker" "cl_t1 sample_pair = set_fd 4 sample_tracker"
  by (simp_all add: sample_pair_def pair_of_def agreed_def set_fd_def)

lemma sample_tracker_ok: "state_ok (tr_state (set_fd n sample_tracker))"
  by (simp add: set_fd_def sample_tracker_def membership.ok_step state_ok_new)

theorem file_crosses_trackers_witness:
  "\<exists>c'. cluster_step\<^sup>*\<^sup>* sample_pair c' \<and> agreed c' \<and>
    (\<exists>ad' w'. client_line tracker_link sample_shell sample_download (sample_app [5] [8] 81)
      (sample_net\<lparr>tw_trackers := [(sample_endpoint, cl_t1 c')], tw_session := Some (sample_endpoint, sample_session [5] [8] 81)\<rparr>) =
        Some (out_line (str ''download started''), ad', w'))"
proof -
  let ?ss = "sample_session [1] [9] 80"
  have ss: "ss_user ?ss = [1]" "ss_peer_ip ?ss = [9]" "ss_seed_port ?ss = 80" "ss_user (sample_session [5] [8] 81) = [5]"
    by (simp_all add: sample_session_def)
  obtain t out where d: "dispatch 0 (msg_code MSG_UPLOAD_FILE) (upload_msg [2] [3] [7, 8]) ?ss (cl_t0 sample_pair) = (?ss, t, (ST_OK, []), out)"
    using upload_dispatched [of "[2]" ?ss "[3]" "cl_t0 sample_pair" "[7, 8]" 0] sample_publish(1)
    by (auto simp: sample_pair_ok(2) set_fd_def str_ok_def)
  have "length (with_origin (upload_msg [2] [3] [7, 8]) ?ss) \<le> 1000"
    using sample_upload_len upload_bytes_enc [OF hashes_of_40 [of "[7, 8]"]]
    by (simp add: with_origin_def upload_msg_def sample_hashes enc_list_def sample_session_def)
  then have fits: "\<forall>m \<in> set out. deliverable (snd (snd m))"
    using d by (auto simp: dispatch_def do_upload_def commit_def record_and_replicate_def Let_def reply_def send_op_def
        deliverable_def op_bytes_enc enc_op_def split: option.splits if_splits)
  let ?sd = "sample_session [5] [8] 81"
  have may: "may_publish [2] (ss_user ?ss) [3] (tr_state (cl_t0 sample_pair))"
    "roster_member (rosters_of (tr_state (cl_t1 sample_pair))) [2] (ss_user ?sd)"
    using sample_publish by (simp_all add: sample_pair_ok set_fd_def ss)
  obtain c' where c': "cluster_step\<^sup>*\<^sup>* sample_pair c'" "agreed c'"
    and down: "\<And>E ad w e dest line. on_tracker ad w e ?sd (cl_t1 c') \<Longrightarrow> map_find (dm_jobs (ca_downloads ad)) ([2] @ str ''/'' @ [3]) = None \<Longrightarrow>
      tokenize line = [str ''download_file'', [2], [3], dest] \<Longrightarrow>
      \<exists>ad' w'. client_line tracker_link E line ad w = Some (out_line (str ''download started''), ad', w')"
    using file_crosses_trackers [where c = sample_pair and gid = "[2]" and name = "[3]" and f = "[7, 8]" and ssd = ?sd,
        OF sample_pair_ok(1) _ may(1) _ _ _ _ d fits _ may(2)] sample_tracker_ok sample_meta_len
    by (fastforce simp: sample_pair_ok ss session_fits_def str_ok_def)
  let ?w = "sample_net\<lparr>tw_trackers := [(sample_endpoint, cl_t1 c')], tw_session := Some (sample_endpoint, ?sd)\<rparr>"
  have "on_tracker (sample_app [5] [8] 81) ?w sample_endpoint ?sd (cl_t1 c')"
    by (simp add: on_tracker_def sample_app_def new_app_def sample_client_def sample_net_def sample_session_def)
  moreover have "map_find (dm_jobs (ca_downloads (sample_app [5] [8] 81))) ([2] @ str ''/'' @ [3]) = None"
    by (simp add: sample_app_def new_app_def)
  ultimately show ?thesis using down [OF _ _ sample_lines(2)] c' by blast
qed

section \<open>Where the uploader is dialled\<close>

text \<open>The peer that a downloader dials is the host the uploader connected from: the tracker prints the address of the accepted
  connection, the session keeps it through every request, the metadata carries it, and \<open>tcp_connect\<close> reads it back; the port is
  the one the uploader gave at login. So the dialler reaches the uploader exactly if the kernel can connect to that address.\<close>

lemma uploader_dialled:
  assumes "session_msgs now i ms (new_session (inet_ntop addr)) t = (rs, out, ss, t')"
    and "p \<in> set (dj_peers (meta_job E gid name dest user (published name f (ss_user ss) (ss_peer_ip ss) (ss_seed_port ss))))"
    and "tcp_connect K (pa_ip p) (pa_port p) tab = (fd, tab')"
  shows "if nk_socket K \<and> nk_connect K addr (ss_seed_port ss)
    then 0 \<le> fd \<and> fd_at tab' fd = Some (connected_to K addr (ss_seed_port ss)) else fd = -1 \<and> fd_at tab' = fd_at tab"
proof -
  have "ss_peer_ip ss = inet_ntop addr" using session_peer_ip [OF assms(1)] by (simp add: new_session_def)
  then have p: "pa_ip p = inet_ntop addr" "pa_port p = ss_seed_port ss"
    using assms(2) by (auto simp: meta_job_def published_def addr_of_def split: if_splits)
  have c: "connects K (pa_ip p) (pa_port p) = (nk_socket K \<and> nk_connect K addr (ss_seed_port ss))"
    by (simp add: p connects_def inet_pton_ntop)
  show ?thesis
    using tcp_connect_works [OF _ assms(3)] tcp_connect_fails [OF _ assms(3)] unfolding c by (auto simp: p inet_pton_ntop)
qed

end
