(* ===== verification/Progress.thy ===== *)
theory Progress
  imports File_Sharing
begin

text \<open>
  \<open>DownloadManager::announce\<close> of \<open>client/download_manager.cpp\<close> from the client to the tracker: a download that has pieces tells the
  tracker which, and the tracker lists the client among the seeders of the file with exactly these pieces.
\<close>

text \<open>The message of \<open>announce\<close>; the result of the request is not looked at.\<close>

definition announce :: "'w link \<Rightarrow> download_job \<Rightarrow> piece_store \<Rightarrow> client_app \<Rightarrow> 'w \<Rightarrow> client_app \<times> 'w" where
  "announce L job st a w =
    (case ask L MSG_HAVE_PIECES (have_bytes (dj_group job) (dj_file job) (bitfield st)) a w of (_, a, w) \<Rightarrow> (a, w))"

lemma have_bytes_enc: "have_bytes g f bits = enc_str g @ enc_str f @ enc_u32 (of_nat (length bits)) @ bits"
  by (simp add: have_bytes_def)

lemma rd_have_bytes:
  "str_ok g \<Longrightarrow> str_ok f \<Longrightarrow> str_ok bits \<Longrightarrow>
   rd_have (of_bytes (have_bytes g f bits)) = Some ((g, f, bits), buf_at (have_bytes g f bits) [])"
  by (simp add: have_bytes_enc rd_have_def wire)

text \<open>A member of the group of a published file.\<close>

definition may_announce :: "bytes \<Rightarrow> bytes \<Rightarrow> bytes \<Rightarrow> file_meta \<Rightarrow> tracker_state \<Rightarrow> bool" where
  "may_announce gid uid name fm st \<longleftrightarrow> gid \<noteq> [] \<and> uid \<noteq> [] \<and> name \<noteq> [] \<and>
     (case map_find (ts_groups st) gid of
        None \<Rightarrow> False
      | Some g \<Rightarrow> set_count (g_members g) uid \<and> map_find (g_files g) name = Some fm)"

definition with_seeder :: "peer_ref \<Rightarrow> file_meta \<Rightarrow> file_meta" where
  "with_seeder p fm = fm\<lparr>fm_seeders := map_put (pr_user_id p) p (fm_seeders fm)\<rparr>"

lemma update_announced:
  assumes "may_announce gid uid name fm st"
  shows "\<exists>st'. update_bitfield gid uid ip port name bits st = (ST_OK, st') \<and>
    (\<forall>v out. v \<noteq> [] \<longrightarrow> roster_member (rosters_of st) gid v \<longrightarrow> get_file gid v name out st' =
       (ST_OK, with_seeder \<lparr>pr_user_id = uid, pr_ip = ip, pr_port = port, pr_bitfield = bits\<rparr> fm))"
  using assms
  by (auto simp: may_announce_def update_bitfield_def get_file_def set_group_def set_file_def with_seeder_def roster_member_of
      split: option.splits)

lemma have_dispatched:
  assumes "may_announce gid (ss_user ss) name fm (tr_state t)" and "str_ok gid" and "str_ok name" and "str_ok bits"
  shows "\<exists>t' out. dispatch now (msg_code MSG_HAVE_PIECES) (have_bytes gid name bits) ss t = (ss, t', (ST_OK, []), out) \<and>
    (\<forall>v meta. v \<noteq> [] \<longrightarrow> roster_member (rosters_of (tr_state t)) gid v \<longrightarrow> get_file gid v name meta (tr_state t') =
       (ST_OK, with_seeder \<lparr>pr_user_id = ss_user ss, pr_ip = ss_peer_ip ss, pr_port = ss_seed_port ss, pr_bitfield = bits\<rparr> fm))"
proof -
  obtain st' where st': "update_bitfield gid (ss_user ss) (ss_peer_ip ss) (ss_seed_port ss) name bits (tr_state t) = (ST_OK, st')"
    "\<forall>v out. v \<noteq> [] \<longrightarrow> roster_member (rosters_of (tr_state t)) gid v \<longrightarrow> get_file gid v name out st' =
       (ST_OK, with_seeder \<lparr>pr_user_id = ss_user ss, pr_ip = ss_peer_ip ss, pr_port = ss_seed_port ss, pr_bitfield = bits\<rparr> fm)"
    using update_announced [OF assms(1)] by blast
  obtain m out where rep: "record_and_replicate now (msg_code MSG_HAVE_PIECES) (with_origin (have_bytes gid name bits) ss) (tr_sync t) = (m, out)"
    by fastforce
  have "ss_user ss \<noteq> []" using assms(1) by (simp add: may_announce_def)
  then have "dispatch now (msg_code MSG_HAVE_PIECES) (have_bytes gid name bits) ss t = (ss, \<lparr>tr_state = st', tr_sync = m\<rparr>, (ST_OK, []), out)"
    using rd_have_bytes [OF assms(2-4)] st'(1) rep by (simp add: dispatch_def do_have_def commit_def)
  then show ?thesis using st'(2) by (intro exI [of _ "\<lparr>tr_state = st', tr_sync = m\<rparr>"] exI [of _ out]) simp
qed

text \<open>C39. What a download announces is what the tracker lists: after \<open>announce\<close> by a logged-in member, every member who asks for the file
  finds the announcer among its seeders, under the address of its connection and its listening port, with exactly the pieces the
  store has marked; the rest of the entry is as it was.\<close>

theorem announcement_recorded:
  assumes "on_tracker a w e ss t" and "may_announce (dj_group job) (ss_user ss) (dj_file job) fm (tr_state t)"
    and "str_ok (dj_group job)" and "str_ok (dj_file job)" and "str_ok (bitfield st)"
    and "length (have_bytes (dj_group job) (dj_file job) (bitfield st)) \<le> unat MAX_PAYLOAD"
  shows "\<exists>t'. announce tracker_link job st a w =
      (a, w\<lparr>tw_session := Some (e, ss), tw_trackers := put_tracker e t' (tw_trackers w)\<rparr>) \<and>
    (\<forall>v meta. v \<noteq> [] \<longrightarrow> roster_member (rosters_of (tr_state t)) (dj_group job) v \<longrightarrow>
       get_file (dj_group job) v (dj_file job) meta (tr_state t') =
         (ST_OK, with_seeder \<lparr>pr_user_id = ss_user ss, pr_ip = ss_peer_ip ss, pr_port = ss_seed_port ss, pr_bitfield = bitfield st\<rparr> fm))"
proof -
  obtain t' out where d: "dispatch (tw_now w) (msg_code MSG_HAVE_PIECES) (have_bytes (dj_group job) (dj_file job) (bitfield st)) ss t =
      (ss, t', (ST_OK, []), out)"
    and g: "\<forall>v meta. v \<noteq> [] \<longrightarrow> roster_member (rosters_of (tr_state t)) (dj_group job) v \<longrightarrow>
       get_file (dj_group job) v (dj_file job) meta (tr_state t') =
         (ST_OK, with_seeder \<lparr>pr_user_id = ss_user ss, pr_ip = ss_peer_ip ss, pr_port = ss_seed_port ss, pr_bitfield = bitfield st\<rparr> fm)"
    using have_dispatched [OF assms(2-5)] by blast
  have "announce tracker_link job st a w = (a, w\<lparr>tw_session := Some (e, ss), tw_trackers := put_tracker e t' (tw_trackers w)\<rparr>)"
    using ask_tracker [OF assms(1,6) _ d] by (simp add: announce_def)
  then show ?thesis using g by blast
qed

definition sample_entry :: file_meta where
  "sample_entry = published [3] [7, 8] [1] [9] 80"

definition sample_published :: tracker where
  "sample_published = sample_tracker\<lparr>tr_state := snd (add_file [2] [1] [9] 80
     (upload_meta [3] 2 (file_hash_of [7, 8]) (hashes_of [7, 8])) (tr_state sample_tracker))\<rparr>"

lemma sample_may_announce:
  "may_announce [2] [5] [3] sample_entry (tr_state sample_published)"
  "roster_member (rosters_of (tr_state sample_published)) [2] [1]"
  unfolding sample_published_def sample_tracker_def tracker.simps sample_members
  by (simp_all add: may_announce_def sample_entry_def published_def add_file_def upload_meta_def set_group_def set_file_def
      roster_member_of)

theorem announcement_recorded_witness:
  "\<exists>a' w' t'. announce tracker_link sample_job \<lparr>ps_fd = True, ps_size = 2, ps_count = 1, ps_have = [128]\<rparr> (sample_app [5] [8] 81)
      (sample_net\<lparr>tw_trackers := [(sample_endpoint, sample_published)],
        tw_session := Some (sample_endpoint, sample_session [5] [8] 81)\<rparr>) = (a', w') \<and>
    map_find (tw_trackers w') sample_endpoint = Some t' \<and>
    get_file [2] [1] [3] no_meta (tr_state t') =
      (ST_OK, with_seeder \<lparr>pr_user_id = [5], pr_ip = [8], pr_port = 81, pr_bitfield = [128]\<rparr> sample_entry)"
proof -
  let ?w = "sample_net\<lparr>tw_trackers := [(sample_endpoint, sample_published)],
    tw_session := Some (sample_endpoint, sample_session [5] [8] 81)\<rparr>"
  let ?st = "\<lparr>ps_fd = True, ps_size = 2, ps_count = 1, ps_have = [128]\<rparr>"
  have on: "on_tracker (sample_app [5] [8] 81) ?w sample_endpoint (sample_session [5] [8] 81) sample_published"
    by (simp add: on_tracker_def sample_app_def new_app_def sample_client_def sample_net_def sample_session_def)
  have ss: "ss_user (sample_session [5] [8] 81) = [5]" "ss_peer_ip (sample_session [5] [8] 81) = [8]"
    "ss_seed_port (sample_session [5] [8] 81) = 81" by (simp_all add: sample_session_def)
  have j: "dj_group sample_job = [2]" "dj_file sample_job = [3]" by (simp_all add: sample_job_def)
  have b: "bitfield ?st = [128]" by (simp add: bitfield_def)
  have ok: "str_ok [2]" "str_ok [3]" "str_ok [128]" by (simp_all add: str_ok_def)
  have len: "length (have_bytes [2] [3] [128]) \<le> unat MAX_PAYLOAD" by (simp add: have_bytes_enc)
  let ?new = "\<lambda>t'. ?w\<lparr>tw_session := Some (sample_endpoint, sample_session [5] [8] 81),
    tw_trackers := put_tracker sample_endpoint t' (tw_trackers ?w)\<rparr>"
  obtain t' where a: "announce tracker_link sample_job ?st (sample_app [5] [8] 81) ?w = (sample_app [5] [8] 81, ?new t')"
    and g: "\<forall>v meta. v \<noteq> [] \<longrightarrow> roster_member (rosters_of (tr_state sample_published)) [2] v \<longrightarrow> get_file [2] v [3] meta (tr_state t') =
      (ST_OK, with_seeder \<lparr>pr_user_id = [5], pr_ip = [8], pr_port = 81, pr_bitfield = [128]\<rparr> sample_entry)"
    using announcement_recorded [OF on, of sample_job sample_entry ?st, unfolded j ss b, OF sample_may_announce(1) ok len]
    by (elim exE conjE) (rule that)
  have f: "map_find (tw_trackers (?new t')) sample_endpoint = Some t'" by simp
  have g1: "get_file [2] [1] [3] no_meta (tr_state t') =
      (ST_OK, with_seeder \<lparr>pr_user_id = [5], pr_ip = [8], pr_port = 81, pr_bitfield = [128]\<rparr> sample_entry)"
    using sample_may_announce(2) by (intro g [rule_format]) simp_all
  show ?thesis by (rule exI, rule exI, rule exI, rule conjI, rule a, rule conjI, rule f, rule g1)
qed

end
