(* ===== verification/Fault_Tolerance.thy ===== *)
theory Fault_Tolerance
  imports Download_Manager
begin

text \<open>
  What a download is promised when peers fail (\<open>client/download_manager.cpp\<close>). Some threads of a round are reliable: their peer
  answers every request with the published piece, and the disk takes it (what the exchange of such a piece looks like is in
  \<open>Peer_Exchange\<close>). The others fail as they like. A piece that a failing
  thread gives back is fetched by a reliable one, unless all of those have seen the queue empty and ended before.
\<close>

section \<open>Reliable threads\<close>

text \<open>Threads outside \<open>B\<close> give nothing back, and thread \<open>t0\<close> gets its connection.\<close>

definition reliable_step :: "bytes list \<Rightarrow> nat set \<Rightarrow> nat \<Rightarrow> round \<Rightarrow> round \<Rightarrow> bool" where
  "reliable_step hashes B t0 s s' \<longleftrightarrow> (\<exists>t < length (rd_workers s). worker_step hashes t s s' \<and>
     (t \<in> B \<or> length (rd_queue s') \<le> length (rd_queue s)) \<and> (t = t0 \<longrightarrow> rd_workers s ! t = W_Connect \<longrightarrow> rd_workers s' ! t \<noteq> W_Done))"

lemma reliable_round: "reliable_step hashes B t0 s s' \<Longrightarrow> round_step hashes s s'"
  by (auto simp: reliable_step_def round_step_def)

lemma reliable_rounds: "(reliable_step hashes B t0)\<^sup>*\<^sup>* s s' \<Longrightarrow> (round_step hashes)\<^sup>*\<^sup>* s s'"
  by (rule rtranclp_mono [THEN predicate2D]) (auto intro: reliable_round)

text \<open>The missing pieces that no reliable thread has in its hands.\<close>

definition loose :: "nat set \<Rightarrow> round \<Rightarrow> nat set" where
  "loose B s = {i \<in> missing (rd_store s). \<forall>t. t \<notin> B \<longrightarrow> held s t \<noteq> Some i}"

lemma finite_loose [simp]: "finite (loose B s)"
  by (simp add: loose_def)

text \<open>A thread lets go of a piece when it gives it back or has marked it.\<close>

lemma worker_keeps:
  assumes "worker_step hashes t s s'" and t: "t < length (rd_workers s)" and inv: "round_inv hashes s"
    and "length (rd_queue s') \<le> length (rd_queue s)" and i: "held s t = Some i"
  shows "held s' t = Some i \<or> i \<notin> missing (rd_store s')"
  using assms(1)
proof cases
  case (marks n j d put)
  have "j = i" "j < piece_total s" using held_missing [OF inv t] marks(2) i t by (auto simp: held_def)
  moreover have "ps_ok (rd_store s)" using round_invD(1) [OF inv] by (simp add: store_inv_def)
  ultimately show ?thesis using marks(1) missing_mark by auto
qed (use assms(4) i t in \<open>auto simp: held_def give_back_def\<close>)

lemma held_elsewhere: "worker_step hashes t s s' \<Longrightarrow> u \<noteq> t \<Longrightarrow> held s' u = held s u"
  by (cases rule: worker_step.cases) (auto simp: held_def give_back_def)

lemma loose_shrinks:
  assumes w: "worker_step hashes t s s'" and t: "t < length (rd_workers s)" and inv: "round_inv hashes s"
    and r: "t \<in> B \<or> length (rd_queue s') \<le> length (rd_queue s)"
  shows "loose B s' \<subseteq> loose B s"
proof
  fix i assume i: "i \<in> loose B s'"
  then have m: "i \<in> missing (rd_store s')" by (simp add: loose_def)
  then have "i \<in> missing (rd_store s)" using worker_step_grows [OF w t inv] by (auto simp: grows_def)
  moreover have "held s u \<noteq> Some i" if u: "u \<notin> B" for u
  proof
    assume h: "held s u = Some i"
    have n: "held s' u \<noteq> Some i" using i u by (simp add: loose_def)
    then have "u = t" using h held_elsewhere [OF w, of u] by metis
    then show False using worker_keeps [OF w t inv _ , of i] r u h n m by auto
  qed
  ultimately show "i \<in> loose B s" by (simp add: loose_def)
qed

text \<open>A reliable thread that has its connection ends when the queue is empty; what is loose then is with the others.\<close>

lemma retires:
  assumes w: "worker_step hashes t s s'" and t: "t < length (rd_workers s)"
    and q: "length (rd_queue s') \<le> length (rd_queue s)" and c: "rd_workers s ! t = W_Connect \<longrightarrow> rd_workers s' ! t \<noteq> W_Done"
    and d: "rd_workers s' ! t = W_Done" "rd_workers s ! t \<noteq> W_Done"
  shows "rd_queue s' = []"
  using w by cases (use assms in \<open>auto simp: give_back_def split: if_splits\<close>)

lemma loose_held:
  assumes inv: "round_inv hashes s" and q: "rd_queue s = []" and B: "finite B"
  shows "card (loose B s) \<le> card B"
proof -
  have "\<exists>t \<in> B. held s t = Some i" if "i \<in> loose B s" for i
    using accountedD(2) [OF round_invD(2) [OF inv], of i] q that by (auto simp: loose_def)
  then have "loose B s \<subseteq> (\<lambda>t. the (held s t)) ` B" by force
  then show ?thesis using B by (meson card_image_le card_mono finite_imageI le_trans)
qed

definition spared :: "nat set \<Rightarrow> nat \<Rightarrow> round \<Rightarrow> bool" where
  "spared B t0 s \<longleftrightarrow> (rd_workers s ! t0 = W_Done \<longrightarrow> card (loose B s) \<le> card B)"

lemma step_spared:
  assumes r: "reliable_step hashes B t0 s s'" and inv: "round_inv hashes s" and sp: "spared B t0 s"
    and t0: "t0 \<notin> B" "t0 < length (rd_workers s)" and B: "finite B"
  shows "spared B t0 s'"
proof -
  obtain t where t: "t < length (rd_workers s)" and w: "worker_step hashes t s s'"
    and q: "t \<in> B \<or> length (rd_queue s') \<le> length (rd_queue s)"
    and c: "t = t0 \<longrightarrow> rd_workers s ! t = W_Connect \<longrightarrow> rd_workers s' ! t \<noteq> W_Done"
    using r by (auto simp: reliable_step_def)
  have inv': "round_inv hashes s'" by (rule worker_step_inv [OF w t inv])
  show ?thesis
  proof (cases "rd_workers s ! t0 = W_Done")
    case True
    then have "card (loose B s) \<le> card B" using sp by (simp add: spared_def)
    then show ?thesis using card_mono [OF finite_loose loose_shrinks [OF w t inv q]] by (simp add: spared_def)
  next
    case False
    show ?thesis
    proof (cases "t = t0")
      case True
      then have "rd_workers s' ! t0 = W_Done \<Longrightarrow> rd_queue s' = []"
        using retires [OF w t] q c t0(1) False by auto
      then show ?thesis using loose_held [OF inv' _ B] by (simp add: spared_def)
    next
      case ne: False
      have "rd_workers s' ! t0 = rd_workers s ! t0"
        using w ne by cases (auto simp: give_back_def)
      then show ?thesis using False by (simp add: spared_def)
    qed
  qed
qed

lemma run_spared:
  assumes "(reliable_step hashes B t0)\<^sup>*\<^sup>* s s'" and "round_inv hashes s" and "spared B t0 s"
    and "t0 \<notin> B" and "t0 < length (rd_workers s)" and "finite B"
  shows "spared B t0 s' \<and> round_inv hashes s' \<and> length (rd_workers s') = length (rd_workers s)"
  using assms(1)
proof (induction rule: rtranclp_induct)
  case (step y z)
  have "length (rd_workers z) = length (rd_workers y)" using step.hyps(2) by (auto simp: reliable_step_def)
  then show ?case
    using step step_spared [OF step.hyps(2) _ _ assms(4) _ assms(6)] round_step_inv [OF reliable_round [OF step.hyps(2)]] assms(5) by simp
qed (use assms(2,3) in simp)

lemma over_missing:
  assumes "round_over s" and "spared B t0 s" and "t0 < length (rd_workers s)"
  shows "card (missing (rd_store s)) \<le> card B"
proof -
  have d: "rd_workers s ! t = W_Done" if "t < length (rd_workers s)" for t
    using assms(1) nth_mem [OF that] by (simp add: round_over_def)
  then have "held s t = None" for t by (simp add: held_def)
  then have "loose B s = missing (rd_store s)" by (auto simp: loose_def)
  then show ?thesis using assms(2) d [OF assms(3)] by (simp add: spared_def)
qed

section \<open>Reliable peers can go on\<close>

text \<open>What the pieces of a published file are.\<close>

definition available :: "bytes list \<Rightarrow> piece_store \<Rightarrow> bool" where
  "available hashes st \<longleftrightarrow> ps_fd st \<and>
     (\<forall>i < unat (ps_count st). \<exists>d. length d = unat (piece_len st (of_nat i)) \<and> hash_buffer d = hashes ! i)"

lemma available_grows: "available hashes st \<Longrightarrow> grows (st, f) (st', f') \<Longrightarrow> available hashes st'"
  unfolding available_def grows_def using piece_fun_cong(1) [of st' st] by simp

lemma reliable_progress:
  assumes inv: "round_inv hashes s" and a: "available hashes (rd_store s)" and no: "\<not> round_over s"
  shows "\<exists>s'. reliable_step hashes B t0 s s'"
proof -
  obtain t where t: "t < length (rd_workers s)" "rd_workers s ! t \<noteq> W_Done"
    using no by (auto simp: round_over_def in_set_conv_nth)
  have "\<exists>s'. worker_step hashes t s s' \<and> length (rd_queue s') \<le> length (rd_queue s) \<and>
      (rd_workers s ! t = W_Connect \<longrightarrow> rd_workers s' ! t \<noteq> W_Done)"
  proof (cases "rd_workers s ! t")
    case W_Connect
    then show ?thesis using connects [OF W_Connect, of hashes] t(1) by (intro exI [of _ "set_worker t (W_Idle 0) s"]) simp
  next
    case (W_Idle n)
    show ?thesis
    proof (cases "rd_queue s = []")
      case True
      then show ?thesis using queue_empty [OF W_Idle True, of hashes] W_Idle by (intro exI [of _ "set_worker t W_Done s"]) simp
    next
      case False
      then show ?thesis using takes [OF W_Idle False, of hashes] W_Idle by (intro exI) (auto simp: diff_le_self)
    qed
  next
    case (W_Fetch n i)
    have i: "i < piece_total s" using held_missing [OF inv t(1)] W_Fetch by simp
    then obtain d where d: "length d = unat (piece_len (rd_store s) (of_nat i))" "hash_buffer d = hashes ! i"
      using a by (auto simp: available_def)
    have "of_nat i < ps_count (rd_store s)"
      using i unat_u32 [of "ps_count (rd_store s)"] by (simp add: word_less_nat_alt unat_of_nat)
    then have "write_ready hashes (rd_store s) i d" using d a by (simp add: write_ready_def available_def)
    from fetched [OF W_Fetch this] show ?thesis using W_Fetch by (intro exI) auto
  next
    case (W_Write n i d put)
    have "put \<le> length d" using round_invD(4) [OF inv t(1)] W_Write by simp
    then consider "put = length d" | "0 < length d - put" "put + (length d - put) \<le> length d" by linarith
    then show ?thesis
    proof cases
      case 1
      from marks [OF W_Write 1, of hashes] show ?thesis using W_Write by (intro exI) auto
    next
      case 2
      from writes [OF W_Write 2, of hashes] show ?thesis using W_Write by (intro exI) auto
    qed
  next
    case W_Tell
    obtain due a where "maybe_announce 0 (rd_ann s) = (due, a)" by fastforce
    from tells [OF W_Tell this, of hashes] show ?thesis using W_Tell by (intro exI) auto
  next
    case W_Announce
    from announces [OF W_Announce, of hashes] show ?thesis using W_Announce by (intro exI) auto
  qed (use t(2) in simp)
  then show ?thesis using t(1) by (auto simp: reliable_step_def)
qed

lemma reliable_finishes:
  "round_inv hashes s \<Longrightarrow> available hashes (rd_store s) \<Longrightarrow> \<exists>s'. (reliable_step hashes B t0)\<^sup>*\<^sup>* s s' \<and> round_over s'"
proof (induction "round_left s" arbitrary: s rule: less_induct)
  case less
  show ?case
  proof (cases "round_over s")
    case False
    obtain y where y: "reliable_step hashes B t0 s y" using reliable_progress [OF less.prems False] by blast
    note st = reliable_round [OF y]
    have "grows (rd_store s, rd_disk s) (rd_store y, rd_disk y)"
      using steps_inv [OF r_into_rtranclp [of "round_step hashes", OF st] less.prems(1)] by blast
    then obtain z where "(reliable_step hashes B t0)\<^sup>*\<^sup>* y z" "round_over z"
      using less.hyps [OF round_step_left [OF st less.prems(1)] round_step_inv [OF st less.prems(1)]] available_grows [OF less.prems(2)] by blast
    then show ?thesis using y by (meson converse_rtranclp_into_rtranclp)
  qed blast
qed

lemma job_available:
  assumes m: "meta_ok job" and o': "job_open E job f = (True, st, f0)" and j: "job_scan_joined E job st f0"
    and g: "dj_piece_hashes job = map hash_buffer (file_pieces (unat PIECE_SIZE) g)" "unat (dj_size job) = length g"
  shows "available (dj_piece_hashes job) (job_scan E job st f0)"
proof -
  let ?st = "job_scan E job st f0"
  have f: "ps_fd ?st" "ps_size ?st = dj_size job" "ps_count ?st = of_nat (length (dj_piece_hashes job))"
    using o' by (auto simp: job_scan_def job_open_def open_for_download_def split: if_splits)
  have "unat (ps_count ?st) = length (file_pieces (unat PIECE_SIZE) g)"
    using m g(1) f(3) by (simp add: meta_ok_def unat_of_nat del: length_file_pieces)
  then have l: "layout_ok ?st g" using f(2) g(2) by (simp add: layout_ok_def)
  have "length (file_pieces (unat PIECE_SIZE) g ! i) = unat (piece_len ?st (of_nat i))" if "i < unat (ps_count ?st)" for i
  proof -
    have "take (unat (piece_len ?st (of_nat i))) (drop (i * unat PIECE_SIZE) g) = file_pieces (unat PIECE_SIZE) g ! i"
      "i * unat PIECE_SIZE + unat (piece_len ?st (of_nat i)) \<le> length g"
      using layout_slice [OF l that] by (simp_all add: piece_slice_def piece_in_def)
    then show ?thesis using length_take [of "unat (piece_len ?st (of_nat i))" "drop (i * unat PIECE_SIZE) g"] by simp
  qed
  moreover have "hash_buffer (file_pieces (unat PIECE_SIZE) g ! i) = dj_piece_hashes job ! i" if "i < unat (ps_count ?st)" for i
    using that l g(1) by (simp add: layout_ok_def del: length_file_pieces)
  ultimately show ?thesis using f(1) unfolding available_def by blast
qed

section \<open>The property\<close>

definition first_round :: "job_env \<Rightarrow> download_job \<Rightarrow> piece_store \<Rightarrow> disk \<Rightarrow> round" where
  "first_round E job st f0 = round_begin (dj_peers job) (round_zero (job_scan E job st f0) f0)"

lemma first_round_done:
  assumes o': "job_open E job f = (True, st, f0)" and j: "job_scan_joined E job st f0" and ne: "dj_peers job \<noteq> []"
    and no: "\<not> complete (job_scan E job st f0)"
    and r: "(round_step (dj_piece_hashes job))\<^sup>*\<^sup>* (first_round E job st f0) s" and ov: "round_over s" and c: "complete (rd_store s)"
  shows "run_job E job f sd (job\<lparr>dj_done := True\<rparr>, add_share (job_key job) (dj_store job) sd, rd_store s, rd_disk s)"
proof -
  have c': "complete (rd_store (round_flush 0 s))" using c by (simp add: round_flush_def)
  have "job_rounds E job 0 (dj_peers job) (round_zero (job_scan E job st f0) f0) (round_flush 0 s)"
    by (rule rounds_work [OF _ _ refl _ _ ov, where now = 0])
      (use no ne r rounds_stop [OF disjI2 [OF c']] in \<open>simp_all add: k_max_rounds_def round_zero_def first_round_def\<close>)
  from finishes [OF o' j this c'] show ?thesis by (simp add: round_flush_def)
qed

text \<open>C10. A download survives failing peers: when the threads outside \<open>B\<close> are reliable and one of them, \<open>t0\<close>, gets its connection, then
  whatever the threads of \<open>B\<close> do, the first round can end, and at its end no more pieces are missing than \<open>B\<close> has threads. If
  \<open>B\<close> is empty, the download succeeds in its first round.\<close>

theorem download_tolerates_faults:
  assumes "job_open E job f = (True, st, f0)" and "job_scan_joined E job st f0" and "meta_ok job" and "\<not> complete (job_scan E job st f0)"
    and "dj_piece_hashes job = map hash_buffer (file_pieces (unat PIECE_SIZE) g)" and "unat (dj_size job) = length g"
    and "finite B" and "t0 \<notin> B" and "t0 < length (dj_peers job) * conns_per_peer (dj_peers job)"
    and "(reliable_step (dj_piece_hashes job) B t0)\<^sup>*\<^sup>* (first_round E job st f0) s"
  shows "(\<exists>s'. (reliable_step (dj_piece_hashes job) B t0)\<^sup>*\<^sup>* s s' \<and> round_over s') \<and>
    (round_over s \<longrightarrow> card (missing (rd_store s)) \<le> card B \<and>
      (B = {} \<longrightarrow> run_job E job f sd (job\<lparr>dj_done := True\<rparr>, add_share (job_key job) (dj_store job) sd, rd_store s, rd_disk s)))"
proof -
  let ?s0 = "first_round E job st f0"
  have i0: "round_inv (dj_piece_hashes job) ?s0"
    unfolding first_round_def by (rule round_begin_inv [OF job_opened(1) [OF assms(3,1,2)]])
  have w: "t0 < length (rd_workers ?s0)" "rd_workers ?s0 ! t0 = W_Connect"
    using assms(9) by (simp_all add: first_round_def round_begin_def)
  then have sp0: "spared B t0 ?s0" by (simp add: spared_def)
  have st0: "rd_store ?s0 = job_scan E job st f0" by (simp add: first_round_def round_begin_def round_zero_def)
  note s = run_spared [OF assms(10) i0 sp0 assms(8) w(1) assms(7)] and r = reliable_rounds [OF assms(10)]
  have "available (dj_piece_hashes job) (rd_store ?s0)" using job_available [OF assms(3,1,2,5,6)] st0 by simp
  then have a: "available (dj_piece_hashes job) (rd_store s)" using available_grows steps_inv [OF r i0] by blast
  have m: "card (missing (rd_store s)) \<le> card B" if "round_over s" using over_missing [OF that, of B t0] s w(1) by simp
  have ne: "dj_peers job \<noteq> []" using assms(9) by auto
  have "complete (rd_store s)" if "round_over s" "B = {}"
    using m [OF that(1)] that(2) by (auto simp: complete_iff missing_def)
  then show ?thesis
    using reliable_finishes [of _ s B t0] s a m first_round_done [OF assms(1,2) ne assms(4) r] by blast
qed

text \<open>The sample job: eight connections to one peer, all reliable.\<close>

lemma sample_first_round:
  "first_round sample_env sample_job \<lparr>ps_fd = True, ps_size = 2, ps_count = 1, ps_have = [0]\<rparr> [0, 0] = sample_round"
  unfolding first_round_def sample_scanned(2) by (simp add: sample_round_def sample_job_def)

lemma sample_pieces: "dj_piece_hashes sample_job = map hash_buffer (file_pieces (unat PIECE_SIZE) [7, 8])"
  by (simp add: sample_job_def file_pieces_def)

theorem download_tolerates_faults_witness:
  "\<exists>st f. run_job sample_env sample_job [] new_seeder
    (sample_job\<lparr>dj_done := True\<rparr>, add_share (job_key sample_job) (dj_store sample_job) new_seeder, st, f)"
proof -
  let ?st = "\<lparr>ps_fd = True, ps_size = 2, ps_count = 1, ps_have = [0]\<rparr>"
  have no: "\<not> complete (job_scan sample_env sample_job ?st [0, 0])" unfolding sample_scanned(2) by (auto simp: complete_iff bit_of_iff)
  have t: "0 < length (dj_peers sample_job) * conns_per_peer (dj_peers sample_job)"
    by (simp add: sample_job_def conns_per_peer_def)
  have z: "unat (dj_size sample_job) = length [7, 8 :: u8]" by (simp add: sample_job_def)
  note job = download_tolerates_faults [OF sample_opened sample_scanned(1) sample_meta no sample_pieces z finite.emptyI _ t]
  obtain s where s: "(reliable_step (dj_piece_hashes sample_job) {} 0)\<^sup>*\<^sup>* (first_round sample_env sample_job ?st [0, 0]) s" "round_over s"
    using job [OF _ rtranclp.rtrancl_refl] by blast
  show ?thesis using job [OF _ s(1)] s(2) by blast
qed

section \<open>The bound is met\<close>

text \<open>A reliable thread that finds the queue empty ends, although a piece that another thread holds may still come back.\<close>

abbreviation at_round :: "worker list \<Rightarrow> nat list \<Rightarrow> round" where
  "at_round ws q \<equiv> sample_round\<lparr>rd_queue := q, rd_workers := ws\<rparr>"

lemma late_steps:
  assumes "t < length ws"
  shows "t \<noteq> 0 \<Longrightarrow> ws ! t = W_Connect \<Longrightarrow> reliable_step hashes B 0 (at_round ws q) (at_round (ws[t := W_Done]) q)"
    and "ws ! t = W_Connect \<Longrightarrow> reliable_step hashes B 0 (at_round ws q) (at_round (ws[t := W_Idle 0]) q)"
    and "ws ! t = W_Idle n \<Longrightarrow> reliable_step hashes B 0 (at_round ws []) (at_round (ws[t := W_Done]) [])"
    and "ws ! t = W_Idle n \<Longrightarrow> reliable_step hashes B 0 (at_round ws [i]) (at_round (ws[t := W_Fetch n i]) [])"
    and "t \<in> B \<Longrightarrow> ws ! t = W_Fetch n i \<Longrightarrow>
      reliable_step hashes B 0 (at_round ws []) (at_round (ws[t := if 3 \<le> n + 1 then W_Done else W_Idle (n + 1)]) [i])"
  using assms connect_fails [of "at_round ws q" t hashes] connects [of "at_round ws q" t hashes]
    queue_empty [of "at_round ws []" t n hashes] takes [of "at_round ws [i]" t n hashes] fetch_fails [of "at_round ws []" t n i hashes]
  unfolding reliable_step_def
  by (auto intro!: exI [of _ t] simp: set_worker_def give_back_def max_consecutive_failures_def)

lemma late_give_back:
  "\<exists>s. (reliable_step [hash_buffer [7, 8]] {1} 0)\<^sup>*\<^sup>* sample_round s \<and> round_over s \<and> missing (rd_store s) = {0} \<and> rd_queue s = [0]"
proof -
  let ?R = "(reliable_step [hash_buffer [7, 8]] {1} 0)\<^sup>*\<^sup>*"
  let ?c = "\<lambda>k. replicate k W_Done @ replicate (6 - k) W_Connect"
  let ?s = "\<lambda>x y k q. at_round (x # y # ?c k) q"
  have st: "sample_round = at_round (W_Connect # W_Connect # ?c 0) [0]"
    using sample_begin by (cases sample_round) (simp add: numeral_eq_Suc)
  note step = rtranclp.rtrancl_into_rtrancl [of "reliable_step [hash_buffer [7, 8]] {1} 0"]
  have r1: "?R sample_round (?s W_Connect (W_Idle 0) 0 [0])"
    using step [OF rtranclp.rtrancl_refl late_steps(2) [where t = 1 and ws = "W_Connect # W_Connect # ?c 0" and q = "[0]"]] st by simp
  have r2: "?R sample_round (?s W_Connect (W_Fetch 0 0) 0 [])"
    using step [OF r1 late_steps(4) [of 1 "W_Connect # W_Idle 0 # ?c 0" 0]] by simp
  have r3: "?R sample_round (?s (W_Idle 0) (W_Fetch 0 0) 0 [])"
    using step [OF r2 late_steps(2) [of 0 "W_Connect # W_Fetch 0 0 # ?c 0"]] by simp
  have r4: "?R sample_round (?s W_Done (W_Fetch 0 0) 0 [])"
    using step [OF r3 late_steps(3) [of 0 "W_Idle 0 # W_Fetch 0 0 # ?c 0" 0]] by simp
  have r5: "?R sample_round (?s W_Done (W_Idle 1) 0 [0])"
    using step [OF r4 late_steps(5) [of 1 "W_Done # W_Fetch 0 0 # ?c 0" "{1}" 0 0]] by simp
  have r6: "?R sample_round (?s W_Done (W_Fetch 1 0) 0 [])"
    using step [OF r5 late_steps(4) [of 1 "W_Done # W_Idle 1 # ?c 0" 1]] by simp
  have r7: "?R sample_round (?s W_Done (W_Idle 2) 0 [0])"
    using step [OF r6 late_steps(5) [of 1 "W_Done # W_Fetch 1 0 # ?c 0" "{1}" 1 0]] by (simp add: numeral_2_eq_2)
  have r8: "?R sample_round (?s W_Done (W_Fetch 2 0) 0 [])"
    using step [OF r7 late_steps(4) [of 1 "W_Done # W_Idle 2 # ?c 0" 2]] by simp
  have r9: "?R sample_round (?s W_Done W_Done 0 [0])"
    using step [OF r8 late_steps(5) [of 1 "W_Done # W_Fetch 2 0 # ?c 0" "{1}" 2 0]] by simp
  have all: "k \<le> 6 \<Longrightarrow> ?R sample_round (?s W_Done W_Done k [0])" for k
  proof (induction k)
    case (Suc k)
    have "6 - k = Suc (6 - Suc k)" using Suc.prems by simp
    then have "?c k = replicate k W_Done @ W_Connect # replicate (6 - Suc k) W_Connect" by (simp only: replicate_Suc)
    moreover have "?c (Suc k) = replicate k W_Done @ W_Done # replicate (6 - Suc k) W_Connect"
      by (simp only: replicate_Suc replicate_app_Cons_same append_Cons)
    ultimately have "(W_Done # W_Done # ?c k)[k + 2 := W_Done] = W_Done # W_Done # ?c (Suc k)"
      by (simp add: list_update_append)
    then show ?case
      using step [OF Suc.IH late_steps(1) [of "k + 2" "W_Done # W_Done # ?c k"]] Suc.prems by (simp add: nth_append)
  qed (use r9 in simp)
  have "round_over (?s W_Done W_Done 6 [0])" by (simp add: round_over_def)
  moreover have "missing (rd_store (?s W_Done W_Done 6 [0])) = {0}" by (auto simp: missing_def sample_begin bit_of_iff)
  ultimately show ?thesis using all [of 6] by (intro exI [of _ "?s W_Done W_Done 6 [0]"]) simp
qed

end
