(* ===== verification/Job_Steps.thy ===== *)
theory Job_Steps
  imports Download_Manager
begin

text \<open>
  \<open>DownloadManager::run_job\<close> (\<open>client/download_manager.cpp\<close>) as a machine: opening the file, the scan, the rounds with every step
  of their threads, and the decision. \<open>run_job\<close> of theory \<open>Download_Manager\<close> relates the beginning of a job to its end; here are the steps in
  between, so that it can be said that no job goes on for ever.
\<close>

section \<open>The machine\<close>

text \<open>\<open>J_Round r ps\<close> is at the head of the loop, \<open>J_Working r ps\<close> waits for the threads of round \<open>r\<close>.\<close>

datatype job_pc = J_Open | J_Scan | J_Round nat "peer_addr list" | J_Working nat "peer_addr list" | J_Failed | J_Done

definition scheduled :: "nat list \<Rightarrow> job_env \<Rightarrow> job_env" where
  "scheduled sched E = E\<lparr>je_sched := sched\<rparr>"

text \<open>The scanning threads run in any order until all have ended.\<close>

inductive job_step :: "job_env \<Rightarrow> download_job \<Rightarrow> job_pc \<times> round \<Rightarrow> job_pc \<times> round \<Rightarrow> bool" for E job where
  cannot_open: "job_open E job (rd_disk s) = (False, st, f') \<Longrightarrow> job_step E job (J_Open, s) (J_Failed, round_zero st f')"
| opens: "job_open E job (rd_disk s) = (True, st, f0) \<Longrightarrow> job_step E job (J_Open, s) (J_Scan, round_zero st f0)"
| scans: "job_scan_joined (scheduled sched E) job (rd_store s) (rd_disk s) \<Longrightarrow>
    job_step E job (J_Scan, s) (J_Round 0 (dj_peers job), round_zero (job_scan (scheduled sched E) job (rd_store s) (rd_disk s)) (rd_disk s))"
| decides: "k_max_rounds \<le> r \<or> complete (rd_store s) \<Longrightarrow>
    job_step E job (J_Round r ps, s) (if complete (rd_store s) then J_Done else J_Failed, s)"
| skips: "r < k_max_rounds \<Longrightarrow> \<not> complete (rd_store s) \<Longrightarrow> 0 < r \<Longrightarrow> fresh_peers E job r = [] \<Longrightarrow>
    job_step E job (J_Round r ps, s) (J_Round (r + 1) [], s)"
| begins: "r < k_max_rounds \<Longrightarrow> \<not> complete (rd_store s) \<Longrightarrow> ps' = (if r = 0 then ps else fresh_peers E job r) \<Longrightarrow> ps' \<noteq> [] \<Longrightarrow>
    job_step E job (J_Round r ps, s) (J_Working r ps', round_begin ps' s)"
| works: "round_step (dj_piece_hashes job) s s' \<Longrightarrow> job_step E job (J_Working r ps, s) (J_Working r ps, s')"
| joins: "round_over s \<Longrightarrow> job_step E job (J_Working r ps, s) (J_Round (r + 1) ps, round_flush now s)"

section \<open>Its runs are those of \<open>run_job\<close>\<close>

lemma scheduled_simps [simp]: "fresh_peers (scheduled sched E) job r = fresh_peers E job r" "job_open (scheduled sched E) job f = job_open E job f"
  by (simp_all add: scheduled_def fresh_peers_def job_open_def)

lemma rounds_scheduled: "job_rounds E job r ps s s' \<Longrightarrow> job_rounds (scheduled sched E) job r ps s s'"
proof (induction rule: job_rounds.induct)
  case (rounds_stop r s peers)
  then show ?case by (rule job_rounds.rounds_stop)
next
  case (rounds_skip r s s' peers)
  then show ?case by (intro job_rounds.rounds_skip [OF rounds_skip.hyps(1-3)]) simp_all
next
  case (rounds_work r s peers' peers s1 now s')
  then show ?case by (intro job_rounds.rounds_work [OF rounds_work.hyps(1,2) _ rounds_work.hyps(4-6)]) simp_all
qed

text \<open>What a run from here to the end amounts to.\<close>

fun rest_of_job :: "job_env \<Rightarrow> download_job \<Rightarrow> job_pc \<times> round \<Rightarrow> round \<Rightarrow> bool" where
  "rest_of_job E job (J_Round r ps, s) s' = job_rounds E job r ps s s'"
| "rest_of_job E job (J_Working r ps, s) s' \<longleftrightarrow> (\<exists>s1 now. (round_step (dj_piece_hashes job))\<^sup>*\<^sup>* s s1 \<and> round_over s1 \<and>
     job_rounds E job (r + 1) ps (round_flush now s1) s')"
| "rest_of_job E job (J_Scan, s) s' \<longleftrightarrow> (\<exists>sched. job_scan_joined (scheduled sched E) job (rd_store s) (rd_disk s) \<and>
     job_rounds E job 0 (dj_peers job) (round_zero (job_scan (scheduled sched E) job (rd_store s) (rd_disk s)) (rd_disk s)) s')"
| "rest_of_job E job (J_Done, s) s' \<longleftrightarrow> s' = s"
| "rest_of_job E job (J_Failed, s) s' \<longleftrightarrow> s' = s"
| "rest_of_job E job (J_Open, s) s' = False"

lemma rest_step: "job_step E job c c' \<Longrightarrow> fst c \<noteq> J_Open \<Longrightarrow> rest_of_job E job c' s' \<Longrightarrow> rest_of_job E job c s'"
proof (induction rule: job_step.induct)
  case (decides r s ps)
  then show ?case by (auto intro: rounds_stop split: if_splits)
next
  case (skips r s ps)
  then show ?case by (auto intro: rounds_skip)
next
  case (begins r s ps' ps)
  then obtain s1 now where "(round_step (dj_piece_hashes job))\<^sup>*\<^sup>* (round_begin ps' s) s1" "round_over s1"
    "job_rounds E job (r + 1) ps' (round_flush now s1) s'" by auto
  from rounds_work [OF begins.hyps this] show ?case by simp
next
  case (works s1 s2 r ps)
  then show ?case by (auto intro: converse_rtranclp_into_rtranclp)
qed auto

definition decided :: "job_pc \<Rightarrow> bool" where
  "decided pc \<longleftrightarrow> pc = J_Done \<or> pc = J_Failed"

lemma rest_run: "(job_step E job)\<^sup>*\<^sup>* c (pc, s') \<Longrightarrow> decided pc \<Longrightarrow> fst c \<noteq> J_Open \<Longrightarrow> rest_of_job E job c s'"
proof (induction rule: converse_rtranclp_induct)
  case base
  then show ?case by (auto simp: decided_def)
next
  case (step c d)
  have "fst d \<noteq> J_Open" using step.hyps(1) by (cases rule: job_step.cases) auto
  then show ?case using rest_step [OF step.hyps(1) step.prems(2)] step by blast
qed

text \<open>The decision is by what is complete.\<close>

lemma no_more: "job_step E job (pc, s) c \<Longrightarrow> \<not> decided pc"
  by (cases rule: job_step.cases) (auto simp: decided_def)

lemma decided_stays: "(job_step E job)\<^sup>*\<^sup>* c d \<Longrightarrow> decided (fst c) \<Longrightarrow> d = c"
proof (induction rule: converse_rtranclp_induct)
  case (step c e)
  then show ?case using no_more [of E job "fst c" "snd c" e] by simp
qed simp

lemma decided_complete: "(job_step E job)\<^sup>*\<^sup>* c (pc, s) \<Longrightarrow> decided pc \<Longrightarrow> fst c \<noteq> J_Open \<Longrightarrow> \<not> decided (fst c) \<Longrightarrow>
    pc = (if complete (rd_store s) then J_Done else J_Failed)"
proof (induction rule: converse_rtranclp_induct)
  case (step c d)
  have o: "fst d \<noteq> J_Open" using step.hyps(1) by (cases rule: job_step.cases) auto
  show ?case
  proof (cases "decided (fst d)")
    case True
    then have "d = (pc, s)" using decided_stays [OF step.hyps(2)] by simp
    then have "job_step E job c (pc, s)" using step.hyps(1) by simp
    then show ?thesis using step.prems by cases (auto simp: decided_def)
  qed (use step o in blast)
qed simp

definition job_result :: "download_job \<Rightarrow> seeder \<Rightarrow> job_pc \<Rightarrow> download_job \<times> seeder" where
  "job_result job sd pc =
    (if pc = J_Done then (job\<lparr>dj_done := True\<rparr>, add_share (job_key job) (dj_store job) sd) else (job\<lparr>dj_failed := True\<rparr>, sd))"

lemma job_run_big:
  assumes "(job_step E job)\<^sup>*\<^sup>* (J_Open, round_zero ps_new f) (pc, s)" and d: "decided pc"
  shows "\<exists>sched. run_job (scheduled sched E) job f sd (fst (job_result job sd pc), snd (job_result job sd pc), rd_store s, rd_disk s)"
proof -
  have "(J_Open, round_zero ps_new f) \<noteq> (pc, s)" using d by (auto simp: decided_def)
  then obtain c where c: "job_step E job (J_Open, round_zero ps_new f) c" "(job_step E job)\<^sup>*\<^sup>* c (pc, s)"
    using assms(1) by (metis converse_rtranclpE)
  from c(1) show ?thesis
  proof cases
    case (cannot_open st f')
    then have "(pc, s) = (J_Failed, round_zero st f')"
      using decided_stays [OF c(2)] by (simp add: decided_def)
    then show ?thesis
      using cannot_open no_file [of "scheduled undefined E" job f st f' sd] by (auto simp: job_result_def round_zero_def)
  next
    case (opens st f0)
    then have c': "c = (J_Scan, round_zero st f0)" by simp
    have "rest_of_job E job c s" using rest_run [OF c(2) d] c' by simp
    then obtain sched where j: "job_scan_joined (scheduled sched E) job st f0"
      and r: "job_rounds E job 0 (dj_peers job) (round_zero (job_scan (scheduled sched E) job st f0) f0) s"
      using c' by (auto simp: round_zero_def)
    have pc: "pc = (if complete (rd_store s) then J_Done else J_Failed)"
      using decided_complete [OF c(2) d] c' by (simp add: decided_def)
    have o': "job_open (scheduled sched E) job f = (True, st, f0)" using opens by (simp add: round_zero_def)
    show ?thesis
      using gives_up [OF o' j rounds_scheduled [OF r], of sd] finishes [OF o' j rounds_scheduled [OF r], of sd]
      by (intro exI [of _ sched]) (simp add: pc job_result_def)
  qed
qed

section \<open>No job goes on for ever\<close>

definition job_inv :: "download_job \<Rightarrow> job_pc \<times> round \<Rightarrow> bool" where
  "job_inv job c = (case c of (pc, s) \<Rightarrow>
     (case pc of
        J_Scan \<Rightarrow> \<exists>E f. job_open E job f = (True, rd_store s, rd_disk s)
      | J_Round r ps \<Rightarrow> rest_inv (dj_piece_hashes job) s \<and> (r = 0 \<longrightarrow> ps = dj_peers job)
      | J_Working r ps \<Rightarrow> round_inv (dj_piece_hashes job) s
      | _ \<Rightarrow> True))"

lemma job_step_inv:
  assumes m: "meta_ok job" and s: "job_step E job c c'" and i: "job_inv job c"
  shows "job_inv job c'"
  using s i
proof cases
  case (opens s st f0)
  then show ?thesis by (auto simp: job_inv_def round_zero_def)
next
  case (scans sched s)
  then obtain E' f where "job_open E' job f = (True, rd_store s, rd_disk s)" using i by (auto simp: job_inv_def)
  then have "job_open (scheduled sched (E\<lparr>je_opened := je_opened E', je_resized := je_resized E'\<rparr>)) job f = (True, rd_store s, rd_disk s)"
    by (simp add: job_open_def scheduled_def)
  moreover have "job_scan (scheduled sched (E\<lparr>je_opened := je_opened E', je_resized := je_resized E'\<rparr>)) = job_scan (scheduled sched E)"
    "job_scan_joined (scheduled sched (E\<lparr>je_opened := je_opened E', je_resized := je_resized E'\<rparr>)) = job_scan_joined (scheduled sched E)"
    by (simp_all add: job_scan_def [abs_def] job_scan_joined_def [abs_def] scheduled_def fun_eq_iff)
  ultimately have "rest_inv (dj_piece_hashes job) (round_zero (job_scan (scheduled sched E) job (rd_store s) (rd_disk s)) (rd_disk s))"
    using job_opened(1) [OF m, of "scheduled sched (E\<lparr>je_opened := je_opened E', je_resized := je_resized E'\<rparr>)" f] scans(3) by simp
  then show ?thesis using scans by (simp add: job_inv_def)
next
  case (begins r s ps' ps)
  then show ?thesis using i round_begin_inv by (auto simp: job_inv_def)
next
  case (works s s' r ps)
  then show ?thesis using i round_step_inv by (simp add: job_inv_def)
next
  case (joins s r ps now)
  then show ?thesis using i round_flush_inv by (simp add: job_inv_def)
qed (auto simp: job_inv_def)

text \<open>The threads of round \<open>r\<close>, and the steps that they can make at most.\<close>

definition round_threads :: "job_env \<Rightarrow> download_job \<Rightarrow> nat \<Rightarrow> nat" where
  "round_threads E job r = (let ps = (if r = 0 then dj_peers job else fresh_peers E job r) in length ps * conns_per_peer ps)"

definition round_cost :: "job_env \<Rightarrow> download_job \<Rightarrow> nat \<Rightarrow> nat" where
  "round_cost E job r = length (dj_piece_hashes job) * (3 * write_bound + 4) + round_threads E job r * (3 * write_bound + 2)"

definition rounds_cost :: "job_env \<Rightarrow> download_job \<Rightarrow> nat \<Rightarrow> nat" where
  "rounds_cost E job r = 1 + (\<Sum>k\<leftarrow>[r..<k_max_rounds]. 2 + round_cost E job k)"

lemma rounds_cost_step: "r < k_max_rounds \<Longrightarrow> rounds_cost E job r = 2 + round_cost E job r + rounds_cost E job (r + 1)"
  by (simp add: rounds_cost_def upt_conv_Cons)

fun job_left :: "job_env \<Rightarrow> download_job \<Rightarrow> job_pc \<times> round \<Rightarrow> nat" where
  "job_left E job (J_Open, s) = 2 + rounds_cost E job 0"
| "job_left E job (J_Scan, s) = 1 + rounds_cost E job 0"
| "job_left E job (J_Round r ps, s) = rounds_cost E job r"
| "job_left E job (J_Working r ps, s) = 1 + round_left s + rounds_cost E job (r + 1)"
| "job_left E job (pc, s) = 0"

lemma round_begin_cost:
  assumes "rest_inv (dj_piece_hashes job) s" and "ps = (if r = 0 then dj_peers job else fresh_peers E job r)"
  shows "round_left (round_begin ps s) \<le> round_cost E job r"
proof -
  have "length (dj_piece_hashes job) = unat (ps_count (rd_store s))"
    using assms(1) by (simp add: rest_inv_def store_inv_def verified_def)
  moreover have "card (missing (rd_store s)) \<le> card {..<unat (ps_count (rd_store s))}"
    by (rule card_mono) (auto simp: missing_def)
  ultimately have "card (missing (rd_store s)) \<le> length (dj_piece_hashes job)" by simp
  then have "card (missing (rd_store s)) * (3 * write_bound + 4) \<le> length (dj_piece_hashes job) * (3 * write_bound + 4)"
    by (rule mult_le_mono1)
  moreover have "sum_list (map worker_left (replicate n W_Connect)) = n * (3 * write_bound + 2)" for n by (induction n) simp_all
  ultimately show ?thesis
    using assms(2) by (simp add: round_left_def round_begin_def round_cost_def round_threads_def Let_def)
qed

lemma job_step_left:
  assumes s: "job_step E job c c'" and i: "job_inv job c"
  shows "job_left E job c' < job_left E job c"
  using s
proof cases
  case (decides r s ps)
  then show ?thesis by (simp add: rounds_cost_def)
next
  case (skips r s ps)
  then show ?thesis using rounds_cost_step [of r E job] by simp
next
  case (begins r s ps' ps)
  then have "round_left (round_begin ps' s) \<le> round_cost E job r"
    using i by (intro round_begin_cost) (auto simp: job_inv_def)
  then show ?thesis using begins rounds_cost_step [of r E job] by simp
next
  case (works s s' r ps)
  then show ?thesis using i round_step_left by (simp add: job_inv_def)
qed simp_all

lemma job_steps_bound: "(job_step E job ^^ n) c c' \<Longrightarrow> meta_ok job \<Longrightarrow> job_inv job c \<Longrightarrow>
    n + job_left E job c' \<le> job_left E job c \<and> job_inv job c'"
proof (induction n arbitrary: c')
  case (Suc n)
  then obtain d where d: "(job_step E job ^^ n) c d" "job_step E job d c'" by auto
  then show ?case using Suc.IH [OF d(1) Suc.prems(2,3)] job_step_left [OF d(2)] job_step_inv [OF Suc.prems(2) d(2)] by auto
qed simp

text \<open>A job that is not decided can go on.\<close>

lemma scan_can_end:
  assumes "2 * length (dj_piece_hashes job) + 8 < 2 ^ 32" and "ps_count st = of_nat (length (dj_piece_hashes job))"
  shows "\<exists>sched. job_scan_joined (scheduled sched E) job st f"
proof -
  let ?n = "scan_count st (dj_piece_hashes job)"
  let ?p = "pool_size (je_cores E) ?n"
  have "unat (of_nat (length (dj_piece_hashes job)) :: u32) = length (dj_piece_hashes job)" using assms(1) by (simp add: unat_of_nat)
  then have "?n \<le> length (dj_piece_hashes job)" using assms(2) by (auto simp: scan_count_def min_def word_le_nat_alt)
  moreover have "?p \<le> ?n + 1" by (simp add: pool_size_def)
  ultimately have b: "?n + ?p < 2 ^ 32" using assms(1) by simp
  let ?sched = "concat (replicate (2 * ?n + 1) [0..<?p])"
  have "count_list (concat (replicate k xs)) t = k * count_list xs t" for k t and xs :: "nat list" by (induction k) simp_all
  moreover have "count_list [0..<m] t = (if t < m then 1 else 0)" for m t by (induction m) auto
  ultimately have "\<forall>t < ?p. 2 * ?n + 1 \<le> count_list ?sched t" by simp
  from pool_finishes [OF b this] have "job_scan_joined (scheduled ?sched E) job st f"
    unfolding job_scan_joined_def scan_pool_def Let_def scheduled_def by simp
  then show ?thesis by blast
qed

lemma job_can_move:
  assumes m: "meta_ok job" and ne: "dj_peers job \<noteq> []" and i: "job_inv job (pc, s)" and d: "\<not> decided pc"
  shows "\<exists>c. job_step E job (pc, s) c"
proof (cases pc)
  case J_Open
  obtain ok st f' where "job_open E job (rd_disk s) = (ok, st, f')" by (cases "job_open E job (rd_disk s)") auto
  then show ?thesis using J_Open cannot_open [of E job s] opens [of E job s] by (cases ok) auto
next
  case J_Scan
  then obtain E' f where "job_open E' job f = (True, rd_store s, rd_disk s)" using i by (auto simp: job_inv_def)
  then have "ps_count (rd_store s) = of_nat (length (dj_piece_hashes job))"
    by (auto simp: job_open_def open_for_download_def split: if_splits dest!: sym [of _ "rd_store s"])
  moreover have "2 * length (dj_piece_hashes job) + 8 < 2 ^ 32" using m unfolding meta_ok_def by (rule conjunct2)
  ultimately obtain sched where "job_scan_joined (scheduled sched E) job (rd_store s) (rd_disk s)"
    using scan_can_end by blast
  from scans [OF this] show ?thesis using J_Scan by blast
next
  case (J_Round r ps)
  have z: "r = 0 \<Longrightarrow> ps \<noteq> []" using i ne J_Round by (simp add: job_inv_def)
  show ?thesis
  proof (cases "k_max_rounds \<le> r \<or> complete (rd_store s)")
    case True
    from decides [OF this] show ?thesis using J_Round by blast
  next
    case False
    then have f: "r < k_max_rounds" "\<not> complete (rd_store s)" by auto
    show ?thesis
    proof (cases "(if r = 0 then ps else fresh_peers E job r) = []")
      case True
      then have "0 < r" "fresh_peers E job r = []" using z by (auto split: if_splits)
      from skips [OF f this] show ?thesis using J_Round by blast
    next
      case ne': False
      from begins [OF f refl ne'] show ?thesis using J_Round by blast
    qed
  qed
next
  case (J_Working r ps)
  have inv: "round_inv (dj_piece_hashes job) s" using i J_Working by (simp add: job_inv_def)
  show ?thesis
  proof (cases "round_over s")
    case True
    from joins [OF this] show ?thesis using J_Working by blast
  next
    case False
    from round_progress [OF inv this] obtain s' where "round_step (dj_piece_hashes job) s s'" by blast
    from works [OF this] show ?thesis using J_Working by blast
  qed
qed (use d in \<open>simp_all add: decided_def\<close>)

section \<open>The property\<close>

text \<open>C33. Every new download whose metadata fit together (as many hashes as a file of the size has pieces, and not too many for 32 bits)
  and that has a peer to begin with comes to a decision, whatever the network, the disk and the schedule of the threads do: no
  run of the job is longer than a bound that is known beforehand, from the number of pieces and the threads of its five rounds;
  a job that is not decided can go on; and what it has decided is an outcome of \<open>run_job\<close>, with exactly one of \<open>done\<close> and
  \<open>failed\<close> set.\<close>

theorem job_decides:
  assumes "meta_ok job" and "dj_peers job \<noteq> []" and "\<not> dj_done job" and "\<not> dj_failed job"
    and "(job_step E job ^^ n) (J_Open, round_zero ps_new f) (pc, s)"
  shows "n \<le> 3 + (\<Sum>r\<leftarrow>[0..<k_max_rounds]. 2 + length (dj_piece_hashes job) * (3 * write_bound + 4) +
      round_threads E job r * (3 * write_bound + 2)) \<and>
    (pc = J_Done \<or> pc = J_Failed \<or> (\<exists>c. job_step E job (pc, s) c)) \<and>
    (pc = J_Done \<or> pc = J_Failed \<longrightarrow> (\<exists>sched job' sd'. run_job (scheduled sched E) job f sd (job', sd', rd_store s, rd_disk s) \<and>
      dj_done job' = (pc = J_Done) \<and> dj_failed job' = (pc = J_Failed)))"
proof (intro conjI impI)
  have b: "n + job_left E job (pc, s) \<le> 2 + rounds_cost E job 0" "job_inv job (pc, s)"
    using job_steps_bound [OF assms(5,1)] by (simp_all add: job_inv_def)
  show "n \<le> 3 + (\<Sum>r\<leftarrow>[0..<k_max_rounds]. 2 + length (dj_piece_hashes job) * (3 * write_bound + 4) +
      round_threads E job r * (3 * write_bound + 2))"
    using b(1) by (simp add: rounds_cost_def round_cost_def add.assoc)
  show "pc = J_Done \<or> pc = J_Failed \<or> (\<exists>c. job_step E job (pc, s) c)"
    using job_can_move [OF assms(1,2) b(2)] by (auto simp: decided_def)
next
  assume d: "pc = J_Done \<or> pc = J_Failed"
  obtain sched where "run_job (scheduled sched E) job f sd (fst (job_result job sd pc), snd (job_result job sd pc), rd_store s, rd_disk s)"
    using job_run_big [OF relpowp_imp_rtranclp [OF assms(5)], of sd] d by (auto simp: decided_def)
  moreover have "dj_done (fst (job_result job sd pc)) = (pc = J_Done)" "dj_failed (fst (job_result job sd pc)) = (pc = J_Failed)"
    using d assms(3,4) by (auto simp: job_result_def)
  ultimately show "\<exists>sched job' sd'. run_job (scheduled sched E) job f sd (job', sd', rd_store s, rd_disk s) \<and>
      dj_done job' = (pc = J_Done) \<and> dj_failed job' = (pc = J_Failed)" by blast
qed

text \<open>The sample job, whose peer cannot be reached: eight threads that end at once.\<close>

theorem job_decides_witness:
  "\<exists>n pc s. (job_step sample_env sample_job ^^ n) (J_Open, round_zero ps_new []) (pc, s) \<and> 0 < n \<and>
    (\<exists>c. job_step sample_env sample_job (pc, s) c)"
proof -
  let ?s = "round_zero \<lparr>ps_fd = True, ps_size = 2, ps_count = 1, ps_have = [0]\<rparr> [0, 0]"
  have "job_step sample_env sample_job (J_Open, round_zero ps_new []) (J_Scan, ?s)"
    using opens [of sample_env sample_job "round_zero ps_new []"] sample_opened by (simp add: round_zero_def)
  then have run: "(job_step sample_env sample_job ^^ 1) (J_Open, round_zero ps_new []) (J_Scan, ?s)" by (simp add: eq_OO)
  have "dj_peers sample_job \<noteq> []" "\<not> dj_done sample_job" "\<not> dj_failed sample_job" by (simp_all add: sample_job_def)
  from job_decides [OF sample_meta this run] have "\<exists>c. job_step sample_env sample_job (J_Scan, ?s) c" by simp
  then show ?thesis using run zero_less_one by blast
qed

end
