(* ===== verification/Client_Process.thy ===== *)
theory Client_Process
  imports Client_Shell
begin

text \<open>
  The client as a whole: commands at the console, the requests that the download threads make over the same tracker
  connection, and the ends of downloads, in any order. The invariant says that the login of the shell and the login on
  file for fail-over agree, and that at most one download runs for a group and a file.
\<close>

section \<open>The steps\<close>

text \<open>A new job has an address that nothing points to.\<close>

definition fresh_env :: "shell_env \<Rightarrow> client_app \<Rightarrow> bool" where
  "fresh_env E a \<longleftrightarrow> se_job E \<notin> snd ` set (dm_jobs (ca_downloads a)) \<and> se_job E \<notin> set (dm_threads (ca_downloads a))"

definition running :: "download_job \<Rightarrow> bool" where
  "running job \<longleftrightarrow> \<not> dj_done job \<and> \<not> dj_failed job"

inductive client_step :: "'w link \<Rightarrow> client_app \<times> 'w \<Rightarrow> client_app \<times> 'w \<Rightarrow> bool" for L where
  at_console: "client_line L E line a w = Some (out, a', w') \<Longrightarrow> fresh_env E a \<Longrightarrow> client_step L (a, w) (a', w')"
| from_job: "ty \<in> {MSG_HAVE_PIECES, MSG_GET_FILE_META} \<Longrightarrow> ask L ty payload a w = (r, a', w') \<Longrightarrow>
    client_step L (a, w) (a', w')"
| job_ends: "j \<in> set (dm_threads (ca_downloads a)) \<Longrightarrow> running (ca_jobs a j) \<Longrightarrow>
    run_job JE (ca_jobs a j) f (ca_seeder a) (job', sd', st, f') \<Longrightarrow>
    client_step L (a, w)
      (a\<lparr>ca_jobs := (ca_jobs a)(j := job'), ca_seeder := sd', ca_stores := (ca_stores a)(dj_store job' := (st, f'))\<rparr>, w)"

section \<open>The invariant\<close>

definition login_ok :: "client_app \<Rightarrow> bool" where
  "login_ok a \<longleftrightarrow> (tc_logged_in (ca_tracker a) \<longleftrightarrow> ca_user a \<noteq> []) \<and>
     (ca_user a \<noteq> [] \<longrightarrow> tc_last_uid (ca_tracker a) = ca_user a \<and> tc_last_port (ca_tracker a) = ca_port a)"

text \<open>A job has somebody to ask, and not its own user.\<close>

definition job_ok :: "download_job \<Rightarrow> bool" where
  "job_ok job \<longleftrightarrow> dj_peers job \<noteq> [] \<and> dj_user_id job \<noteq> [] \<and> (\<forall>p \<in> set (dj_peers job). pa_user_id p \<noteq> dj_user_id job)"

definition jobs_ok :: "job_heap \<Rightarrow> download_manager \<Rightarrow> bool" where
  "jobs_ok J dm \<longleftrightarrow>
     (\<forall>j \<in> set (dm_threads dm). job_ok (J j) \<and> (running (J j) \<longrightarrow> map_find (dm_jobs dm) (dm_key (J j)) = Some j))"

definition client_ok :: "client_app \<Rightarrow> bool" where
  "client_ok a \<longleftrightarrow> login_ok a \<and> jobs_ok (ca_jobs a) (ca_downloads a)"

text \<open>Two downloads that run for the same key are the same download.\<close>

lemma one_running:
  assumes "jobs_ok J dm" and "i \<in> set (dm_threads dm)" and "j \<in> set (dm_threads dm)" and "running (J i)" and "running (J j)"
    and "dm_key (J i) = dm_key (J j)"
  shows "i = j"
proof -
  have i: "map_find (dm_jobs dm) (dm_key (J i)) = Some i" using assms(1,2,4) by (simp add: jobs_ok_def)
  have j: "map_find (dm_jobs dm) (dm_key (J j)) = Some j" using assms(1,3,5) by (simp add: jobs_ok_def)
  show ?thesis using trans [OF i [symmetric, unfolded assms(6)] j] by simp
qed

text \<open>What leaves both halves alone.\<close>

lemma login_ok_cong:
  "same_login (ca_tracker a') (ca_tracker a) \<Longrightarrow> ca_user a' = ca_user a \<Longrightarrow> ca_port a' = ca_port a \<Longrightarrow> login_ok a' = login_ok a"
  by (simp add: login_ok_def same_login_def)

lemma ask_frame:
  "ask L ty payload a w = (r, a', w') \<Longrightarrow> \<exists>c. a' = a\<lparr>ca_tracker := c\<rparr> \<and> same_login c (ca_tracker a)"
  using loop_frame [of 2 L "msg_code ty" payload "ca_tracker a" w]
  by (auto simp: ask_def tc_request_def split: prod.splits)

lemma ask_ok: "ask L ty payload a w = (r, a', w') \<Longrightarrow> client_ok a \<Longrightarrow> client_ok a'"
proof -
  assume "ask L ty payload a w = (r, a', w')" "client_ok a"
  then show ?thesis
    using ask_frame [of L ty payload a w r a' w'] login_ok_cong [of a' a] by (auto simp: client_ok_def)
qed

section \<open>Every command keeps it\<close>

lemma plain_ok: "plain_cmd L ty args a w = (out, a', w') \<Longrightarrow> client_ok a \<Longrightarrow> client_ok a'"
  by (auto simp: plain_cmd_def split: prod.splits dest: ask_ok)

lemma list_ok: "list_cmd L ty args a w = (out, a', w') \<Longrightarrow> client_ok a \<Longrightarrow> client_ok a'"
  by (auto simp: list_cmd_def split: prod.splits dest: ask_ok)

lemma login_cmd_ok:
  assumes "login_cmd L uid pwd a w = (out, a', w')" and "client_ok a" and "uid \<noteq> []"
  shows "client_ok a'"
proof -
  obtain r a1 w1 where q: "ask L MSG_LOGIN (buf_data (put_u16 (ca_port a) (put_str pwd (put_str uid new_buf)))) a w = (r, a1, w1)"
    by (cases "ask L MSG_LOGIN (buf_data (put_u16 (ca_port a) (put_str pwd (put_str uid new_buf)))) a w") auto
  have ok: "client_ok a1" "ca_port a1 = ca_port a" using ask_ok [OF q assms(2)] ask_frame [OF q] by auto
  have "client_ok (a1\<lparr>ca_user := uid, ca_tracker := note_login uid pwd (ca_port a1) (ca_tracker a1)\<rparr>)"
    using ok assms(3) by (simp add: client_ok_def login_ok_def note_login_def)
  then show ?thesis using assms(1) q ok by (auto simp: login_cmd_def split: option.splits prod.splits if_splits)
qed

lemma logout_ok: "logout_cmd L a w = (out, a', w') \<Longrightarrow> client_ok a \<Longrightarrow> client_ok a'"
  by (auto simp: logout_cmd_def client_ok_def login_ok_def clear_login_def split: prod.splits dest!: ask_frame)

lemma stop_share_ok: "stop_share_cmd L gid name a w = (out, a', w') \<Longrightarrow> client_ok a \<Longrightarrow> client_ok a'"
  by (auto simp: stop_share_cmd_def client_ok_def login_ok_def same_login_def
      split: prod.splits option.splits if_splits dest!: ask_frame)

lemma upload_ok: "upload_cmd L E gid path a w = (out, a', w') \<Longrightarrow> client_ok a \<Longrightarrow> client_ok a'"
  by (auto simp: upload_cmd_def client_ok_def login_ok_def same_login_def
      split: prod.splits option.splits if_splits bool.splits dest!: ask_frame)

lemma start_job_ok:
  assumes ok: "client_ok a" and new: "fresh_env E a" and job: "job_ok job" "running job" and s: "start_job E job a = (out, a')"
  shows "client_ok a'"
proof -
  let ?J = "(ca_jobs a)(se_job E := job)" and ?dm = "ca_downloads a"
  have fresh: "j \<noteq> se_job E" if "j \<in> set (dm_threads ?dm)" for j using new that by (auto simp: fresh_env_def)
  have old: "old \<noteq> se_job E" if "map_find (dm_jobs ?dm) k = Some old" for k old
    using new map_find_in [OF that] by (force simp: fresh_env_def)
  have J: "job_ok (ca_jobs a j)" "running (ca_jobs a j) \<Longrightarrow> map_find (dm_jobs ?dm) (dm_key (ca_jobs a j)) = Some j"
    if "j \<in> set (dm_threads ?dm)" for j
    using ok that by (auto simp: client_ok_def jobs_ok_def)
  have same: "jobs_ok ?J ?dm"
    using J fresh by (auto simp: jobs_ok_def)
  have put: "jobs_ok ?J \<lparr>dm_jobs = map_put (dm_key job) (se_job E) (dm_jobs ?dm), dm_threads = dm_threads ?dm @ [se_job E]\<rparr>"
    if free: "\<forall>old. map_find (dm_jobs ?dm) (dm_key job) = Some old \<longrightarrow> \<not> running (ca_jobs a old)"
  proof -
    have "dm_key (ca_jobs a j) \<noteq> dm_key job" if "j \<in> set (dm_threads ?dm)" "running (ca_jobs a j)" for j
      using J(2) [OF that] that(2) free by auto
    then show ?thesis using J fresh job by (auto simp: jobs_ok_def)
  qed
  have "\<exists>dm. a' = a\<lparr>ca_jobs := ?J, ca_downloads := dm\<rparr> \<and> jobs_ok ?J dm"
    using s same put old
    by (fastforce simp: start_job_def dm_start_def Let_def running_def split: option.splits prod.splits bool.splits if_splits)
  then show ?thesis using ok by (auto simp: client_ok_def login_ok_def)
qed

lemma get_peers_others: "pa \<in> set (get_peers junk self n b) \<Longrightarrow> pa_user_id pa \<noteq> self"
  by (induction junk self n b rule: get_peers.induct) (auto simp: Let_def split: prod.splits if_splits)

lemma read_meta_others:
  "read_meta junk self resp = Some (sz, h, hs, peers) \<Longrightarrow> pa \<in> set peers \<Longrightarrow> pa_user_id pa \<noteq> self"
  by (auto simp: read_meta_def Let_def split: option.splits prod.splits dest: get_peers_others)

lemma download_ok:
  assumes "download_cmd L E gid name dest a w = (out, a', w')" and ok: "client_ok a" and new: "fresh_env E a"
  shows "client_ok a'"
proof (cases "ca_user a = []")
  case False
  obtain r a1 w1 where q: "ask L MSG_GET_FILE_META (buf_data (put_str name (put_str gid new_buf))) a w = (r, a1, w1)"
    by (cases "ask L MSG_GET_FILE_META (buf_data (put_str name (put_str gid new_buf))) a w") auto
  have a1: "client_ok a1" "fresh_env E a1" "ca_user a1 \<noteq> []"
    using ask_ok [OF q ok] ask_frame [OF q] new False by (auto simp: fresh_env_def)
  have "client_ok a2"
    if m: "read_meta (se_junk E) (ca_user a1) resp = Some (sz, h, hs, peers)" "peers \<noteq> []"
      and s: "start_job E \<lparr>dj_group = gid, dj_file = name, dj_dest_path = dest, dj_size = sz, dj_file_hash = h,
        dj_piece_hashes = hs, dj_peers = peers, dj_user_id = ca_user a1, dj_store = se_store E, dj_done = False, dj_failed = False\<rparr> a1 = (out', a2)"
    for resp sz h hs peers out' a2
    using m a1(3) read_meta_others [OF m(1)] by (intro start_job_ok [OF a1(1,2) _ _ s]) (auto simp: job_ok_def running_def)
  then show ?thesis
    using assms(1) q a1(1) False
    by (auto simp: download_cmd_def split: option.splits prod.splits if_splits)
qed (use assms in \<open>simp add: download_cmd_def\<close>)

lemma line_ok:
  assumes "client_line L E line a w = Some (out, a', w')" and "client_ok a" and "fresh_env E a"
  shows "client_ok a'"
proof -
  let ?t = "tokenize line"
  have uid: "uid \<noteq> []" if "parse_cmd ?t = Sh_Login uid pwd" for uid pwd
  proof -
    have "uid = ?t ! 1" "1 < length ?t" using that by (auto simp: parse_cmd_def is_cmd_def split: if_splits)
    then show ?thesis using tokenize_ok [of uid line] by (simp add: word_ok_def)
  qed
  show ?thesis
  proof (cases "?t = []")
    case False
    then have "exec_cmd L E line (parse_cmd ?t) a w = Some (out, a', w')" using assms(1) by (simp add: client_line_def)
    then show ?thesis
      using assms(2,3) uid
      by (cases "parse_cmd ?t")
        (auto simp: exec_cmd_def intro: plain_ok list_ok login_cmd_ok logout_ok stop_share_ok upload_ok download_ok)
  qed (use assms in \<open>simp add: client_line_def\<close>)
qed

lemma step_ok: "client_step L (a, w) (a', w') \<Longrightarrow> client_ok a \<Longrightarrow> client_ok a'"
proof (induction "(a, w)" "(a', w')" rule: client_step.induct)
  case at_console
  then show ?case by (metis line_ok)
next
  case from_job
  then show ?case by (metis ask_ok)
next
  case (job_ends j JE f job' sd' st f')
  have "dj_peers job' = dj_peers (ca_jobs a j)" "dj_user_id job' = dj_user_id (ca_jobs a j)"
    "\<not> running job'"
    using job_ends.hyps(3) by (auto simp: running_def elim: run_job.cases)
  then have "jobs_ok ((ca_jobs a)(j := job')) (ca_downloads a)"
    using job_ends.prems job_ends.hyps(1) by (simp add: client_ok_def jobs_ok_def job_ok_def)
  moreover have "login_ok a'" using job_ends.prems by (simp add: client_ok_def login_ok_def flip: job_ends.hyps(4))
  ultimately show ?case by (simp add: client_ok_def flip: job_ends.hyps(4))
qed

lemma reach_ok:
  "(client_step L)\<^sup>*\<^sup>* s s' \<Longrightarrow> client_ok (fst s) \<Longrightarrow> client_ok (fst s')"
proof (induction rule: rtranclp_induct)
  case (step y z)
  then show ?case using step_ok [of L "fst y" "snd y" "fst z" "snd z"] by simp
qed simp

section \<open>The property of the client process\<close>

text \<open>C11. Whatever is typed, whatever the trackers answer and however the downloads run: the login that a fail-over would replay is
  the login the shell shows, every download was started with somebody else to ask (so that \<open>run_job\<close> never divides by an empty
  peer list), and no two downloads run for the same group and file.\<close>

theorem client_coherent:
  assumes "(client_step L)\<^sup>*\<^sup>* (new_app ip port c sd, w) (a, w')" and "\<not> tc_logged_in c"
  shows "(tc_logged_in (ca_tracker a) \<longleftrightarrow> ca_user a \<noteq> []) \<and>
    (ca_user a \<noteq> [] \<longrightarrow> tc_last_uid (ca_tracker a) = ca_user a \<and> tc_last_port (ca_tracker a) = ca_port a) \<and>
    (\<forall>j \<in> set (dm_threads (ca_downloads a)). dj_peers (ca_jobs a j) \<noteq> [] \<and>
       (\<forall>p \<in> set (dj_peers (ca_jobs a j)). pa_user_id p \<noteq> dj_user_id (ca_jobs a j))) \<and>
    (\<forall>i \<in> set (dm_threads (ca_downloads a)). \<forall>j \<in> set (dm_threads (ca_downloads a)).
       running (ca_jobs a i) \<longrightarrow> running (ca_jobs a j) \<longrightarrow> dm_key (ca_jobs a i) = dm_key (ca_jobs a j) \<longrightarrow> i = j)"
proof -
  have "client_ok (new_app ip port c sd)" using assms(2) by (simp add: client_ok_def login_ok_def jobs_ok_def new_app_def)
  then have ok: "login_ok a" "jobs_ok (ca_jobs a) (ca_downloads a)"
    using reach_ok [OF assms(1)] by (simp_all add: client_ok_def)
  have "\<forall>j \<in> set (dm_threads (ca_downloads a)). job_ok (ca_jobs a j)" using ok(2) by (simp add: jobs_ok_def)
  then show ?thesis using ok(1) one_running [OF ok(2)] unfolding login_ok_def job_ok_def by blast
qed

text \<open>A link whose tracker says \<open>ST_OK\<close> to everything, and one line typed.\<close>

definition sample_yes :: "unit link" where
  "sample_yes = \<lparr>lk_dial = (\<lambda>_ w. (True, w)), lk_talk = (\<lambda>_ _ w. (Some (0, []), w)), lk_close = (\<lambda>w. w)\<rparr>"

definition sample_line :: bytes where
  "sample_line = spaced [(str ''login'', [32]), ([1], [32]), ([7], [10])]"

definition sample_quiet :: shell_env where
  "sample_quiet = \<lparr>se_opened = False, se_disk = [], se_ios = (\<lambda>_. []), se_cores = 1, se_sched = [], se_reopened = False,
     se_store = 0, se_job = 0, se_junk = (\<lambda>_. 0)\<rparr>"

lemma sample_login:
  "\<exists>out a. client_line sample_yes sample_quiet sample_line (new_app [9] 80 (new_client\<lparr>tc_open := True\<rparr>) new_seeder) () =
     Some (out, a, ()) \<and> ca_user a = [1]"
proof -
  let ?c = "new_client\<lparr>tc_open := True\<rparr>"
  have t: "tokenize sample_line = [str ''login'', [1], [7]]"
    unfolding sample_line_def by (subst tokenize_spaced; simp add: word_ok_def gap_ok_def is_space_def word_le_nat_alt)
  have r: "tc_request sample_yes ty p ?c () = (Some (0, []), ?c, ())" for ty p
    by (rule request_live) (simp_all add: new_client_def sample_yes_def)
  have "client_line sample_yes sample_quiet sample_line (new_app [9] 80 ?c new_seeder) () =
      Some (login_cmd sample_yes [1] [7] (new_app [9] 80 ?c new_seeder) ())"
    using t by (simp add: client_line_def exec_cmd_def parse_cmd_def is_cmd_def)
  then show ?thesis by (simp add: login_cmd_def ask_def r new_app_def del: tracker_client.simps)
qed

theorem client_coherent_witness:
  "\<exists>a w'. (client_step sample_yes)\<^sup>*\<^sup>* (new_app [9] 80 (new_client\<lparr>tc_open := True\<rparr>) new_seeder, ()) (a, w') \<and>
    ca_user a = [1] \<and> tc_logged_in (ca_tracker a) \<and> tc_last_uid (ca_tracker a) = [1]"
proof -
  let ?c = "new_client\<lparr>tc_open := True\<rparr>"
  obtain out a where l: "client_line sample_yes sample_quiet sample_line (new_app [9] 80 ?c new_seeder) () = Some (out, a, ())" "ca_user a = [1]"
    using sample_login by blast
  have "fresh_env sample_quiet (new_app [9] 80 ?c new_seeder)" by (simp add: fresh_env_def new_app_def)
  then have r: "(client_step sample_yes)\<^sup>*\<^sup>* (new_app [9] 80 ?c new_seeder, ()) (a, ())"
    using at_console [OF l(1)] by blast
  show ?thesis using client_coherent [OF r] r l(2) by (auto simp: new_client_def)
qed

end
