(* ===== verification/Client_Exit.thy ===== *)
theory Client_Exit
  imports Client_Process
begin

text \<open>
  The end of the client (\<open>client/main.cpp\<close> after its loop, and the destructor of \<open>DownloadManager\<close>): the seeder is stopped,
  the tracker connection closed, and then \<open>main\<close> waits in \<open>join_all\<close> for every download that is still running. The threads
  go on meanwhile, and go on talking to the trackers.
\<close>

section \<open>The steps\<close>

text \<open>\<open>X_Joining\<close>: the threads that \<open>join_all\<close> has taken out of \<open>threads_\<close> and not joined yet.\<close>

datatype exit_pc = X_Console | X_Joining "job_ref list" | X_Exited

definition download_threads :: "exit_pc \<Rightarrow> client_app \<Rightarrow> job_ref list" where
  "download_threads pc a = (case pc of X_Console \<Rightarrow> dm_threads (ca_downloads a) | X_Joining ts \<Rightarrow> ts | X_Exited \<Rightarrow> [])"

inductive exit_step :: "'w link \<Rightarrow> exit_pc \<times> client_app \<times> 'w \<Rightarrow> exit_pc \<times> client_app \<times> 'w \<Rightarrow> bool" for L where
  typed: "client_line L E line a w = Some (out, a', w') \<Longrightarrow> fresh_env E a \<Longrightarrow> exit_step L (X_Console, a, w) (X_Console, a', w')"
| leaves: "client_end L a w = (a', w') \<Longrightarrow> exit_step L (X_Console, a, w) (X_Joining (dm_threads (ca_downloads a)), a', w')"
| asks: "j \<in> set (download_threads pc a) \<Longrightarrow> running (ca_jobs a j) \<Longrightarrow> ty \<in> {MSG_HAVE_PIECES, MSG_GET_FILE_META} \<Longrightarrow>
    ask L ty payload a w = (r, a', w') \<Longrightarrow> exit_step L (pc, a, w) (pc, a', w')"
| ends: "j \<in> set (download_threads pc a) \<Longrightarrow> running (ca_jobs a j) \<Longrightarrow>
    run_job JE (ca_jobs a j) f (ca_seeder a) (job', sd', st, f') \<Longrightarrow>
    exit_step L (pc, a, w)
      (pc, a\<lparr>ca_jobs := (ca_jobs a)(j := job'), ca_seeder := sd', ca_stores := (ca_stores a)(dj_store job' := (st, f'))\<rparr>, w)"
| joins: "\<not> running (ca_jobs a j) \<Longrightarrow> exit_step L (X_Joining (j # ts), a, w) (X_Joining ts, a, w)"
| exits: "exit_step L (X_Joining [], a, w) (X_Exited, a, w)"

section \<open>The invariant\<close>

text \<open>Every job in the table that is running has its thread, every thread a job that can be asked for, and once the loop is left
  the seeder's flag is down.\<close>

definition exit_ok :: "exit_pc \<times> client_app \<times> 'w \<Rightarrow> bool" where
  "exit_ok s = (case s of (pc, a, w) \<Rightarrow>
     (\<forall>j \<in> set (download_threads pc a). job_ok (ca_jobs a j)) \<and>
     (\<forall>k j. map_find (dm_jobs (ca_downloads a)) k = Some j \<longrightarrow> running (ca_jobs a j) \<longrightarrow> j \<in> set (download_threads pc a)) \<and>
     (pc = X_Console \<longrightarrow> client_ok a) \<and> (pc \<noteq> X_Console \<longrightarrow> \<not> sd_running (ca_seeder a)))"

lemma start_job_threads:
  assumes "start_job E job a = (out, a')" and "fresh_env E a"
    and "\<forall>k j. map_find (dm_jobs (ca_downloads a)) k = Some j \<longrightarrow> running (ca_jobs a j) \<longrightarrow> j \<in> set (dm_threads (ca_downloads a))"
  shows "\<forall>k j. map_find (dm_jobs (ca_downloads a')) k = Some j \<longrightarrow> running (ca_jobs a' j) \<longrightarrow> j \<in> set (dm_threads (ca_downloads a'))"
proof -
  have old: "j \<noteq> se_job E" if "map_find (dm_jobs (ca_downloads a)) k = Some j" for j k
    using assms(2) map_find_in [OF that] by (force simp: fresh_env_def)
  then show ?thesis
    using assms(1,3) by (auto simp: start_job_def dm_start_def Let_def split: option.splits prod.splits if_splits bool.splits)
qed

lemma ask_downloads: "ask L ty payload a w = (r, a', w') \<Longrightarrow> ca_downloads a' = ca_downloads a \<and> ca_jobs a' = ca_jobs a \<and> ca_seeder a' = ca_seeder a"
  by (auto dest!: ask_frame)

text \<open>No command but \<open>download_file\<close> touches the downloads.\<close>

lemma other_cmds:
  "plain_cmd L ty args a w = (out, a', w') \<Longrightarrow> ca_downloads a' = ca_downloads a \<and> ca_jobs a' = ca_jobs a"
  "list_cmd L ty args a w = (out, a', w') \<Longrightarrow> ca_downloads a' = ca_downloads a \<and> ca_jobs a' = ca_jobs a"
  "login_cmd L uid pwd a w = (out, a', w') \<Longrightarrow> ca_downloads a' = ca_downloads a \<and> ca_jobs a' = ca_jobs a"
  "logout_cmd L a w = (out, a', w') \<Longrightarrow> ca_downloads a' = ca_downloads a \<and> ca_jobs a' = ca_jobs a"
  "stop_share_cmd L gid name a w = (out, a', w') \<Longrightarrow> ca_downloads a' = ca_downloads a \<and> ca_jobs a' = ca_jobs a"
  "upload_cmd L E gid path a w = (out, a', w') \<Longrightarrow> ca_downloads a' = ca_downloads a \<and> ca_jobs a' = ca_jobs a"
  by (auto simp: plain_cmd_def list_cmd_def login_cmd_def logout_cmd_def stop_share_cmd_def upload_cmd_def
      split: prod.splits option.splits if_splits bool.splits dest!: ask_downloads)

definition tracked :: "client_app \<Rightarrow> bool" where
  "tracked a \<longleftrightarrow> (\<forall>k j. map_find (dm_jobs (ca_downloads a)) k = Some j \<longrightarrow> running (ca_jobs a j) \<longrightarrow> j \<in> set (dm_threads (ca_downloads a)))"

lemma download_tracked:
  assumes d: "download_cmd L E gid name dest a w = (out, a', w')" and t: "tracked a" and f: "fresh_env E a"
  shows "tracked a'"
proof (cases "ca_user a = []")
  case False
  obtain r a1 w1 where q: "ask L MSG_GET_FILE_META (buf_data (put_str name (put_str gid new_buf))) a w = (r, a1, w1)"
    by (cases "ask L MSG_GET_FILE_META (buf_data (put_str name (put_str gid new_buf))) a w") auto
  have a1: "tracked a1" "fresh_env E a1" using ask_downloads [OF q] t f by (auto simp: tracked_def fresh_env_def)
  then have "start_job E job a1 = (out', a2) \<Longrightarrow> tracked a2" for job out' a2
    unfolding tracked_def using start_job_threads by blast
  then show ?thesis
    using d q a1 False by (auto simp: download_cmd_def split: option.splits prod.splits if_splits)
qed (use assms in \<open>simp add: download_cmd_def\<close>)

lemma line_tracked: "client_line L E line a w = Some (out, a', w') \<Longrightarrow> tracked a \<Longrightarrow> fresh_env E a \<Longrightarrow> tracked a'"
proof -
  assume l: "client_line L E line a w = Some (out, a', w')" "tracked a" "fresh_env E a"
  have same: "ca_downloads a' = ca_downloads a \<and> ca_jobs a' = ca_jobs a \<Longrightarrow> tracked a'" using l(2) by (simp add: tracked_def)
  show ?thesis
  proof (cases "tokenize line = []")
    case False
    then have "exec_cmd L E line (parse_cmd (tokenize line)) a w = Some (out, a', w')" using l(1) by (simp add: client_line_def)
    then show ?thesis
      using l(2,3) same
      by (cases "parse_cmd (tokenize line)") (auto simp: exec_cmd_def dest: other_cmds download_tracked)
  qed (use l in \<open>simp add: client_line_def\<close>)
qed


lemma client_end_simps:
  "client_end L a w = (a', w') \<Longrightarrow> ca_jobs a' = ca_jobs a \<and> dm_jobs (ca_downloads a') = dm_jobs (ca_downloads a) \<and>
    \<not> sd_running (ca_seeder a')"
  by (auto simp: client_end_def join_all_def seeder_stop_def split: prod.splits)

lemma ended_job:
  "run_job JE job f sd (job', sd', st, f') \<Longrightarrow> dj_peers job' = dj_peers job \<and> dj_user_id job' = dj_user_id job \<and> \<not> running job' \<and>
    sd_running sd' = sd_running sd"
  by (auto simp: running_def add_share_def elim: run_job.cases)

lemma exit_step_ok: "exit_step L s s' \<Longrightarrow> exit_ok s \<Longrightarrow> exit_ok s'"
proof (induction rule: exit_step.induct)
  case (typed E line a w out a' w')
  then have "client_ok a" "tracked a" by (simp_all add: exit_ok_def tracked_def download_threads_def)
  then have "client_ok a'" "tracked a'" using line_ok [OF typed(1)] line_tracked [OF typed(1)] typed(2) by auto
  then show ?case by (simp add: exit_ok_def tracked_def download_threads_def client_ok_def jobs_ok_def)
next
  case (leaves a w a' w')
  then show ?case using client_end_simps [OF leaves(1)] by (auto simp: exit_ok_def download_threads_def)
next
  case (asks j pc a ty payload w r a' w')
  then show ?case
    using ask_downloads [OF asks(4)] ask_ok [OF asks(4)] by (auto simp: exit_ok_def download_threads_def split: exit_pc.splits)
next
  case (ends j pc a JE f job' sd' st f' w)
  let ?a' = "a\<lparr>ca_jobs := (ca_jobs a)(j := job'), ca_seeder := sd', ca_stores := (ca_stores a)(dj_store job' := (st, f'))\<rparr>"
  have "pc = X_Console \<Longrightarrow> client_step L (a, w) (?a', w)"
    using ends by (intro job_ends) (auto simp: download_threads_def)
  then have "pc = X_Console \<Longrightarrow> client_ok ?a'" using ends(4) step_ok [of L a w ?a' w] by (simp add: exit_ok_def)
  then show ?case
    using ends(4) ended_job [OF ends(3)] by (auto simp: exit_ok_def download_threads_def job_ok_def split: exit_pc.splits)
qed (auto simp: exit_ok_def download_threads_def)

lemma exit_reach_ok: "(exit_step L)\<^sup>*\<^sup>* s s' \<Longrightarrow> exit_ok s \<Longrightarrow> exit_ok s'"
  by (induction rule: rtranclp_induct) (auto intro: exit_step_ok)

lemma new_app_exit_ok: "\<not> tc_logged_in c \<Longrightarrow> exit_ok (X_Console, new_app ip port c sd, w)"
  by (simp add: exit_ok_def download_threads_def new_app_def client_ok_def login_ok_def jobs_ok_def)

section \<open>Every download can be joined\<close>

definition patient_env :: "nat \<Rightarrow> job_env" where
  "patient_env n = \<lparr>je_opened = True, je_resized = True, je_seek = (\<lambda>_. None), je_ios = (\<lambda>_. []), je_cores = 1,
     je_sched = concat (replicate (2 * n + 1) [0..<n + 1]), je_resp = (\<lambda>_. None)\<rparr>"

lemma patient_schedule: "t < n + 1 \<Longrightarrow> 2 * n + 1 \<le> count_list (je_sched (patient_env n)) t"
proof -
  assume "t < n + 1"
  moreover have "count_list [0..<m] t = (if t < m then 1 else 0)" for m by (induction m) auto
  ultimately have one: "count_list [0..<n + 1] t = 1" by simp
  have "count_list (concat (replicate k xs)) t = k * count_list xs t" for k and xs :: "nat list" by (induction k) simp_all
  then show ?thesis using one by (simp add: patient_env_def del: upt_Suc replicate_Suc)
qed

lemma join_run:
  assumes "\<forall>j \<in> set ts. job_ok (ca_jobs a j) \<and> meta_ok (ca_jobs a j)"
  shows "\<exists>a'. (exit_step L)\<^sup>*\<^sup>* (X_Joining ts, a, w) (X_Joining [], a', w)"
  using assms
proof (induction ts arbitrary: a)
  case (Cons j ts)
  obtain a1 where a1: "(exit_step L)\<^sup>*\<^sup>* (X_Joining (j # ts), a, w) (X_Joining (j # ts), a1, w)" "\<not> running (ca_jobs a1 j)"
    "\<forall>i. i \<noteq> j \<longrightarrow> ca_jobs a1 i = ca_jobs a i" "job_ok (ca_jobs a1 j) \<and> meta_ok (ca_jobs a1 j)"
  proof (cases "running (ca_jobs a j)")
    case True
    have m: "meta_ok (ca_jobs a j)" "dj_peers (ca_jobs a j) \<noteq> []" using Cons.prems by (auto simp: job_ok_def)
    obtain job' sd' st f' where r: "run_job (patient_env (length (dj_piece_hashes (ca_jobs a j)))) (ca_jobs a j) [] (ca_seeder a) (job', sd', st, f')"
      using run_job_ends [OF m, of "patient_env (length (dj_piece_hashes (ca_jobs a j)))"] patient_schedule by (metis prod_cases4)
    have j': "job' = (ca_jobs a j)\<lparr>dj_done := True\<rparr> \<or> job' = (ca_jobs a j)\<lparr>dj_failed := True\<rparr>" using r by cases auto
    let ?a1 = "a\<lparr>ca_jobs := (ca_jobs a)(j := job'), ca_seeder := sd', ca_stores := (ca_stores a)(dj_store job' := (st, f'))\<rparr>"
    have "exit_step L (X_Joining (j # ts), a, w) (X_Joining (j # ts), ?a1, w)"
      using True by (intro ends [OF _ _ r]) (simp_all add: download_threads_def)
    moreover have "\<not> running (ca_jobs ?a1 j)" "job_ok (ca_jobs ?a1 j) \<and> meta_ok (ca_jobs ?a1 j)"
      using j' Cons.prems by (auto simp: running_def job_ok_def meta_ok_def)
    ultimately show ?thesis using that [of ?a1] by auto
  qed (use Cons.prems that [of a] in auto)
  have "exit_step L (X_Joining (j # ts), a1, w) (X_Joining ts, a1, w)" by (rule joins [OF a1(2)])
  moreover have "\<forall>i \<in> set ts. job_ok (ca_jobs a1 i) \<and> meta_ok (ca_jobs a1 i)" using Cons.prems a1(3,4) by (metis list.set_intros(2))
  ultimately show ?case using Cons.IH [of a1] a1(1) by (meson rtranclp.rtrancl_into_rtrancl rtranclp_trans)
qed blast


section \<open>The end\<close>



text \<open>The connection that \<open>disconnect\<close> has closed does not stay closed: the next request of a download that is still running
  dials again, and replays the login.\<close>

lemma exit_reconnects:
  assumes "client_end L a w = (a', w')" and "tc_eps (ca_tracker a) = [e]" and "tc_logged_in (ca_tracker a)"
    and "lk_dial L e w' = (True, w1)" and "lk_talk L (msg_code MSG_LOGIN) (login_bytes (ca_tracker a)) w1 = (Some q, w2)"
    and "lk_talk L (msg_code MSG_HAVE_PIECES) p w2 = (Some q', w3)"
  shows "\<exists>a''. ask L MSG_HAVE_PIECES p a' w' = (Some q', a'', w3) \<and> tc_open (ca_tracker a'')"
proof -
  obtain c where c: "disconnect L (ca_tracker a) w = (c, w')" "ca_tracker a' = c" using assms(1) by (auto simp: client_end_def split: prod.splits)
  have "c = (ca_tracker a)\<lparr>tc_open := False\<rparr> \<or> c = ca_tracker a \<and> \<not> tc_open (ca_tracker a)"
    using c(1) by (simp add: disconnect_def prod_eq_iff split: if_splits)
  then have d: "\<not> tc_open c" "tc_eps c = [e]" "tc_logged_in c" "login_bytes c = login_bytes (ca_tracker a)"
    using assms(2,3) by (elim disjE; simp add: login_bytes_def)+
  let ?c = "c\<lparr>tc_open := True, tc_current := 0\<rparr>"
  have "login_bytes ?c = login_bytes (ca_tracker a)" using d(4) by (simp add: login_bytes_def)
  then have "tc_request L (msg_code MSG_HAVE_PIECES) p c w' = (Some q', ?c, w3)"
    using assms(4-6) d by (simp add: tc_request_def numeral_2_eq_2 request_turn_def attempt_def Let_def)
  then show ?thesis using c(2) by (simp add: ask_def)
qed

end
