(* ===== verification/Client_Sockets.thy ===== *)
theory Client_Sockets
  imports Tracker_Client Sockets
begin

text \<open>
  The tracker client over the descriptor table of its process: theory \<open>Tracker_Client\<close> with the connections of theory
  \<open>Sockets\<close>. The descriptor \<open>fd_\<close> is part of the world of the link here; whether it is open, the model of the client keeps.
\<close>

text \<open>The table, \<open>fd_\<close>, and how many calls were made so far; \<open>K\<close> and \<open>talk\<close> give the answers of the kernel and the other
  side to the \<open>n\<close>-th call.\<close>

record sock_world =
  sw_fds :: "sock fd_table"
  sw_fd :: int
  sw_calls :: nat

definition sock_dial :: "(nat \<Rightarrow> net_kernel) \<Rightarrow> tracker_endpoint \<Rightarrow> sock_world \<Rightarrow> bool \<times> sock_world" where
  "sock_dial K e w =
    (case tcp_connect (K (sw_calls w)) (te_ip e) (te_port e) (sw_fds w) of (fd, t) \<Rightarrow>
       if fd \<ge> 0 then (True, w\<lparr>sw_fds := t, sw_fd := fd, sw_calls := Suc (sw_calls w)\<rparr>)
       else (False, w\<lparr>sw_fds := t, sw_calls := Suc (sw_calls w)\<rparr>))"

definition sock_close :: "sock_world \<Rightarrow> sock_world" where
  "sock_close w = w\<lparr>sw_fds := close_fd (sw_fd w) (sw_fds w), sw_fd := -1\<rparr>"

definition sock_link :: "(nat \<Rightarrow> net_kernel) \<Rightarrow> (nat \<Rightarrow> (u16 \<times> bytes) option) \<Rightarrow> sock_world link" where
  "sock_link K talk = \<lparr>lk_dial = sock_dial K,
     lk_talk = (\<lambda>type payload w. (talk (sw_calls w), w\<lparr>sw_calls := Suc (sw_calls w)\<rparr>)), lk_close = sock_close\<rparr>"

section \<open>What the client holds\<close>

text \<open>\<open>base\<close> is what the process has open apart from the client.\<close>

definition idle :: "(int \<Rightarrow> sock option) \<Rightarrow> sock_world \<Rightarrow> bool" where
  "idle base w \<longleftrightarrow> fd_at (sw_fds w) = base"

definition linked :: "(int \<Rightarrow> sock option) \<Rightarrow> tracker_endpoint \<Rightarrow> sock_world \<Rightarrow> bool" where
  "linked base e w \<longleftrightarrow> base (sw_fd w) = None \<and> (\<exists>K addr. inet_pton (te_ip e) = Some addr \<and>
     fd_at (sw_fds w) = base(sw_fd w \<mapsto> connected_to K addr (te_port e)))"

definition holds :: "(int \<Rightarrow> sock option) \<Rightarrow> tracker_client \<Rightarrow> sock_world \<Rightarrow> bool" where
  "holds base c w \<longleftrightarrow> (if tc_open c then linked base (tc_eps c ! tc_current c) w else idle base w)"

lemma sock_link_simps [simp]:
  "lk_dial (sock_link K talk) = sock_dial K"
  "lk_close (sock_link K talk) = sock_close"
  "lk_talk (sock_link K talk) type payload w = (talk (sw_calls w), w\<lparr>sw_calls := Suc (sw_calls w)\<rparr>)"
  by (simp_all add: sock_link_def)

lemma holds_calls [simp]: "holds base c (w\<lparr>sw_calls := n\<rparr>) = holds base c w"
  by (simp add: holds_def linked_def idle_def)

lemma sock_dial_ok:
  assumes "idle base w"
  shows "case sock_dial K e w of (ok, w') \<Rightarrow> if ok then linked base e w' else idle base w'"
proof (cases "tcp_connect (K (sw_calls w)) (te_ip e) (te_port e) (sw_fds w)")
  case (Pair fd t)
  show ?thesis
    using tcp_connect_works [OF _ Pair] tcp_connect_fails [OF _ Pair] assms Pair
    by (cases "connects (K (sw_calls w)) (te_ip e) (te_port e)") (auto simp: sock_dial_def linked_def idle_def)
qed

lemma sock_close_ok: "linked base e w \<Longrightarrow> idle base (sock_close w)"
  by (auto simp: linked_def idle_def sock_close_def fds.closed fun_eq_iff)

lemma dial_ok: "idle base w \<Longrightarrow> case dial (sock_link K talk) eps start k w of
    (None, w') \<Rightarrow> idle base w' | (Some idx, w') \<Rightarrow> linked base (eps ! idx) w'"
proof (induction k arbitrary: w)
  case (Suc k)
  let ?e = "eps ! ((start + (length eps - Suc k)) mod length eps)"
  obtain ok v where d: "sock_dial K ?e w = (ok, v)" by fastforce
  have v: "if ok then linked base ?e v else idle base v" using sock_dial_ok [OF Suc.prems, of ?e K] d by simp
  show ?case
  proof (cases ok)
    case True
    then show ?thesis using d v by (simp add: Let_def)
  next
    case False
    then show ?thesis using d v Suc.IH [of v] by (simp add: Let_def)
  qed
qed simp

lemma disconnect_holds: "holds base c w \<Longrightarrow> disconnect (sock_link K talk) c w = (c', w') \<Longrightarrow>
    idle base w' \<and> \<not> tc_open c' \<and> tc_eps c' = tc_eps c"
  by (auto simp: disconnect_def holds_def sock_close_ok split: if_splits)

lemma connect_any_holds:
  assumes "holds base c w" and "connect_any (sock_link K talk) c w = (ok, c', w')"
  shows "holds base c' w'"
proof (cases "disconnect (sock_link K talk) c w")
  case (Pair d v)
  note d = disconnect_holds [OF assms(1) Pair]
  then show ?thesis
    using assms(2) Pair dial_ok [where base = base and w = v and K = K and talk = talk and eps = "tc_eps d" and start = "tc_current d" and k = "length (tc_eps d)"]
    by (auto simp: connect_any_def holds_def split: prod.splits option.splits)
qed

lemma attempt_holds:
  "holds base c w \<Longrightarrow> tc_open c \<Longrightarrow> attempt (sock_link K talk) type payload c w = (r, c', w') \<Longrightarrow> holds base c' w'"
  by (auto simp: attempt_def holds_def linked_def idle_def sock_close_def fds.closed fun_eq_iff split: option.splits)

lemma request_turn_holds:
  assumes "holds base c w" and "request_turn (sock_link K talk) type payload c w = (r, c', w')"
  shows "holds base c' w'"
proof (cases "tc_open c")
  case True
  then show ?thesis using assms attempt_holds [of base c w] by (simp add: request_turn_def)
next
  case False
  obtain i v where d: "dial (sock_link K talk) (tc_eps c) (tc_current c + 1) (length (tc_eps c)) w = (i, v)" by fastforce
  have w: "idle base w" using assms(1) False by (simp add: holds_def)
  note dl = dial_ok [OF w, where K = K and talk = talk and eps = "tc_eps c" and start = "tc_current c + 1" and k = "length (tc_eps c)", unfolded d]
  show ?thesis
  proof (cases i)
    case None
    then show ?thesis using assms(2) False d dl by (auto simp: request_turn_def holds_def)
  next
    case (Some n)
    let ?c = "c\<lparr>tc_open := True, tc_current := n\<rparr>"
    have h: "holds base ?c v" using dl Some by (simp add: holds_def)
    let ?v = "v\<lparr>sw_calls := Suc (sw_calls v)\<rparr>"
    have t: "request_turn (sock_link K talk) type payload c w =
      (if tc_logged_in c \<and> type \<noteq> msg_code MSG_LOGIN then
        (case talk (sw_calls v) of None \<Rightarrow> (Again, ?c\<lparr>tc_open := False\<rparr>, sock_close ?v)
         | Some _ \<Rightarrow> attempt (sock_link K talk) type payload ?c ?v)
       else attempt (sock_link K talk) type payload ?c v)"
      using False d Some by (simp add: request_turn_def Let_def split: option.split)
    show ?thesis
    proof (cases "tc_logged_in c \<and> type \<noteq> msg_code MSG_LOGIN")
      case True
      have "holds base (?c\<lparr>tc_open := False\<rparr>) (sock_close ?v)"
        using sock_close_ok [of base "tc_eps c ! n" ?v] dl Some by (simp add: holds_def linked_def)
      moreover have "holds base ?c ?v" using h by simp
      then have "attempt (sock_link K talk) type payload ?c ?v = (r, c', w') \<Longrightarrow> holds base c' w'"
        using attempt_holds [of base ?c ?v] by simp
      ultimately show ?thesis using assms(2) t True by (cases "talk (sw_calls v)") auto
    next
      case False
      then have "request_turn (sock_link K talk) type payload c w = attempt (sock_link K talk) type payload ?c v"
        unfolding t by (simp only: if_False)
      with assms(2) have "attempt (sock_link K talk) type payload ?c v = (r, c', w')" by metis
      then show ?thesis using h attempt_holds [of base ?c v] by simp
    qed
  qed
qed

lemma request_loop_holds:
  "holds base c w \<Longrightarrow> request_loop n (sock_link K talk) type payload c w = (r, c', w') \<Longrightarrow> holds base c' w'"
proof (induction n arbitrary: c w)
  case (Suc n)
  obtain t d v where t: "request_turn (sock_link K talk) type payload c w = (t, d, v)" by (cases "request_turn (sock_link K talk) type payload c w")
  then show ?case using Suc request_turn_holds [OF Suc.prems(1) t] by (auto split: turn.splits)
qed simp

section \<open>Sequences of operations\<close>

datatype client_op = Op_Connect | Op_Disconnect | Op_Request u16 bytes

fun client_do :: "sock_world link \<Rightarrow> client_op \<Rightarrow> tracker_client \<times> sock_world \<Rightarrow> tracker_client \<times> sock_world" where
  "client_do L Op_Connect (c, w) = snd (connect_any L c w)"
| "client_do L Op_Disconnect (c, w) = disconnect L c w"
| "client_do L (Op_Request type payload) (c, w) = snd (tc_request L type payload c w)"

lemma client_do_holds:
  assumes "holds base c w" and "client_do (sock_link K talk) op (c, w) = (c', w')"
  shows "holds base c' w'"
proof (cases op)
  case Op_Connect
  then show ?thesis using assms connect_any_holds [OF assms(1)] by (cases "connect_any (sock_link K talk) c w") auto
next
  case Op_Disconnect
  then show ?thesis using assms disconnect_holds [OF assms(1)] by (simp add: holds_def)
next
  case (Op_Request type payload)
  then show ?thesis
    using assms request_loop_holds [OF assms(1)] by (cases "tc_request (sock_link K talk) type payload c w") (auto simp: tc_request_def)
qed

lemma client_run_holds:
  "holds base c w \<Longrightarrow> fold (client_do (sock_link K talk)) ops (c, w) = (c', w') \<Longrightarrow> holds base c' w'"
proof (induction ops arbitrary: c w)
  case (Cons op ops)
  then show ?case
    using client_do_holds [where base = base and c = c and w = w and K = K and talk = talk and op = op] by (cases "client_do (sock_link K talk) op (c, w)") auto
qed simp

text \<open>C37. Whatever sequence of connections, requests and disconnections a client makes, and whatever kernel and trackers answer, the
  client holds at most one descriptor: while it counts as connected, the one that is connected to the tracker it calls
  current, and none otherwise. Every other descriptor of the process is as it was, so fail-over leaks none and closes none
  that belongs to somebody else.\<close>

theorem client_holds_one_descriptor:
  assumes "fold (client_do (sock_link K talk)) ops (configure eps new_client, \<lparr>sw_fds = t, sw_fd = -1, sw_calls = 0\<rparr>) = (c, w)"
  shows "if tc_open c
    then fd_at t (sw_fd w) = None \<and> (\<exists>K addr. inet_pton (te_ip (tc_eps c ! tc_current c)) = Some addr \<and>
      fd_at (sw_fds w) = (fd_at t)(sw_fd w \<mapsto> connected_to K addr (te_port (tc_eps c ! tc_current c))))
    else fd_at (sw_fds w) = fd_at t"
proof -
  have "holds (fd_at t) (configure eps new_client) \<lparr>sw_fds = t, sw_fd = -1, sw_calls = 0\<rparr>"
    by (simp add: holds_def idle_def configure_def new_client_def)
  from client_run_holds [OF this assms] show ?thesis unfolding holds_def linked_def idle_def .
qed

text \<open>The first tracker refuses, the second is reached.\<close>

theorem client_holds_one_descriptor_witness:
  "\<exists>c w K' addr. fold (client_do (sock_link (\<lambda>n. \<lparr>nk_socket = True, nk_option = True, nk_connect = \<lambda>a p. n \<noteq> 0, nk_bind = \<lambda>a p. True,
        nk_listen = True\<rparr>) (\<lambda>n. None))) [Op_Connect]
      (configure [\<lparr>te_ip = inet_ntop (10, 0, 0, 1), te_port = 1\<rparr>, \<lparr>te_ip = inet_ntop (10, 0, 0, 2), te_port = 2\<rparr>] new_client,
       \<lparr>sw_fds = [], sw_fd = -1, sw_calls = 0\<rparr>) = (c, w) \<and>
    fd_at (sw_fds w) = (fd_at [])(0 \<mapsto> connected_to K' (10, 0, 0, 2) 2)"
proof -
  let ?K = "\<lambda>n::nat. \<lparr>nk_socket = True, nk_option = True, nk_connect = \<lambda>a p. n \<noteq> 0, nk_bind = \<lambda>a p. True, nk_listen = True\<rparr>"
  let ?start = "(configure [\<lparr>te_ip = inet_ntop (10, 0, 0, 1), te_port = 1\<rparr>, \<lparr>te_ip = inet_ntop (10, 0, 0, 2), te_port = 2\<rparr>] new_client,
    \<lparr>sw_fds = [], sw_fd = -1, sw_calls = 0\<rparr>)"
  obtain c w where r: "fold (client_do (sock_link ?K (\<lambda>n. None))) [Op_Connect] ?start = (c, w)" by fastforce
  moreover have "tc_open c" "tc_current c = 1" "tc_eps c = [\<lparr>te_ip = inet_ntop (10, 0, 0, 1), te_port = 1\<rparr>, \<lparr>te_ip = inet_ntop (10, 0, 0, 2), te_port = 2\<rparr>]"
    "sw_fd w = 0"
    using r by (auto simp: configure_def new_client_def connect_any_def disconnect_def numeral_2_eq_2 sock_dial_def tcp_connect_def
        inet_pton_ntop open_fd_def close_fd_def set_sock_def)
  ultimately show ?thesis using client_holds_one_descriptor [OF r] by (auto simp: inet_pton_ntop)
qed

end
