(* ===== verification/Seeder_Loop.thy ===== *)
theory Seeder_Loop
  imports Seeder Sockets
begin

text \<open>
  The accept loop of \<open>client/seeder.cpp\<close> and the two calls that begin and end it: \<open>start\<close> over the sockets of theory \<open>Sockets\<close>, and
  \<open>stop\<close>, which clears the flag, shuts the listening socket down, closes it and waits for the thread, one step after the other.
\<close>

section \<open>The thread and the caller of \<open>stop\<close>\<close>

text \<open>The thread: before the test of \<open>__running\<close>, about to call \<open>accept\<close>, blocked in it, after \<open>accept\<close> has failed, ended.\<close>

datatype accept_pc = A_Test | A_Call | A_Blocked | A_Failed | A_Ended

text \<open>\<open>stop\<close>: not called, \<open>__running\<close> cleared, socket shut down, socket closed, returned.\<close>

datatype seed_stop = Seed_Running | Seed_Flagged | Seed_Shut | Seed_Closed | Seed_Stopped

record seeder_loop =
  sl_seeder :: seeder
  sl_pc :: accept_pc
  sl_stop :: seed_stop
  sl_peers :: "int list"
  sl_open :: bool
  sl_shut :: bool

text \<open>\<open>sl_open\<close>: the descriptor \<open>lfd_\<close> refers to the listening socket. \<open>sl_shut\<close>: the socket has been shut down. They are not the same
  to a thread that is in \<open>accept\<close>: it has the socket, not the descriptor, and closing the descriptor does not wake it.\<close>

text \<open>\<open>Seeder::start\<close>: the result, the seeder with its thread, and the descriptors.\<close>

definition seeder_listen :: "net_kernel \<Rightarrow> bytes \<Rightarrow> u16 \<Rightarrow> seeder \<Rightarrow> sock fd_table \<Rightarrow> bool \<times> seeder_loop \<times> sock fd_table" where
  "seeder_listen K ip port sd t =
    (case tcp_listen K ip port 64 t of
       (fd, t) \<Rightarrow>
         (case seeder_start (fd \<ge> 0) port sd of
            (ok, sd) \<Rightarrow>
              (ok, \<lparr>sl_seeder = sd, sl_pc = if ok then A_Test else A_Ended, sl_stop = Seed_Running, sl_peers = [],
                 sl_open = ok, sl_shut = False\<rparr>, t)))"

text \<open>
  A call of \<open>accept\<close> fails at once when the descriptor is closed or the socket shut down, otherwise it blocks. From there it
  returns a connection, for which a thread in \<open>serve_peer\<close> is started, as long as the socket is not shut down; it fails when it is, and
  may fail at any time for other reasons.
\<close>

inductive loop_step :: "seeder_loop \<Rightarrow> seeder_loop \<Rightarrow> bool" where
  tests: "sl_pc s = A_Test \<Longrightarrow> loop_step s (s\<lparr>sl_pc := if sd_running (sl_seeder s) then A_Call else A_Ended\<rparr>)"
| calls: "sl_pc s = A_Call \<Longrightarrow> loop_step s (s\<lparr>sl_pc := if sl_open s \<and> \<not> sl_shut s then A_Blocked else A_Failed\<rparr>)"
| accepts: "sl_pc s = A_Blocked \<Longrightarrow> \<not> sl_shut s \<Longrightarrow> 0 \<le> fd \<Longrightarrow> loop_step s (s\<lparr>sl_pc := A_Test, sl_peers := sl_peers s @ [fd]\<rparr>)"
| accept_fails: "sl_pc s = A_Blocked \<Longrightarrow> loop_step s (s\<lparr>sl_pc := A_Failed\<rparr>)"
| retries: "sl_pc s = A_Failed \<Longrightarrow> loop_step s (s\<lparr>sl_pc := if \<not> sd_running (sl_seeder s) then A_Ended else A_Test\<rparr>)"
| flags: "sl_stop s = Seed_Running \<Longrightarrow> loop_step s (s\<lparr>sl_seeder := seeder_stop (sl_seeder s), sl_stop := Seed_Flagged\<rparr>)"
| shuts: "sl_stop s = Seed_Flagged \<Longrightarrow> loop_step s (s\<lparr>sl_stop := Seed_Shut, sl_shut := sl_shut s \<or> sl_open s\<rparr>)"
| closes: "sl_stop s = Seed_Shut \<Longrightarrow> loop_step s (s\<lparr>sl_stop := Seed_Closed, sl_open := False\<rparr>)"
| loop_joined: "sl_stop s = Seed_Closed \<Longrightarrow> sl_pc s = A_Ended \<Longrightarrow> loop_step s (s\<lparr>sl_stop := Seed_Stopped\<rparr>)"

text \<open>Steps that wait for nobody. A blocked \<open>accept\<close> waits for a connection until the socket is shut down, and \<open>join\<close> for the thread.\<close>

definition can_move :: "seeder_loop \<Rightarrow> bool" where
  "can_move s \<longleftrightarrow> sl_pc s = A_Test \<or> sl_pc s = A_Call \<or> sl_pc s = A_Failed \<or> sl_pc s = A_Blocked \<and> sl_shut s \<or>
     sl_stop s = Seed_Flagged \<or> sl_stop s = Seed_Shut \<or> sl_pc s = A_Ended \<and> sl_stop s = Seed_Closed"

lemma can_move_step: "can_move s \<Longrightarrow> \<exists>s'. loop_step s s'"
  unfolding can_move_def using tests calls accept_fails retries shuts closes loop_joined by blast

section \<open>\<open>stop\<close> returns\<close>

definition stopping :: "seeder_loop \<Rightarrow> bool" where
  "stopping s \<longleftrightarrow> sl_stop s \<noteq> Seed_Running \<and> \<not> sd_running (sl_seeder s)"

fun accept_left :: "accept_pc \<Rightarrow> nat" where
  "accept_left A_Call = 3"
| "accept_left A_Blocked = 2"
| "accept_left A_Failed = 1"
| "accept_left A_Test = 1"
| "accept_left A_Ended = 0"

fun seed_left :: "seed_stop \<Rightarrow> nat" where
  "seed_left Seed_Running = 4"
| "seed_left Seed_Flagged = 3"
| "seed_left Seed_Shut = 2"
| "seed_left Seed_Closed = 1"
| "seed_left Seed_Stopped = 0"

definition loop_left :: "seeder_loop \<Rightarrow> nat" where
  "loop_left s = accept_left (sl_pc s) + seed_left (sl_stop s)"

text \<open>A thread that is in \<open>accept\<close> when the descriptor is closed sits on a socket that has been shut down.\<close>

definition loop_ok :: "seeder_loop \<Rightarrow> bool" where
  "loop_ok s \<longleftrightarrow> (sl_stop s = Seed_Stopped \<longrightarrow> sl_pc s = A_Ended) \<and> (sl_pc s = A_Blocked \<longrightarrow> sl_open s \<or> sl_shut s) \<and>
     (sl_stop s \<notin> {Seed_Running, Seed_Flagged} \<longrightarrow> sl_open s \<longrightarrow> sl_shut s)"

lemma loop_step_ok: "loop_step s s' \<Longrightarrow> loop_ok s \<Longrightarrow> loop_ok s'"
  by (induction rule: loop_step.induct) (auto simp: loop_ok_def)

lemma stopping_step: "loop_step s s' \<Longrightarrow> stopping s \<Longrightarrow> stopping s' \<and> loop_left s' < loop_left s \<and> sl_seeder s' = sl_seeder s"
  by (induction rule: loop_step.induct) (auto simp: stopping_def loop_left_def)

lemma stopping_steps: "(loop_step ^^ n) s s' \<Longrightarrow> stopping s \<Longrightarrow> loop_ok s \<Longrightarrow>
    stopping s' \<and> loop_ok s' \<and> n + loop_left s' \<le> loop_left s \<and> sl_seeder s' = sl_seeder s"
proof (induction n arbitrary: s')
  case (Suc n)
  then obtain r where "(loop_step ^^ n) s r" "loop_step r s'" by auto
  then show ?case using Suc stopping_step [of r s'] loop_step_ok [of r s'] by force
qed simp

lemma stopping_moves: "stopping s \<Longrightarrow> loop_ok s \<Longrightarrow> can_move s \<or> sl_stop s = Seed_Stopped"
  by (cases "sl_pc s"; cases "sl_stop s") (auto simp: stopping_def loop_ok_def can_move_def)

lemma loop_steps_ok: "loop_step\<^sup>*\<^sup>* s s' \<Longrightarrow> loop_ok s \<Longrightarrow> loop_ok s'"
  by (induction rule: rtranclp_induct) (auto intro: loop_step_ok)

text \<open>C38. \<open>Seeder::stop\<close> always returns, at whatever moment it is called and whoever connects meanwhile: from the moment at which it
  has cleared \<open>__running\<close> there are at most six steps, until it has returned there is one that waits for nobody, and at the
  end the thread is gone and the table of shares is as it was.\<close>

theorem seeder_stop_returns:
  assumes "seeder_listen K ip port sd t = (ok, s0, t')" and "loop_step\<^sup>*\<^sup>* s0 s" and "sl_stop s = Seed_Running"
    and "(loop_step ^^ n) (s\<lparr>sl_seeder := seeder_stop (sl_seeder s), sl_stop := Seed_Flagged\<rparr>) s'"
  shows "n \<le> 6 \<and> (can_move s' \<or> sl_stop s' = Seed_Stopped) \<and> (sl_stop s' = Seed_Stopped \<longrightarrow> sl_pc s' = A_Ended) \<and>
    sl_seeder s' = seeder_stop (sl_seeder s)"
proof -
  let ?r = "s\<lparr>sl_seeder := seeder_stop (sl_seeder s), sl_stop := Seed_Flagged\<rparr>"
  have "accept_left p \<le> 3" for p by (cases p) auto
  from this [of "sl_pc s"] have "loop_left ?r \<le> 6" by (simp add: loop_left_def)
  moreover have "loop_ok s0" using assms(1) by (auto simp: seeder_listen_def loop_ok_def split: prod.splits if_splits)
  then have "loop_ok s" using loop_steps_ok [OF assms(2)] by blast
  then have "stopping ?r" "loop_ok ?r" by (simp_all add: stopping_def seeder_stop_def loop_ok_def)
  note e = stopping_steps [OF assms(4) this]
  moreover from e have "can_move s' \<or> sl_stop s' = Seed_Stopped" using stopping_moves by blast
  ultimately show ?thesis by (auto simp: loop_ok_def)
qed

theorem seeder_stop_returns_witness:
  "\<exists>s s'. (loop_step ^^ 1) s s' \<and> sl_stop s' = Seed_Flagged \<and> (can_move s' \<or> sl_stop s' = Seed_Stopped) \<and>
    \<not> sd_running (sl_seeder s')"
proof -
  let ?K = "\<lparr>nk_socket = True, nk_option = True, nk_connect = \<lambda>a p. True, nk_bind = \<lambda>a p. True, nk_listen = True\<rparr>"
  obtain s0 t' where s0: "seeder_listen ?K (inet_ntop (10, 0, 0, 1)) 80 new_seeder [] = (True, s0, t')"
      "sl_stop s0 = Seed_Running" "sl_pc s0 = A_Test"
    by (simp add: seeder_listen_def tcp_listen_def inet_pton_ntop open_fd_def set_sock_def new_sock_def seeder_start_def)
  let ?r = "s0\<lparr>sl_seeder := seeder_stop (sl_seeder s0), sl_stop := Seed_Flagged\<rparr>"
  have st: "loop_step ?r (?r\<lparr>sl_pc := A_Ended\<rparr>)" using tests [of ?r] s0(3) by (simp add: seeder_stop_def)
  then have run: "(loop_step ^^ 1) ?r (?r\<lparr>sl_pc := A_Ended\<rparr>)" by (simp add: eq_OO)
  from seeder_stop_returns [OF s0(1) rtranclp.rtrancl_refl s0(2) run] show ?thesis
    using run by (intro exI [of _ ?r] exI [of _ "?r\<lparr>sl_pc := A_Ended\<rparr>"]) (simp add: seeder_stop_def)
qed

end
