(* ===== verification/Store_Lifetime.thy ===== *)
theory Store_Lifetime
  imports Seeder Sockets
begin

text \<open>
  Who owns a \<open>PieceStore\<close>: the \<open>std::shared_ptr\<close>s to it in the seeder's table, in the jobs of the downloads, in the threads that
  serve peers and in the branch of \<open>main\<close> that uploads. When the last of them goes, \<open>~PieceStore\<close> closes the file
  (\<open>client/piece_store.cpp\<close>, \<open>client/seeder.cpp\<close>, \<open>client/download_manager.cpp\<close>). The descriptor table is that of the
  whole process: sockets come and go in it at the same time.
\<close>

section \<open>The objects and their owners\<close>

text \<open>What a descriptor refers to: the file that a store has opened, or a socket of somebody else.\<close>

datatype open_file = Of_Store store_ref bytes | Of_Socket

text \<open>\<open>li_stores\<close>: the objects that exist, each with its \<open>fd_\<close>. \<open>li_jobs\<close>: \<open>job->store\<close> of every \<open>DownloadJob\<close> that exists.
  \<open>li_serving\<close>: \<open>store\<close> in the threads of \<open>serve_peer\<close>. \<open>li_local\<close>: \<open>store\<close> in \<open>main\<close>.\<close>

record store_life =
  li_fds :: "open_file fd_table"
  li_stores :: "store_ref \<rightharpoonup> int"
  li_seeder :: seeder
  li_jobs :: "(nat \<times> store_ref) list"
  li_serving :: "(nat \<times> store_ref) list"
  li_local :: "store_ref option"

text \<open>One entry per \<open>shared_ptr\<close>: the use count of \<open>s\<close> is the number of its occurrences.\<close>

definition owners :: "store_life \<Rightarrow> store_ref list" where
  "owners st = map snd (sd_shares (li_seeder st)) @ map snd (li_jobs st) @ map snd (li_serving st) @
     (case li_local st of None \<Rightarrow> [] | Some s \<Rightarrow> [s])"

text \<open>\<open>~PieceStore\<close>.\<close>

definition destroy :: "store_ref \<Rightarrow> store_life \<Rightarrow> store_life" where
  "destroy s st =
    (case li_stores st s of
       None \<Rightarrow> st
     | Some fd \<Rightarrow> st\<lparr>li_fds := (if fd \<ge> 0 then close_fd fd (li_fds st) else li_fds st), li_stores := (li_stores st)(s := None)\<rparr>)"

text \<open>A \<open>shared_ptr\<close> to \<open>s\<close> has gone.\<close>

definition let_go :: "store_ref option \<Rightarrow> store_life \<Rightarrow> store_life" where
  "let_go old st = (case old of None \<Rightarrow> st | Some s \<Rightarrow> if s \<in> set (owners st) then st else destroy s st)"

section \<open>Opening\<close>

text \<open>\<open>fd_\<close> in \<open>open_for_seed\<close> and \<open>open_for_download\<close> of a new object; \<open>opened\<close> and \<open>resized\<close> as in \<open>Piece_Store\<close>.\<close>

definition seed_fd :: "bool \<Rightarrow> store_ref \<Rightarrow> bytes \<Rightarrow> open_file fd_table \<Rightarrow> int \<times> open_file fd_table" where
  "seed_fd opened s path t = (if \<not> opened then (-1, t) else open_fd (Of_Store s path) t)"

definition download_fd :: "bool \<Rightarrow> bool \<Rightarrow> store_ref \<Rightarrow> bytes \<Rightarrow> open_file fd_table \<Rightarrow> int \<times> open_file fd_table" where
  "download_fd opened resized s path t =
    (if \<not> opened then (-1, t)
     else case open_fd (Of_Store s path) t of (fd, t) \<Rightarrow> if \<not> resized then (-1, close_fd fd t) else (fd, t))"

text \<open>\<open>std::make_shared<PieceStore>()\<close>, its descriptor then set by one of the two.\<close>

definition born :: "store_ref \<Rightarrow> int \<times> open_file fd_table \<Rightarrow> store_life \<Rightarrow> store_life" where
  "born s ft st = st\<lparr>li_fds := snd ft, li_stores := (li_stores st)(s := Some (fst ft))\<rparr>"

section \<open>The steps\<close>

text \<open>\<open>add_share\<close> and \<open>remove_share\<close> with what becomes of the pointer that was in the table.\<close>

definition share_store :: "share_key \<Rightarrow> store_ref \<Rightarrow> store_life \<Rightarrow> store_life" where
  "share_store k s st = let_go (find_share k (li_seeder st)) (st\<lparr>li_seeder := add_share k s (li_seeder st)\<rparr>)"

definition unshare_store :: "share_key \<Rightarrow> store_life \<Rightarrow> store_life" where
  "unshare_store k st = let_go (find_share k (li_seeder st)) (st\<lparr>li_seeder := remove_share k (li_seeder st)\<rparr>)"

inductive life_step :: "store_life \<Rightarrow> store_life \<Rightarrow> bool" where
  upload: "li_local st = None \<Longrightarrow> li_stores st s = None \<Longrightarrow>
    life_step st (born s (seed_fd opened s path (li_fds st)) (st\<lparr>li_local := Some s\<rparr>))"
| uploaded: "li_local st = Some s \<Longrightarrow> li_stores st s = Some fd \<Longrightarrow> 0 \<le> fd \<Longrightarrow> life_step st (share_store k s st)"
| upload_ends: "li_local st = Some s \<Longrightarrow> life_step st (let_go (Some s) (st\<lparr>li_local := None\<rparr>))"
| stops_share: "life_step st (unshare_store k st)"
| serves: "find_share k (li_seeder st) = Some s \<Longrightarrow> t \<notin> fst ` set (li_serving st) \<Longrightarrow>
    life_step st (st\<lparr>li_serving := (t, s) # li_serving st\<rparr>)"
| served: "map_find (li_serving st) t = Some s \<Longrightarrow>
    life_step st (let_go (Some s) (st\<lparr>li_serving := map_erase t (li_serving st)\<rparr>))"
| download: "j \<notin> fst ` set (li_jobs st) \<Longrightarrow> li_stores st s = None \<Longrightarrow>
    life_step st (born s (download_fd opened resized s path (li_fds st)) (st\<lparr>li_jobs := (j, s) # li_jobs st\<rparr>))"
| downloaded: "map_find (li_jobs st) j = Some s \<Longrightarrow> li_stores st s = Some fd \<Longrightarrow> 0 \<le> fd \<Longrightarrow> life_step st (share_store k s st)"
| job_gone: "map_find (li_jobs st) j = Some s \<Longrightarrow>
    life_step st (let_go (Some s) (st\<lparr>li_jobs := map_erase j (li_jobs st)\<rparr>))"
| socket_opened: "open_fd Of_Socket (li_fds st) = (fd, t) \<Longrightarrow> life_step st (st\<lparr>li_fds := t\<rparr>)"
| socket_closed: "fd_at (li_fds st) fd = Some Of_Socket \<Longrightarrow> life_step st (st\<lparr>li_fds := close_fd fd (li_fds st)\<rparr>)"

definition life_start :: "seeder \<Rightarrow> open_file fd_table \<Rightarrow> store_life" where
  "life_start sd t = \<lparr>li_fds = t, li_stores = (\<lambda>_. None), li_seeder = sd, li_jobs = [], li_serving = [], li_local = None\<rparr>"

section \<open>The invariant\<close>

text \<open>The objects \<open>M\<close> are those that are owned (\<open>Own\<close>), each open file belongs to the one that has it as \<open>fd_\<close>, and the stores that
  peers can ask for (\<open>R\<close>) are open.\<close>

definition owner_of :: "open_file option \<Rightarrow> store_ref option" where
  "owner_of e = (case e of Some (Of_Store s p) \<Rightarrow> Some s | _ \<Rightarrow> None)"

lemma owner_of_simps [simp]: "owner_of None = None" "owner_of (Some Of_Socket) = None" "owner_of (Some (Of_Store s p)) = Some s"
  by (simp_all add: owner_of_def)

definition opened_as :: "int option \<Rightarrow> bool" where
  "opened_as f = (case f of None \<Rightarrow> False | Some fd \<Rightarrow> 0 \<le> fd)"

lemma opened_as_simps [simp]: "\<not> opened_as None" "opened_as (Some fd) = (0 \<le> fd)"
  by (simp_all add: opened_as_def)

definition alive :: "(store_ref \<rightharpoonup> int) \<Rightarrow> (int \<Rightarrow> open_file option) \<Rightarrow> store_ref set \<Rightarrow> store_ref set \<Rightarrow> bool" where
  "alive M A Own R \<longleftrightarrow> (\<forall>s. M s \<noteq> None \<longleftrightarrow> s \<in> Own) \<and> (\<forall>s fd. owner_of (A fd) = Some s \<longleftrightarrow> M s = Some fd \<and> 0 \<le> fd) \<and>
     (\<forall>s \<in> R. opened_as (M s))"

lemma alive_opened: "alive M A Own R \<Longrightarrow> M s = None \<Longrightarrow> A fd = None \<Longrightarrow> 0 \<le> fd \<Longrightarrow>
    alive (M(s \<mapsto> fd)) (A(fd \<mapsto> Of_Store s p)) (insert s Own) R"
  unfolding alive_def by (intro conjI; force)

lemma alive_not_opened: "alive M A Own R \<Longrightarrow> M s = None \<Longrightarrow> alive (M(s \<mapsto> -1)) A (insert s Own) R"
  unfolding alive_def by (intro conjI; force)

lemma alive_destroyed:
  assumes a: "alive M A Own R" and fd: "M s = Some fd" and r: "s \<notin> R"
  shows "alive (M(s := None)) (if 0 \<le> fd then A(fd := None) else A) (Own - {s}) R"
proof -
  have m: "owner_of (A x) = Some s' \<longleftrightarrow> M s' = Some x \<and> 0 \<le> x" for s' x using a by (simp add: alive_def)
  have u: "s' = s" if "M s' = Some fd" "0 \<le> fd" for s' using m [of fd s'] m [of fd s] fd that by simp
  have "owner_of ((if 0 \<le> fd then A(fd := None) else A) x) = Some s' \<longleftrightarrow> (M(s := None)) s' = Some x \<and> 0 \<le> x" for s' x
  proof (cases "x = fd \<and> 0 \<le> fd")
    case True
    then show ?thesis using u [of s'] by auto
  next
    case False
    then have "(if 0 \<le> fd then A(fd := None) else A) x = A x" by auto
    then show ?thesis using False fd m [of x s'] by auto
  qed
  moreover have "opened_as ((M(s := None)) s')" if "s' \<in> R" for s' using a r that unfolding alive_def by (cases "s' = s") auto
  ultimately show ?thesis using a unfolding alive_def by simp
qed

lemma alive_socket_opened: "alive M A Own R \<Longrightarrow> A fd = None \<Longrightarrow> alive M (A(fd \<mapsto> Of_Socket)) Own R"
  unfolding alive_def by (intro conjI; force)

lemma alive_socket_closed: "alive M A Own R \<Longrightarrow> A fd = Some Of_Socket \<Longrightarrow> alive M (A(fd := None)) Own R"
  unfolding alive_def by (intro conjI; force)

definition readable :: "store_life \<Rightarrow> store_ref set" where
  "readable st = snd ` set (sd_shares (li_seeder st)) \<union> snd ` set (li_serving st)"

definition life_ok :: "store_life \<Rightarrow> bool" where
  "life_ok st \<longleftrightarrow> alive (li_stores st) (fd_at (li_fds st)) (set (owners st)) (readable st)"

lemma readable_owned: "readable st \<subseteq> set (owners st)"
  by (auto simp: readable_def owners_def)

text \<open>Letting go of \<open>s\<close> when the other owners are those that are left.\<close>

lemma let_go_ok:
  assumes a: "alive (li_stores st) (fd_at (li_fds st)) Own R" and o: "Own = insert s (set (owners st))" and r: "readable st \<subseteq> R"
  shows "life_ok (let_go (Some s) st)"
proof -
  have a': "alive (li_stores st) (fd_at (li_fds st)) Own (readable st)" using a r by (auto simp: alive_def)
  show ?thesis
  proof (cases "s \<in> set (owners st)")
    case True
    then show ?thesis using a' o by (simp add: let_go_def life_ok_def insert_absorb)
  next
    case False
    then have r': "s \<notin> readable st" using readable_owned by blast
    have "li_stores st s \<noteq> None" using a' o unfolding alive_def by blast
    then obtain fd where fd: "li_stores st s = Some fd" by blast
    have d: "owners (destroy s st) = owners st" "readable (destroy s st) = readable st" "li_stores (destroy s st) = (li_stores st)(s := None)"
      "fd_at (li_fds (destroy s st)) = (if 0 \<le> fd then (fd_at (li_fds st))(fd := None) else fd_at (li_fds st))"
      by (simp_all add: destroy_def fd owners_def readable_def fds.closed)
    have "Own - {s} = set (owners st)" using o False by blast
    then show ?thesis using alive_destroyed [OF a' fd r'] False by (simp add: let_go_def life_ok_def d)
  qed
qed

lemma born_seed:
  assumes "life_ok st" and "li_stores st s = None" and "set (owners st') = insert s (set (owners st))" and "readable st' = readable st"
    and "li_fds st' = li_fds st" and "li_stores st' = li_stores st" and "ft = seed_fd opened s path (li_fds st) \<or> ft = download_fd opened resized s path (li_fds st)"
  shows "life_ok (born s ft st')"
proof -
  have b: "owners (born s ft st') = owners st'" "readable (born s ft st') = readable st'"
    by (simp_all add: born_def owners_def readable_def)
  have f: "li_fds (born s ft st') = snd ft" "li_stores (born s ft st') = (li_stores st')(s := Some (fst ft))"
    by (simp_all add: born_def)
  obtain fd t where o: "open_fd (Of_Store s path) (li_fds st) = (fd, t)" by fastforce
  have "fst ft = -1 \<and> fd_at (snd ft) = fd_at (li_fds st) \<or> fst ft = fd \<and> snd ft = t"
    using assms(7) o fds.open_close [OF o] by (auto simp: seed_fd_def download_fd_def split: if_splits)
  then show ?thesis
    using assms(1-6) fds.opened [OF o] alive_opened [of "li_stores st" "fd_at (li_fds st)" "set (owners st)" "readable st" s fd path]
      alive_not_opened [of "li_stores st" "fd_at (li_fds st)" "set (owners st)" "readable st" s]
    by (auto simp: life_ok_def b f)
qed

text \<open>The table of shares: what \<open>add_share\<close> and \<open>remove_share\<close> put in and take out.\<close>

lemma kept_put: "(a, b) \<in> set m \<Longrightarrow> (a, b) \<in> set (map_put k r m) \<or> map_find m k = Some b"
  and new_put: "(k, r) \<in> set (map_put k r m)"
  by (induction m) (auto split: if_splits)

lemma kept_erase: "(a, b) \<in> set m \<Longrightarrow> (a, b) \<in> set (map_erase k m) \<or> map_find m k = Some b"
  by (induction m) (auto split: if_splits)

lemma values_put: "snd ` set (map_put k r m) \<subseteq> insert r (snd ` set m)"
  "insert r (snd ` set m) \<subseteq> snd ` set (map_put k r m) \<union> set_option (map_find m k)"
  using set_map_put [of k r m] new_put [of k r m] kept_put [where m = m and k = k and r = r] by (force simp: image_iff)+

lemma values_erase: "snd ` set (map_erase k m) \<subseteq> snd ` set m" "snd ` set m \<subseteq> snd ` set (map_erase k m) \<union> set_option (map_find m k)"
  using set_map_erase [of k m] kept_erase [where m = m and k = k] by (force simp: image_iff)+

lemma values_found: "set_option (map_find m k) \<subseteq> snd ` set m"
  by (force dest: map_find_in)

lemma erased: "map_find m k = Some v \<Longrightarrow> snd ` set m = insert v (snd ` set (map_erase k m))"
  using values_erase [where k = k and m = m] values_found [where k = k and m = m] by auto

lemma owners_shares: "set (owners (st\<lparr>li_seeder := sd\<rparr>)) = snd ` set (sd_shares sd) \<union> (snd ` set (li_jobs st) \<union> snd ` set (li_serving st) \<union>
    set_option (li_local st))"
  by (auto simp: owners_def split: option.splits)

lemma owners_set: "set (owners st) = snd ` set (sd_shares (li_seeder st)) \<union> (snd ` set (li_jobs st) \<union> snd ` set (li_serving st) \<union>
    set_option (li_local st))"
  using owners_shares [where sd = "li_seeder st" and st = st] by simp

text \<open>Replacing the table by one that has lost at most \<open>old\<close> and gained at most what is owned and open.\<close>

lemma table_ok:
  assumes ok: "life_ok st" and sub: "snd ` set (sd_shares sd) \<subseteq> Z \<union> snd ` set (sd_shares (li_seeder st))"
    and rest: "snd ` set (sd_shares (li_seeder st)) \<subseteq> snd ` set (sd_shares sd) \<union> set_option old"
    and old: "set_option old \<subseteq> snd ` set (sd_shares (li_seeder st))"
    and z: "Z \<subseteq> set (owners st)" "\<forall>s \<in> Z. opened_as (li_stores st s)"
  shows "life_ok (let_go old (st\<lparr>li_seeder := sd\<rparr>))"
proof -
  let ?st = "st\<lparr>li_seeder := sd\<rparr>"
  have o: "set (owners st) = set_option old \<union> set (owners ?st)"
    using sub rest old z(1) unfolding owners_shares [where st = st and sd = sd] owners_set [where st = st] by blast
  have r: "readable ?st \<subseteq> Z \<union> readable st" using sub by (auto simp: readable_def)
  have a: "alive (li_stores ?st) (fd_at (li_fds ?st)) (set (owners st)) (Z \<union> readable st)"
    using ok z(2) by (auto simp: life_ok_def alive_def)
  show ?thesis
  proof (cases old)
    case None
    then show ?thesis using a o r by (auto simp: let_go_def life_ok_def alive_def)
  next
    case (Some s)
    then show ?thesis using let_go_ok [OF a _ r, of s] o by simp
  qed
qed

lemma share_store_ok:
  assumes "life_ok st" and "s \<in> set (owners st)" and "opened_as (li_stores st s)"
  shows "life_ok (share_store k s st)"
  unfolding share_store_def
  using assms values_put [where k = k and r = s and m = "sd_shares (li_seeder st)"] values_found [of "sd_shares (li_seeder st)" k]
  by (intro table_ok [where Z = "{s}"]) (auto simp: add_share_def find_share_def)

lemma unshare_store_ok: "life_ok st \<Longrightarrow> life_ok (unshare_store k st)"
  unfolding unshare_store_def
  using values_erase [where k = k and m = "sd_shares (li_seeder st)"] values_found [of "sd_shares (li_seeder st)" k]
  by (intro table_ok [where Z = "{}"]) (simp_all add: remove_share_def find_share_def)

lemma owned_by:
  "map_find (li_jobs st) j = Some s \<Longrightarrow> s \<in> set (owners st)"
  "map_find (li_serving st) t = Some s \<Longrightarrow> s \<in> set (owners st)"
  "find_share k (li_seeder st) = Some s \<Longrightarrow> s \<in> readable st"
  by (force simp: owners_def readable_def find_share_def dest: map_find_in)+

lemma life_step_ok: "life_step st st' \<Longrightarrow> life_ok st \<Longrightarrow> life_ok st'"
proof (induction rule: life_step.induct)
  case (upload st s opened path)
  then show ?case
    by (intro born_seed [of st s _ _ opened path]) (auto simp: owners_def readable_def)
next
  case (uploaded st s fd k)
  then show ?case by (intro share_store_ok) (auto simp: owners_def)
next
  case (upload_ends st s)
  then show ?case
    by (intro let_go_ok [where Own = "set (owners st)" and R = "readable st"]) (auto simp: life_ok_def owners_def readable_def)
next
  case (serves k st s t)
  have "s \<in> set (owners st)" "opened_as (li_stores st s)"
    using owned_by(3) [OF serves(1)] serves(3) readable_owned [of st] by (auto simp: life_ok_def alive_def)
  moreover have "set (owners (st\<lparr>li_serving := (t, s) # li_serving st\<rparr>)) = insert s (set (owners st))"
    "readable (st\<lparr>li_serving := (t, s) # li_serving st\<rparr>) = insert s (readable st)"
    by (auto simp: owners_def readable_def)
  ultimately show ?case using serves(3) by (simp add: life_ok_def alive_def insert_absorb)
next
  case (served st t s)
  then show ?case
    using erased [OF served(1)]
    by (intro let_go_ok [where Own = "set (owners st)" and R = "readable st"]) (auto simp: life_ok_def owners_set readable_def)
next
  case (download j st s opened resized path)
  then show ?case
    by (intro born_seed [of st s _ _ opened path resized]) (auto simp: owners_def readable_def)
next
  case (downloaded st j s fd k)
  then show ?case by (intro share_store_ok) (auto dest: owned_by)
next
  case (job_gone st j s)
  then show ?case
    using erased [OF job_gone(1)]
    by (intro let_go_ok [where Own = "set (owners st)" and R = "readable st"]) (auto simp: life_ok_def owners_set readable_def)
next
  case (socket_opened st fd t)
  then show ?case
    using fds.opened [OF socket_opened(1)] alive_socket_opened by (auto simp: life_ok_def owners_def readable_def)
next
  case (socket_closed st fd)
  then show ?case using alive_socket_closed by (auto simp: life_ok_def owners_def readable_def fds.closed)
qed (rule unshare_store_ok)

text \<open>Nobody touches the descriptor of a store that is owned before and after.\<close>

definition keeps :: "store_ref \<Rightarrow> store_life \<Rightarrow> store_life \<Rightarrow> bool" where
  "keeps s st st' \<longleftrightarrow> (\<forall>fd. li_stores st s = Some fd \<longrightarrow> 0 \<le> fd \<longrightarrow>
     li_stores st' s = Some fd \<and> fd_at (li_fds st') fd = fd_at (li_fds st) fd)"

lemma keeps_let_go:
  assumes ok: "life_ok st" and st1: "li_stores st1 = li_stores st" "li_fds st1 = li_fds st" and s: "s \<in> set (owners st1)"
  shows "keeps s st (let_go old st1)"
proof -
  have m: "owner_of (fd_at (li_fds st) fd) = Some r \<longleftrightarrow> li_stores st r = Some fd \<and> 0 \<le> fd" for fd r
    using ok by (simp add: life_ok_def alive_def)
  have "keeps s st (destroy r st1)" if "r \<noteq> s" for r
  proof (cases "li_stores st r")
    case (Some fd')
    have "fd' \<noteq> fd" if "li_stores st s = Some fd" "0 \<le> fd" for fd
      using m [of fd r] m [of fd s] Some that \<open>r \<noteq> s\<close> by auto
    then show ?thesis using Some st1 that by (auto simp: keeps_def destroy_def fds.closed)
  qed (simp add: keeps_def destroy_def st1)
  moreover have "keeps s st st1" by (simp add: keeps_def st1)
  ultimately show ?thesis using s by (cases old) (simp_all add: let_go_def, metis)
qed

lemma keeps_born:
  assumes "li_stores st r = None" and "li_stores st1 = li_stores st" and "li_fds st1 = li_fds st"
    and "ft = seed_fd opened r path (li_fds st) \<or> ft = download_fd opened resized r path (li_fds st)"
    and "\<forall>fd. li_stores st s = Some fd \<longrightarrow> 0 \<le> fd \<longrightarrow> fd_at (li_fds st) fd \<noteq> None"
  shows "keeps s st (born r ft st1)"
proof -
  obtain fd t where o: "open_fd (Of_Store r path) (li_fds st) = (fd, t)" by fastforce
  have "fd_at (snd ft) = fd_at (li_fds st) \<or> fd_at (snd ft) = (fd_at (li_fds st))(fd \<mapsto> Of_Store r path)"
    using assms(4) fds.open_close [OF o] fds.opened [OF o] o by (auto simp: seed_fd_def download_fd_def split: if_splits)
  then show ?thesis using assms(1-3,5) fds.opened [OF o] by (auto simp: keeps_def born_def)
qed

lemma owned_keeps:
  assumes "life_step st st'" and "life_ok st" and "s \<in> set (owners st')"
  shows "keeps s st st'"
proof -
  have m: "owner_of (fd_at (li_fds st) fd) = Some r \<longleftrightarrow> li_stores st r = Some fd \<and> 0 \<le> fd" for fd r
    using assms(2) by (simp add: life_ok_def alive_def)
  have used: "\<forall>fd. li_stores st s = Some fd \<longrightarrow> 0 \<le> fd \<longrightarrow> fd_at (li_fds st) fd \<noteq> None"
    using m by (metis option.distinct(1) owner_of_simps(1))
  have gone: "s \<in> set (owners st1)" if "s \<in> set (owners (let_go old st1))" for old st1
    using that by (auto simp: let_go_def destroy_def owners_def split: option.splits if_splits)
  note keep = keeps_let_go [OF assms(2) _ _ gone]
  show ?thesis
    using assms(1)
  proof cases
    case (upload r opened path)
    then show ?thesis using used by (auto intro: keeps_born)
  next
    case (uploaded r fd k)
    then show ?thesis using assms(3) by (auto simp: share_store_def intro: keep)
  next
    case (upload_ends r)
    then show ?thesis using assms(3) by (auto intro: keep)
  next
    case (stops_share k)
    then show ?thesis using assms(3) by (auto simp: unshare_store_def intro: keep)
  next
    case (serves k r t)
    then show ?thesis by (simp add: keeps_def)
  next
    case (served t r)
    then show ?thesis using assms(3) by (auto intro: keep)
  next
    case (download j r opened resized path)
    then show ?thesis using used by (auto intro: keeps_born)
  next
    case (downloaded j r fd k)
    then show ?thesis using assms(3) by (auto simp: share_store_def intro: keep)
  next
    case (job_gone j r)
    then show ?thesis using assms(3) by (auto intro: keep)
  next
    case (socket_opened fd t)
    then show ?thesis using fds.opened [OF socket_opened(2)] used by (auto simp: keeps_def)
  next
    case (socket_closed fd)
    then show ?thesis using m [of fd s] by (auto simp: keeps_def fds.closed)
  qed
qed

section \<open>The property\<close>

lemma life_start_ok: "sd_shares sd = [] \<Longrightarrow> \<forall>fd. owner_of (fd_at t fd) = None \<Longrightarrow> life_ok (life_start sd t)"
  by (simp add: life_ok_def alive_def life_start_def owners_def readable_def)

lemma life_run_ok: "life_step\<^sup>*\<^sup>* st st' \<Longrightarrow> life_ok st \<Longrightarrow> life_ok st'"
  by (induction rule: rtranclp_induct) (auto intro: life_step_ok)

text \<open>C19. A store lives exactly as long as somebody holds a pointer to it: in every state that uploads, downloads, peers being
  served and \<open>stop_share\<close> lead to, with sockets opened and closed in between, the stores that exist are those that have an owner, the
  open files are theirs, one each, and the file that a thread serves a piece from is open and stays the same file under the
  same descriptor for as long as the thread holds the store, whatever is removed or replaced in the table of shares.\<close>

theorem stores_outlive_their_users:
  assumes "life_step\<^sup>*\<^sup>* (life_start sd t) st" and "sd_shares sd = []" and "\<forall>fd. owner_of (fd_at t fd) = None"
  shows "(\<forall>s. li_stores st s \<noteq> None \<longleftrightarrow> s \<in> set (owners st)) \<and>
    (\<forall>s fd. owner_of (fd_at (li_fds st) fd) = Some s \<longleftrightarrow> li_stores st s = Some fd \<and> 0 \<le> fd) \<and>
    (\<forall>th s. (th, s) \<in> set (li_serving st) \<longrightarrow> (\<exists>fd. 0 \<le> fd \<and> li_stores st s = Some fd \<and> owner_of (fd_at (li_fds st) fd) = Some s \<and>
       (\<forall>st'. life_step st st' \<longrightarrow> (th, s) \<in> set (li_serving st') \<longrightarrow>
          li_stores st' s = Some fd \<and> fd_at (li_fds st') fd = fd_at (li_fds st) fd)))"
proof -
  have ok: "life_ok st" using life_run_ok [OF assms(1) life_start_ok [OF assms(2,3)]] .
  then have a: "\<forall>s. li_stores st s \<noteq> None \<longleftrightarrow> s \<in> set (owners st)"
    "\<forall>s fd. owner_of (fd_at (li_fds st) fd) = Some s \<longleftrightarrow> li_stores st s = Some fd \<and> 0 \<le> fd" "\<forall>s \<in> readable st. opened_as (li_stores st s)"
    by (simp_all add: life_ok_def alive_def)
  have "\<exists>fd. 0 \<le> fd \<and> li_stores st s = Some fd \<and> owner_of (fd_at (li_fds st) fd) = Some s \<and>
      (\<forall>st'. life_step st st' \<longrightarrow> (th, s) \<in> set (li_serving st') \<longrightarrow>
         li_stores st' s = Some fd \<and> fd_at (li_fds st') fd = fd_at (li_fds st) fd)" if s: "(th, s) \<in> set (li_serving st)" for th s
  proof -
    have "s \<in> readable st" using s by (force simp: readable_def)
    then obtain fd where fd: "li_stores st s = Some fd" "0 \<le> fd" using a(3) by (cases "li_stores st s") auto
    have "s \<in> set (owners st')" if "(th, s) \<in> set (li_serving st')" for st' using that by (force simp: owners_def)
    then show ?thesis using owned_keeps [OF _ ok] fd a(2) by (fastforce simp: keeps_def)
  qed
  then show ?thesis using a(1,2) by blast
qed

text \<open>File 8 of group 7 is uploaded and shared, thread 0 starts serving it, and the share is removed.\<close>

definition served_unshared :: store_life where
  "served_unshared = \<lparr>li_fds = [Some (Of_Store 4 [9])], li_stores = [4 \<mapsto> 0], li_seeder = new_seeder, li_jobs = [], li_serving = [(0, 4)],
     li_local = None\<rparr>"

lemma served_unshared_reached: "life_step\<^sup>*\<^sup>* (life_start new_seeder []) served_unshared"
proof -
  let ?k = "ShareKey [7] [8]" and ?s = "life_start new_seeder []" and ?fds = "[Some (Of_Store 4 [9])]"
  let ?on = "new_seeder\<lparr>sd_shares := [(?k, 4)]\<rparr>"
  let ?at = "\<lambda>sd l serving. \<lparr>li_fds = ?fds, li_stores = [4 \<mapsto> 0], li_seeder = sd, li_jobs = [], li_serving = serving, li_local = l\<rparr>"
  have 1: "life_step ?s (?at new_seeder (Some 4) [])"
    using upload [of ?s 4 True "[9]"] by (simp add: life_start_def born_def seed_fd_def open_fd_def)
  have 2: "life_step (?at new_seeder (Some 4) []) (?at ?on (Some 4) [])"
    using uploaded [of "?at new_seeder (Some 4) []" 4 0 ?k]
    by (simp add: share_store_def let_go_def add_share_def find_share_def new_seeder_def)
  have 3: "life_step (?at ?on (Some 4) []) (?at ?on None [])"
    using upload_ends [of "?at ?on (Some 4) []" 4] by (simp add: let_go_def owners_def)
  have 4: "life_step (?at ?on None []) (?at ?on None [(0, 4)])"
    using serves [of ?k "?at ?on None []" 4 0] by (simp add: find_share_def)
  have 5: "life_step (?at ?on None [(0, 4)]) served_unshared"
    using stops_share [of "?at ?on None [(0, 4)]" ?k]
    by (simp add: unshare_store_def let_go_def owners_def remove_share_def find_share_def served_unshared_def new_seeder_def)
  show ?thesis using 1 2 3 4 5 by (meson converse_rtranclp_into_rtranclp rtranclp.rtrancl_refl)
qed

theorem stores_outlive_their_users_witness:
  "\<exists>fd. 0 \<le> fd \<and> li_stores served_unshared 4 = Some fd \<and> owner_of (fd_at (li_fds served_unshared) fd) = Some 4 \<and>
    find_share (ShareKey [7] [8]) (li_seeder served_unshared) = None"
proof -
  have "\<forall>fd. owner_of (fd_at [] fd) = None" by (simp add: fd_at_def)
  then show ?thesis
    using stores_outlive_their_users [OF served_unshared_reached]
    by (simp add: served_unshared_def new_seeder_def find_share_def)
qed

end
