(* ===== verification/Typed_Buffer.thy ===== *)
theory Typed_Buffer
  imports Wire_Buffer
begin

text \<open>
  The class \<open>Buffer\<close> of \<open>common/buffer.*\<close> under any sequence of calls, with the values it takes and gives as one type: what the
  callers rely on without saying so. A message is a list of typed items; its schema is the list of their types.
\<close>

datatype item_type = T8 | T16 | T32 | T64 | T_Str | T_Raw nat

datatype item = I8 u8 | I16 u16 | I32 u32 | I64 u64 | I_Str bytes | I_Raw bytes

fun type_of :: "item \<Rightarrow> item_type" where
  "type_of (I8 v) = T8"
| "type_of (I16 v) = T16"
| "type_of (I32 v) = T32"
| "type_of (I64 v) = T64"
| "type_of (I_Str s) = T_Str"
| "type_of (I_Raw d) = T_Raw (length d)"

fun put_item :: "item \<Rightarrow> buffer \<Rightarrow> buffer" where
  "put_item (I8 v) = put_u8 v"
| "put_item (I16 v) = put_u16 v"
| "put_item (I32 v) = put_u32 v"
| "put_item (I64 v) = put_u64 v"
| "put_item (I_Str s) = put_str s"
| "put_item (I_Raw d) = put_raw d"

fun get_item :: "item_type \<Rightarrow> buffer \<Rightarrow> item option \<times> buffer" where
  "get_item T8 b = map_prod (map_option I8) id (get_u8 b)"
| "get_item T16 b = map_prod (map_option I16) id (get_u16 b)"
| "get_item T32 b = map_prod (map_option I32) id (get_u32 b)"
| "get_item T64 b = map_prod (map_option I64) id (get_u64 b)"
| "get_item T_Str b = map_prod (map_option I_Str) id (get_str b)"
| "get_item (T_Raw n) b = map_prod (map_option I_Raw) id (get_raw n b)"

text \<open>The calls of a program in order, and what its reads gave.\<close>

datatype buf_call = Put item | Get item_type

fun buf_run :: "buf_call list \<Rightarrow> buffer \<Rightarrow> (item_type \<times> item option) list \<times> buffer" where
  "buf_run [] b = ([], b)"
| "buf_run (Put x # cs) b = buf_run cs (put_item x b)"
| "buf_run (Get ty # cs) b =
     (case get_item ty b of (x, b) \<Rightarrow> (case buf_run cs b of (rs, b) \<Rightarrow> ((ty, x) # rs, b)))"

text \<open>\<open>size_t\<close> subtraction as the code has it.\<close>

definition remaining_u64 :: "buffer \<Rightarrow> u64" where
  "remaining_u64 b = of_nat (length (buf_data b)) - of_nat (buf_rpos b)"

section \<open>Types\<close>

definition puts_of :: "buf_call list \<Rightarrow> item list" where
  "puts_of cs = concat (map (\<lambda>c. case c of Put x \<Rightarrow> [x] | Get _ \<Rightarrow> []) cs)"

fun enc_item :: "item \<Rightarrow> bytes" where
  "enc_item (I8 v) = enc_u8 v"
| "enc_item (I16 v) = enc_u16 v"
| "enc_item (I32 v) = enc_u32 v"
| "enc_item (I64 v) = enc_u64 v"
| "enc_item (I_Str s) = enc_str s"
| "enc_item (I_Raw d) = d"

lemma put_item_data [simp]: "buf_data (put_item x b) = buf_data b @ enc_item x"
  by (cases x) simp_all

lemma put_item_rpos [simp]: "buf_rpos (put_item x b) = buf_rpos b"
  by (cases x) (simp_all add: put_u8_def put_u16_def put_u32_def put_u64_def put_str_def put_raw_def)

lemma get_raw_data: "get_raw n b = (x, b') \<Longrightarrow> buf_data b' = buf_data b \<and> (case x of None \<Rightarrow> True | Some d \<Rightarrow> buf_ok b \<longrightarrow> length d = n)"
  by (auto simp: get_raw_def remaining_def buf_ok_def split: if_splits)

lemma get_int_data: "get_int n b = (x, b') \<Longrightarrow> buf_data b' = buf_data b"
  by (auto simp: get_int_def split: prod.splits dest: get_raw_data)

lemma get_str_data: "get_str b = (x, b') \<Longrightarrow> buf_data b' = buf_data b"
  by (auto simp: get_str_def get_u32_def split: prod.splits option.splits if_splits dest: get_int_data)

lemma get_item_keeps:
  assumes "get_item ty b = (x, b')" and "buf_ok b"
  shows "buf_ok b' \<and> buf_data b' = buf_data b \<and> (case x of None \<Rightarrow> True | Some i \<Rightarrow> type_of i = ty)"
  using assms
  by (cases ty)
    (auto simp: get_u8_def get_u16_def get_u32_def get_u64_def map_prod_def split: prod.splits option.splits
      dest: get_int_data get_str_data get_raw_data buf_ok_get_int buf_ok_get_str buf_ok_get_raw)

lemma buf_run_keeps:
  "buf_run cs b = (rs, b') \<Longrightarrow> buf_ok b \<Longrightarrow>
   buf_ok b' \<and> buf_data b' = buf_data b @ concat (map enc_item (puts_of cs)) \<and>
   list_all (\<lambda>(ty, x). case x of None \<Rightarrow> True | Some i \<Rightarrow> type_of i = ty) rs"
proof (induction cs arbitrary: b rs)
  case (Cons c cs)
  show ?case
  proof (cases c)
    case (Put x)
    then have "buf_run cs (put_item x b) = (rs, b')" "buf_ok (put_item x b)"
      using Cons.prems by (simp_all add: buf_ok_def)
    from Cons.IH [OF this] show ?thesis using Put by (simp add: puts_of_def)
  next
    case (Get ty)
    obtain x b1 where x: "get_item ty b = (x, b1)" by fastforce
    obtain rs1 b2 where r: "buf_run cs b1 = (rs1, b2)" by fastforce
    note k = get_item_keeps [OF x Cons.prems(2)]
    have e: "rs = (ty, x) # rs1" "b' = b2" using Cons.prems(1) Get x r by simp_all
    have "buf_run cs b1 = (rs1, b')" using r e by simp
    from Cons.IH [OF this] k show ?thesis unfolding e using Get by (simp add: puts_of_def)
  qed
qed (simp add: puts_of_def)

text \<open>C40. A \<open>Buffer\<close> is safe under any sequence of writes and reads, of any types and on any bytes: the read position never passes the
  end, so that the unsigned subtraction of \<open>remaining\<close> does not wrap; reading changes no data and writing appends the encoding
  of its value; and a read that succeeds has a value of the type that was asked for, of the length that was asked for.\<close>

theorem buffer_calls_typed:
  assumes "buf_run cs (of_bytes d) = (rs, b)" and "length (buf_data b) < 2 ^ 64"
  shows "buf_rpos b \<le> length (buf_data b) \<and> unat (remaining_u64 b) = length (buf_data b) - buf_rpos b \<and>
    buf_data b = d @ concat (map enc_item (puts_of cs)) \<and> list_all (\<lambda>(ty, x). case x of None \<Rightarrow> True | Some i \<Rightarrow> type_of i = ty) rs"
proof -
  have k: "buf_ok b" "buf_data b = d @ concat (map enc_item (puts_of cs))"
    "list_all (\<lambda>(ty, x). case x of None \<Rightarrow> True | Some i \<Rightarrow> type_of i = ty) rs"
    using buf_run_keeps [OF assms(1) buf_ok_new(2)] by (simp_all add: of_bytes_def)
  then have le: "buf_rpos b \<le> length (buf_data b)" by (simp add: buf_ok_def)
  then have "remaining_u64 b = of_nat (length (buf_data b) - buf_rpos b)" by (simp add: remaining_u64_def of_nat_diff)
  moreover have "length (buf_data b) - buf_rpos b < 2 ^ 64" using assms(2) by simp
  ultimately have "unat (remaining_u64 b) = length (buf_data b) - buf_rpos b" by (simp add: unat_of_nat)
  then show ?thesis using k le by simp
qed

theorem buffer_calls_typed_witness:
  "fst (buf_run [Get T8, Put (I16 5), Get T64, Get T_Str] (of_bytes [7])) = [(T8, Some (I8 7)), (T64, None), (T_Str, None)] \<and>
   unat (remaining_u64 (snd (buf_run [Get T8, Put (I16 5), Get T64, Get T_Str] (of_bytes [7])))) = 2"
proof -
  have r: "buf_run [Get T8, Put (I16 5), Get T64, Get T_Str] (of_bytes [7]) =
    ([(T8, Some (I8 7)), (T64, None), (T_Str, None)], \<lparr>buf_data = [7] @ enc_u16 5, buf_rpos = 1\<rparr>)"
    by (simp add: of_bytes_def get_u8_def get_u64_def get_u32_def get_str_def get_int_def get_raw_def remaining_def put_u16_def
        put_raw_def enc_u16_def)
  let ?b = "\<lparr>buf_data = [7] @ enc_u16 5, buf_rpos = 1\<rparr>"
  have "length (buf_data ?b) < 2 ^ 64" by simp
  from buffer_calls_typed [OF r this] have "unat (remaining_u64 ?b) = length (buf_data ?b) - buf_rpos ?b" by (elim conjE)
  then show ?thesis unfolding r by simp
qed

section \<open>Schemas\<close>

fun item_ok :: "item \<Rightarrow> bool" where
  "item_ok (I_Str s) = str_ok s"
| "item_ok _ = True"

lemma get_item_enc: "item_ok x \<Longrightarrow> get_item (type_of x) (buf_at pre (enc_item x @ rest)) = (Some x, buf_at (pre @ enc_item x) rest)"
  by (cases x) (simp_all add: u8_codec.get_enc u16_codec.get_enc u32_codec.get_enc u64_codec.get_enc str_codec.get_enc get_raw_at)

text \<open>A message that was written item by item is read back by its schema, whatever follows it.\<close>

lemma schema_roundtrip:
  "list_all item_ok xs \<Longrightarrow> buf_run (map (Get \<circ> type_of) xs) (buf_at pre (concat (map enc_item xs) @ rest)) =
    (map (\<lambda>x. (type_of x, Some x)) xs, buf_at (pre @ concat (map enc_item xs)) rest)"
proof (induction xs arbitrary: pre)
  case (Cons x xs)
  then show ?case by (simp add: get_item_enc)
qed simp

end
