(* ===== verification/Tracker_Threads.thy ===== *)
theory Tracker_Threads
  imports Tracker_Session "HOL-Library.Multiset"
begin

text \<open>
  The session threads of one tracker as they really interleave. A request that changes the tables takes the lock of
  \<open>TrackerState\<close> for the operation, the lock \<open>__mu_lock\<close> of \<open>SyncManager\<close> to record it, and \<open>__send_mu\<close> to
  send it; between them other threads run. \<open>dispatch\<close> of theory \<open>Tracker_Session\<close> is the schedule without
  interruption. The theory shows what every schedule keeps and what a bad one breaks. Requests that change nothing, and login and logout,
  which are not recorded, are left out.
\<close>

section \<open>The critical sections of \<open>record_and_replicate\<close>\<close>

text \<open>The first, under \<open>__mu_lock\<close>: the operation, the descriptor it will be sent to, and the manager.\<close>

definition record_op :: "u64 \<Rightarrow> u16 \<Rightarrow> bytes \<Rightarrow> sync_mgr \<Rightarrow> sync_op \<times> int \<times> sync_mgr" where
  "record_op now type payload m =
    (let op = \<lparr>op_seq = sm_next_seq m, op_type = type, op_payload = payload, op_ts = now\<rparr>
     in (op, sm_out_fd m, m\<lparr>sm_next_seq := sm_next_seq m + 1, sm_log := sm_log m @ [op]\<rparr>))"

text \<open>Without interruption the two sections are \<open>record_and_replicate\<close>.\<close>

lemma record_and_replicate_split:
  "record_and_replicate now type payload m =
    (case record_op now type payload m of (op, fd, m') \<Rightarrow> (m', if fd < 0 then [] else [send_op fd op]))"
  by (simp add: record_and_replicate_def record_op_def Let_def)

section \<open>The threads\<close>

text \<open>
  Between requests, after the operation on the tables, and after recording. \<open>tt_hist\<close>, \<open>tt_log\<close>, \<open>tt_sent\<close> and \<open>tt_acks\<close> only
  observe: the operations in the order in which the tables took them, all that were ever recorded, what was sent, and the
  numbers that the peer has acknowledged. The log of the program is \<open>sm_log\<close>.
\<close>

datatype thread_pc = Th_Idle | Th_Applied u16 bytes | Th_Recorded int sync_op

record threads =
  tt_tracker :: tracker
  tt_pc :: "thread_pc list"
  tt_hist :: "(u16 \<times> bytes) list"
  tt_log :: "sync_op list"
  tt_sent :: "(int \<times> sync_op) list"
  tt_acks :: "u64 list"

definition payload_cmd :: "u16 \<Rightarrow> bytes \<Rightarrow> tracker_cmd option" where
  "payload_cmd type payload = op_cmd \<lparr>op_seq = 0, op_type = type, op_payload = payload, op_ts = 0\<rparr>"

definition threads_start :: "tracker \<Rightarrow> nat \<Rightarrow> threads" where
  "threads_start t n = \<lparr>tt_tracker = t, tt_pc = replicate n Th_Idle, tt_hist = [], tt_log = [], tt_sent = [], tt_acks = []\<rparr>"

text \<open>\<open>acknowledged\<close> and \<open>relinked\<close> are the peer thread, which trims the log and changes the descriptor.\<close>

inductive thread_step :: "threads \<Rightarrow> threads \<Rightarrow> bool" where
  applies: "i < length (tt_pc s) \<Longrightarrow> tt_pc s ! i = Th_Idle \<Longrightarrow> payload_cmd type payload = Some c \<Longrightarrow>
    exec c (tr_state (tt_tracker s)) = (ST_OK, st) \<Longrightarrow>
    thread_step s (s\<lparr>tt_tracker := (tt_tracker s)\<lparr>tr_state := st\<rparr>, tt_pc := (tt_pc s)[i := Th_Applied type payload],
      tt_hist := tt_hist s @ [(type, payload)]\<rparr>)"
| records: "i < length (tt_pc s) \<Longrightarrow> tt_pc s ! i = Th_Applied type payload \<Longrightarrow>
    record_op now type payload (tr_sync (tt_tracker s)) = (op, fd, m) \<Longrightarrow>
    thread_step s (s\<lparr>tt_tracker := (tt_tracker s)\<lparr>tr_sync := m\<rparr>,
      tt_pc := (tt_pc s)[i := if fd < 0 then Th_Idle else Th_Recorded fd op], tt_log := tt_log s @ [op]\<rparr>)"
| sends_it: "i < length (tt_pc s) \<Longrightarrow> tt_pc s ! i = Th_Recorded fd op \<Longrightarrow>
    thread_step s (s\<lparr>tt_pc := (tt_pc s)[i := Th_Idle], tt_sent := tt_sent s @ [(fd, op)]\<rparr>)"
| acknowledged: "thread_step s (s\<lparr>tt_tracker := (tt_tracker s)\<lparr>tr_sync :=
      (tr_sync (tt_tracker s))\<lparr>sm_log := trim_log sq (sm_log (tr_sync (tt_tracker s)))\<rparr>\<rparr>,
      tt_acks := tt_acks s @ [sq]\<rparr>)"
| relinked: "thread_step s (s\<lparr>tt_tracker := set_fd fd (tt_tracker s)\<rparr>)"

section \<open>The invariant\<close>

fun pc_applied :: "thread_pc \<Rightarrow> (u16 \<times> bytes) multiset" where
  "pc_applied (Th_Applied type payload) = {#(type, payload)#}"
| "pc_applied _ = {#}"

fun pc_recorded :: "thread_pc \<Rightarrow> sync_op multiset" where
  "pc_recorded (Th_Recorded fd op) = {#op#}"
| "pc_recorded _ = {#}"

definition op_key :: "sync_op \<Rightarrow> u16 \<times> bytes" where
  "op_key op = (op_type op, op_payload op)"

text \<open>
  Every operation the tables took is in the log or on its way there; the log is numbered in order; what was sent or is about
  to be sent was recorded; the log of the manager is the end of it, and what is not in it any more has been acknowledged.
\<close>

definition threads_ok :: "threads \<Rightarrow> bool" where
  "threads_ok s \<longleftrightarrow>
     mset (map op_key (tt_log s)) + (\<Sum>pc\<leftarrow>tt_pc s. pc_applied pc) = mset (tt_hist s) \<and>
     map op_seq (tt_log s) = map of_nat [1..<Suc (length (tt_log s))] \<and>
     sm_next_seq (tr_sync (tt_tracker s)) = of_nat (Suc (length (tt_log s))) \<and>
     mset (map snd (tt_sent s)) + (\<Sum>pc\<leftarrow>tt_pc s. pc_recorded pc) \<subseteq># mset (tt_log s) \<and>
     (\<exists>old. tt_log s = old @ sm_log (tr_sync (tt_tracker s)) \<and> (\<forall>op \<in> set old. \<exists>a \<in> set (tt_acks s). op_seq op \<le> a))"

lemma sum_list_upd:
  fixes f :: "'a \<Rightarrow> 'b multiset"
  shows "i < length xs \<Longrightarrow> (\<Sum>x\<leftarrow>xs[i := y]. f x) + f (xs ! i) = (\<Sum>x\<leftarrow>xs. f x) + f y"
proof (induction xs arbitrary: i)
  case (Cons x xs)
  then show ?case by (cases i) (auto simp: ac_simps)
qed simp

lemma sum_none: "sum_list (replicate n {#}) = {#}"
  by (induction n) auto

lemma threads_start_ok: "sm_next_seq (tr_sync t) = 1 \<Longrightarrow> sm_log (tr_sync t) = [] \<Longrightarrow> threads_ok (threads_start t n)"
  by (simp add: threads_ok_def threads_start_def sum_none)

lemma trim_suffix: "\<exists>old. l = old @ trim_log sq l \<and> (\<forall>op \<in> set old. op_seq op \<le> sq)"
  unfolding trim_log_def by (metis set_takeWhileD takeWhile_dropWhile_id)

lemma thread_step_ok: "thread_step s s' \<Longrightarrow> threads_ok s \<Longrightarrow> threads_ok s'"
proof (induction rule: thread_step.induct)
  case (applies i s type payload c st)
  have "(\<Sum>pc\<leftarrow>(tt_pc s)[i := Th_Applied type payload]. pc_applied pc) = (\<Sum>pc\<leftarrow>tt_pc s. pc_applied pc) + {#(type, payload)#}"
    "(\<Sum>pc\<leftarrow>(tt_pc s)[i := Th_Applied type payload]. pc_recorded pc) = (\<Sum>pc\<leftarrow>tt_pc s. pc_recorded pc)"
    using sum_list_upd [of i "tt_pc s" pc_applied "Th_Applied type payload"]
      sum_list_upd [of i "tt_pc s" pc_recorded "Th_Applied type payload"] applies.hyps by simp_all
  then show ?case using applies.prems unfolding threads_ok_def by (simp flip: add.assoc)
next
  case (records i s type payload now op fd m)
  define q where "q = (if fd < 0 then Th_Idle else Th_Recorded fd op)"
  have r: "op_seq op = sm_next_seq (tr_sync (tt_tracker s))" "op_key op = (type, payload)"
    "sm_next_seq m = sm_next_seq (tr_sync (tt_tracker s)) + 1" "sm_log m = sm_log (tr_sync (tt_tracker s)) @ [op]"
    using records.hyps(3) by (auto simp: record_op_def Let_def op_key_def)
  have 1: "(\<Sum>pc\<leftarrow>(tt_pc s)[i := q]. pc_applied pc) + {#(type, payload)#} = (\<Sum>pc\<leftarrow>tt_pc s. pc_applied pc)"
    using sum_list_upd [of i "tt_pc s" pc_applied q] records.hyps(1,2) by (simp add: q_def split: if_splits)
  have 2: "(\<Sum>pc\<leftarrow>(tt_pc s)[i := q]. pc_recorded pc) \<subseteq># (\<Sum>pc\<leftarrow>tt_pc s. pc_recorded pc) + {#op#}"
    using sum_list_upd [of i "tt_pc s" pc_recorded q] records.hyps(1,2) by (simp add: q_def split: if_splits)
  have "mset (map op_key (tt_log s)) + (\<Sum>pc\<leftarrow>tt_pc s. pc_applied pc) = mset (tt_hist s)"
    using records.prems unfolding threads_ok_def by blast
  then have "mset (map op_key (tt_log s @ [op])) + (\<Sum>pc\<leftarrow>(tt_pc s)[i := q]. pc_applied pc) = mset (tt_hist s)"
    unfolding 1 [symmetric] using r(2) by (simp add: ac_simps)
  moreover have "mset (map snd (tt_sent s)) + (\<Sum>pc\<leftarrow>(tt_pc s)[i := q]. pc_recorded pc) \<subseteq># mset (tt_log s @ [op])"
  proof -
    have "mset (map snd (tt_sent s)) + (\<Sum>pc\<leftarrow>(tt_pc s)[i := q]. pc_recorded pc) \<subseteq>#
        mset (map snd (tt_sent s)) + ((\<Sum>pc\<leftarrow>tt_pc s. pc_recorded pc) + {#op#})"
      using 2 by (intro subset_mset.add_left_mono)
    also have "\<dots> = (mset (map snd (tt_sent s)) + (\<Sum>pc\<leftarrow>tt_pc s. pc_recorded pc)) + {#op#}" by (simp add: ac_simps)
    also have "\<dots> \<subseteq># mset (tt_log s) + {#op#}"
      using records.prems unfolding threads_ok_def by (intro subset_mset.add_right_mono) blast
    finally show ?thesis by simp
  qed
  ultimately show ?case using records.prems r by (simp add: threads_ok_def flip: q_def)
next
  case (sends_it i s fd op)
  have 1: "(\<Sum>pc\<leftarrow>(tt_pc s)[i := Th_Idle]. pc_applied pc) = (\<Sum>pc\<leftarrow>tt_pc s. pc_applied pc)"
    and 2: "(\<Sum>pc\<leftarrow>(tt_pc s)[i := Th_Idle]. pc_recorded pc) + {#op#} = (\<Sum>pc\<leftarrow>tt_pc s. pc_recorded pc)"
    using sum_list_upd [of i "tt_pc s" pc_applied Th_Idle] sum_list_upd [of i "tt_pc s" pc_recorded Th_Idle] sends_it.hyps
    by simp_all
  have "mset (map snd (tt_sent s)) + (\<Sum>pc\<leftarrow>tt_pc s. pc_recorded pc) \<subseteq># mset (tt_log s)"
    using sends_it.prems unfolding threads_ok_def by blast
  then have "mset (map snd (tt_sent s @ [(fd, op)])) + (\<Sum>pc\<leftarrow>(tt_pc s)[i := Th_Idle]. pc_recorded pc) \<subseteq># mset (tt_log s)"
    unfolding 2 [symmetric] by (simp add: ac_simps)
  then show ?case using sends_it.prems 1 by (simp add: threads_ok_def)
next
  case (acknowledged s sq)
  let ?l = "sm_log (tr_sync (tt_tracker s))"
  obtain old where old: "tt_log s = old @ ?l" "\<forall>op \<in> set old. \<exists>a \<in> set (tt_acks s). op_seq op \<le> a"
    using acknowledged unfolding threads_ok_def by blast
  obtain cut where cut: "?l = cut @ trim_log sq ?l" "\<forall>op \<in> set cut. op_seq op \<le> sq" using trim_suffix by blast
  have "tt_log s = (old @ cut) @ trim_log sq ?l" using old(1) cut(1) by simp
  moreover have "\<forall>op \<in> set (old @ cut). \<exists>a \<in> set (tt_acks s @ [sq]). op_seq op \<le> a" using old(2) cut(2) by auto
  ultimately show ?case using acknowledged unfolding threads_ok_def by (simp del: append_assoc)
next
  case (relinked s fd)
  then show ?case by (simp add: threads_ok_def set_fd_def)
qed

section \<open>The tables follow the history\<close>

definition replay :: "(u16 \<times> bytes) list \<Rightarrow> tracker_state \<Rightarrow> tracker_state" where
  "replay ks = fold (\<lambda>k st. case payload_cmd (fst k) (snd k) of None \<Rightarrow> st | Some c \<Rightarrow> step c st) ks"

lemma thread_step_replay:
  "thread_step s s' \<Longrightarrow> tr_state (tt_tracker s) = replay (tt_hist s) st0 \<Longrightarrow> tr_state (tt_tracker s') = replay (tt_hist s') st0"
  by (induction rule: thread_step.induct) (auto simp: replay_def step_def set_fd_def)

lemma threads_reach:
  assumes "thread_step\<^sup>*\<^sup>* (threads_start t n) s" and "sm_next_seq (tr_sync t) = 1" and "sm_log (tr_sync t) = []"
  shows "threads_ok s \<and> tr_state (tt_tracker s) = replay (tt_hist s) (tr_state t)"
  using assms(1)
proof (induction rule: rtranclp_induct)
  case base
  then show ?case using threads_start_ok assms(2,3) by (simp add: threads_start_def replay_def)
next
  case (step y z)
  then show ?case using thread_step_ok thread_step_replay by blast
qed

text \<open>What the peer makes of a log is \<open>apply_ops\<close> of theory \<open>Tracker_Sync\<close>.\<close>

lemma apply_ops_replay: "apply_ops ops st0 = replay (map op_key ops) st0"
proof -
  have "snd (apply_remote op st) = (case payload_cmd (fst (op_key op)) (snd (op_key op)) of None \<Rightarrow> st | Some c \<Rightarrow> step c st)"
    for op st
  proof -
    have "op_cmd op = payload_cmd (op_type op) (op_payload op)" by (simp add: op_cmd_def payload_cmd_def)
    then show ?thesis by (simp add: apply_remote_cmd op_key_def)
  qed
  then show ?thesis by (simp add: apply_ops_def replay_def fold_map comp_def)
qed

section \<open>Schedules that do not overtake\<close>

text \<open>At most one thread is between its operation and its record: what a single lock around both would give.\<close>

fun pc_pending :: "thread_pc \<Rightarrow> (u16 \<times> bytes) list" where
  "pc_pending (Th_Applied type payload) = [(type, payload)]"
| "pc_pending _ = []"

definition pending :: "threads \<Rightarrow> (u16 \<times> bytes) list" where
  "pending s = concat (map pc_pending (tt_pc s))"

definition unraced_step :: "threads \<Rightarrow> threads \<Rightarrow> bool" where
  "unraced_step s s' \<longleftrightarrow> thread_step s s' \<and> length (pending s') \<le> 1"

lemma pending_upd_none:
  "i < length pcs \<Longrightarrow> pc_pending (pcs ! i) = [] \<Longrightarrow> pc_pending pc = [] \<Longrightarrow>
   concat (map pc_pending (pcs[i := pc])) = concat (map pc_pending pcs)"
proof (induction pcs arbitrary: i)
  case (Cons p pcs)
  then show ?case by (cases i) auto
qed simp

lemma length_pending_upd:
  "i < length pcs \<Longrightarrow> length (concat (map pc_pending (pcs[i := pc]))) + length (pc_pending (pcs ! i)) =
   length (concat (map pc_pending pcs)) + length (pc_pending pc)"
proof (induction pcs arbitrary: i)
  case (Cons p pcs)
  then show ?case by (cases i) auto
qed simp

lemma in_pending: "i < length pcs \<Longrightarrow> set (pc_pending (pcs ! i)) \<subseteq> set (concat (map pc_pending pcs))"
  using nth_mem by fastforce

lemma unraced_step_hist:
  assumes "unraced_step s s'" and "map op_key (tt_log s) @ pending s = tt_hist s" and "length (pending s) \<le> 1"
  shows "map op_key (tt_log s') @ pending s' = tt_hist s'"
proof -
  have le: "length (pending s') \<le> 1" and "thread_step s s'" using assms(1) by (simp_all add: unraced_step_def)
  from this(2) le assms(2,3) show ?thesis
  proof (induction rule: thread_step.induct)
    case (applies i s type payload c st)
    let ?pcs = "(tt_pc s)[i := Th_Applied type payload]"
    have "pending s = []"
      using length_pending_upd [of i "tt_pc s" "Th_Applied type payload"] applies by (simp add: pending_def)
    then have "map op_key (tt_log s) = tt_hist s" using applies.prems(2) by simp
    moreover have "concat (map pc_pending ?pcs) = [(type, payload)]"
    proof -
      have "(type, payload) \<in> set (concat (map pc_pending ?pcs))"
        using in_pending [of i ?pcs] applies.hyps(1) by auto
      moreover have "length (concat (map pc_pending ?pcs)) \<le> 1" using applies.prems(1) by (simp add: pending_def)
      ultimately show ?thesis by (cases "concat (map pc_pending ?pcs)") auto
    qed
    ultimately show ?case by (simp add: pending_def)
  next
    case (records i s type payload now op fd m)
    define q where "q = (if fd < 0 then Th_Idle else Th_Recorded fd op)"
    have q: "pc_pending q = []" by (simp add: q_def)
    have p: "pending s = [(type, payload)]"
      using in_pending [of i "tt_pc s"] records.hyps(1,2) records.prems(3)
      by (cases "concat (map pc_pending (tt_pc s))") (auto simp: pending_def)
    have "length (concat (map pc_pending ((tt_pc s)[i := q]))) = 0"
      using length_pending_upd [of i "tt_pc s" q] records.hyps(1,2) p q by (simp add: pending_def)
    then have "concat (map pc_pending ((tt_pc s)[i := q])) = []" by (simp only: length_0_conv)
    moreover have "op_key op = (type, payload)" using records.hyps(3) by (auto simp: record_op_def Let_def op_key_def)
    ultimately show ?case using records.prems(2) p by (simp add: pending_def flip: q_def)
  next
    case (sends_it i s fd op)
    then show ?case using pending_upd_none [of i "tt_pc s" Th_Idle] by (simp add: pending_def)
  qed (simp_all add: pending_def set_fd_def)
qed

lemma unraced_reach:
  "unraced_step\<^sup>*\<^sup>* (threads_start t n) s \<Longrightarrow>
   thread_step\<^sup>*\<^sup>* (threads_start t n) s \<and> length (pending s) \<le> 1 \<and> map op_key (tt_log s) @ pending s = tt_hist s"
proof (induction rule: rtranclp_induct)
  case base
  have "pending (threads_start t n) = []" by (simp add: pending_def threads_start_def)
  then show ?case by (simp add: threads_start_def)
next
  case (step y z)
  then show ?case
    using unraced_step_hist [of y z] by (auto simp: unraced_step_def intro: rtranclp.rtrancl_into_rtrancl)
qed

section \<open>The properties of the session threads\<close>


text \<open>If no thread overtakes another between its operation and its record, then whenever all are idle the recorded log takes a
  peer that started from the same tables to exactly the tables of this tracker.\<close>

lemma unraced_replica_agrees:
  assumes "unraced_step\<^sup>*\<^sup>* (threads_start t n) s" and "sm_next_seq (tr_sync t) = 1" and "sm_log (tr_sync t) = []"
    and "\<forall>pc \<in> set (tt_pc s). pc = Th_Idle"
  shows "apply_ops (tt_log s) (tr_state t) = tr_state (tt_tracker s)"
proof -
  note u = unraced_reach [OF assms(1)]
  have "pending s = []" using assms(4) by (auto simp: pending_def)
  then show ?thesis using threads_reach [OF _ assms(2,3), of n s] u by (simp add: apply_ops_replay)
qed

text \<open>Two users of a tracker that is not linked: one creates a group, the other applies for it.\<close>

definition two_users :: tracker where
  "two_users = \<lparr>tr_state = fold step [CreateUser [1] [7], CreateUser [5] [7]] new_tracker, tr_sync = new_sync\<rparr>"

definition make_group :: "u16 \<times> bytes" where
  "make_group = (msg_code MSG_CREATE_GROUP, enc_str [2] @ enc_str [1])"

definition ask_group :: "u16 \<times> bytes" where
  "ask_group = (msg_code MSG_JOIN_GROUP, enc_str [2] @ enc_str [5])"

definition key_op :: "u64 \<Rightarrow> u16 \<times> bytes \<Rightarrow> sync_op" where
  "key_op sq k = \<lparr>op_seq = sq, op_type = fst k, op_payload = snd k, op_ts = 0\<rparr>"

lemma two_keys:
  "payload_cmd (fst make_group) (snd make_group) = Some (CreateGroup [2] [1])"
  "payload_cmd (fst ask_group) (snd ask_group) = Some (JoinGroup [2] [5])"
  by (simp_all add: payload_cmd_def make_group_def ask_group_def op_cmd_def rd_str2_def str_ok_def wire)

lemma two_state: "tr_state two_users =
    \<lparr>ts_users = [([1], \<lparr>u_id = [1], u_password = hash_password [7], u_online = False, u_ip = [], u_port = 0\<rparr>),
                ([5], \<lparr>u_id = [5], u_password = hash_password [7], u_online = False, u_ip = [], u_port = 0\<rparr>)], ts_groups = []\<rparr>"
  by (simp add: two_users_def step_def create_user_def set_user_def new_tracker_def has_key_def)

definition grouped :: "bytes list \<Rightarrow> tracker_state" where
  "grouped ps = (tr_state two_users)\<lparr>ts_groups := [([2], \<lparr>g_id = [2], g_owner = [1], g_members = [[1]], g_pending = ps, g_files = []\<rparr>)]\<rparr>"

lemma two_steps:
  "exec (CreateGroup [2] [1]) (tr_state two_users) = (ST_OK, grouped [])"
  "exec (JoinGroup [2] [5]) (grouped []) = (ST_OK, grouped [[5]])"
  "step (JoinGroup [2] [5]) (tr_state two_users) = tr_state two_users"
  "step (CreateGroup [2] [1]) (tr_state two_users) = grouped []"
  by (simp_all add: two_state grouped_def step_def create_group_def join_group_def set_group_def has_key_def)

definition racing :: "tracker_state \<Rightarrow> thread_pc list \<Rightarrow> (u16 \<times> bytes) list \<Rightarrow> sync_op list \<Rightarrow> threads" where
  "racing st pcs hist log = \<lparr>tt_tracker = \<lparr>tr_state = st, tr_sync = \<lparr>sm_next_seq = of_nat (Suc (length log)), sm_applied = 0,
     sm_log = log, sm_out_fd = -1\<rparr>\<rparr>, tt_pc = pcs, tt_hist = hist, tt_log = log, tt_sent = [], tt_acks = []\<rparr>"

lemma racing_start: "threads_start two_users 2 = racing (tr_state two_users) [Th_Idle, Th_Idle] [] []"
  by (simp add: threads_start_def racing_def two_users_def new_sync_def numeral_2_eq_2)

lemma racing_applies:
  assumes "i < length pcs" and "pcs ! i = Th_Idle" and "payload_cmd (fst k) (snd k) = Some c" and "exec c st = (ST_OK, st')"
    and "pcs' = pcs[i := Th_Applied (fst k) (snd k)]"
  shows "thread_step (racing st pcs hist log) (racing st' pcs' (hist @ [k]) log)"
  using applies [of i "racing st pcs hist log" "fst k" "snd k" c st'] assms by (simp add: racing_def)

lemma racing_records:
  assumes "i < length pcs" and "pcs ! i = Th_Applied (fst k) (snd k)" and "pcs' = pcs[i := Th_Idle]"
  shows "thread_step (racing st pcs hist log) (racing st pcs' hist (log @ [key_op (of_nat (Suc (length log))) k]))"
proof -
  let ?s = "racing st pcs hist log"
  have "record_op 0 (fst k) (snd k) (tr_sync (tt_tracker ?s)) = (key_op (of_nat (Suc (length log))) k, -1,
      tr_sync (tt_tracker (racing st pcs' hist (log @ [key_op (of_nat (Suc (length log))) k]))))"
    by (simp add: record_op_def racing_def key_op_def Let_def)
  from records [OF _ _ this] assms show ?thesis by (simp add: racing_def)
qed

text \<open>The second thread records first.\<close>

abbreviation applied :: "u16 \<times> bytes \<Rightarrow> thread_pc" where
  "applied k \<equiv> Th_Applied (fst k) (snd k)"

lemma overtaken: "thread_step\<^sup>*\<^sup>* (threads_start two_users 2)
    (racing (grouped [[5]]) [Th_Idle, Th_Idle] [make_group, ask_group] [key_op 1 ask_group, key_op 2 make_group])"
proof -
  have 1: "thread_step (threads_start two_users 2) (racing (grouped []) [applied make_group, Th_Idle] [make_group] [])"
    unfolding racing_start using racing_applies [where i = 0, OF _ _ two_keys(1) two_steps(1)]
    by (metis append_Nil length_Cons list_update_code(2) nth_Cons_0 zero_less_Suc)
  have 2: "thread_step (racing (grouped []) [applied make_group, Th_Idle] [make_group] [])
      (racing (grouped [[5]]) [applied make_group, applied ask_group] [make_group, ask_group] [])"
    using racing_applies [where i = 1 and pcs = "[applied make_group, Th_Idle]" and hist = "[make_group]" and log = "[]",
        OF _ _ two_keys(2) two_steps(2)] by simp
  have 3: "thread_step (racing (grouped [[5]]) [applied make_group, applied ask_group] [make_group, ask_group] [])
      (racing (grouped [[5]]) [applied make_group, Th_Idle] [make_group, ask_group] [key_op 1 ask_group])"
    using racing_records [where i = 1 and pcs = "[applied make_group, applied ask_group]" and log = "[]"] by simp
  have 4: "thread_step (racing (grouped [[5]]) [applied make_group, Th_Idle] [make_group, ask_group] [key_op 1 ask_group])
      (racing (grouped [[5]]) [Th_Idle, Th_Idle] [make_group, ask_group] [key_op 1 ask_group, key_op 2 make_group])"
    using racing_records [where i = 0 and pcs = "[applied make_group, Th_Idle]" and log = "[key_op 1 ask_group]"] by simp
  show ?thesis using 1 2 3 4 by (meson rtranclp.rtrancl_into_rtrancl rtranclp.rtrancl_refl)
qed

text \<open>One thread at a time: the first finishes its record before the second begins.\<close>

lemma in_turn: "unraced_step\<^sup>*\<^sup>* (threads_start two_users 2)
    (racing (grouped []) [Th_Idle, Th_Idle] [make_group] [key_op 1 make_group])"
proof -
  have 1: "thread_step (threads_start two_users 2) (racing (grouped []) [applied make_group, Th_Idle] [make_group] [])"
    unfolding racing_start using racing_applies [where i = 0 and pcs = "[Th_Idle, Th_Idle]" and hist = "[]" and log = "[]",
        OF _ _ two_keys(1) two_steps(1)] by simp
  have 2: "thread_step (racing (grouped []) [applied make_group, Th_Idle] [make_group] [])
      (racing (grouped []) [Th_Idle, Th_Idle] [make_group] [key_op 1 make_group])"
    using racing_records [where i = 0 and pcs = "[applied make_group, Th_Idle]" and log = "[]"] by simp
  have "unraced_step (threads_start two_users 2) (racing (grouped []) [applied make_group, Th_Idle] [make_group] [])"
    "unraced_step (racing (grouped []) [applied make_group, Th_Idle] [make_group] [])
      (racing (grouped []) [Th_Idle, Th_Idle] [make_group] [key_op 1 make_group])"
    using 1 2 by (simp_all add: unraced_step_def pending_def racing_def)
  then show ?thesis by (meson rtranclp.rtrancl_into_rtrancl rtranclp.rtrancl_refl)
qed


lemma unraced_replica_agrees_witness: "apply_ops [key_op 1 make_group] (tr_state two_users) = grouped []"
  using unraced_replica_agrees [OF in_turn] by (simp add: racing_def two_users_def new_sync_def)

text \<open>Two session threads can make the trackers differ for good: the operation and its record are under different locks, so
  that the log may have them the other way round; here one user creates a group, another applies for it, and a peer that applies the
  complete log in its order never learns of the application.\<close>

lemma race_diverges:
  "\<exists>s. thread_step\<^sup>*\<^sup>* (threads_start two_users 2) s \<and> (\<forall>pc \<in> set (tt_pc s). pc = Th_Idle) \<and>
    sm_log (tr_sync (tt_tracker s)) = tt_log s \<and> apply_ops (tt_log s) (tr_state two_users) \<noteq> tr_state (tt_tracker s)"
proof -
  let ?s = "racing (grouped [[5]]) [Th_Idle, Th_Idle] [make_group, ask_group] [key_op 1 ask_group, key_op 2 make_group]"
  have "map op_key (tt_log ?s) = [ask_group, make_group]" by (simp add: racing_def key_op_def op_key_def)
  then have "apply_ops (tt_log ?s) (tr_state two_users) = grouped []"
    using two_keys two_steps(3,4) by (simp add: apply_ops_replay replay_def)
  moreover have "grouped [] \<noteq> tr_state (tt_tracker ?s)" by (simp add: racing_def grouped_def two_state)
  ultimately show ?thesis using overtaken by (intro exI [of _ ?s]) (simp add: racing_def)
qed

end
