(* ===== verification/Concurrent_Ops.thy ===== *)
theory Concurrent_Ops
  imports Tracker_Spec
begin

text \<open>
  When two tracker operations commute. Both trackers accept requests at the same time and apply each other's operations later,
  in another order than their own; the interface \<open>concurrent_ops\<close> says what that takes: operations that are apart neither
  disable nor disturb one another. It is interpreted by the commands of \<open>Tracker_Spec\<close>, with a notion of \<open>apart\<close> that admits
  everything on different accounts or groups, and within one group requests to join, acceptances, departures and file operations
  that do not concern the same user or file.
\<close>

section \<open>The interface\<close>

primrec enabled_run :: "('o \<Rightarrow> 's \<Rightarrow> bool) \<Rightarrow> ('o \<Rightarrow> 's \<Rightarrow> 's) \<Rightarrow> 'o list \<Rightarrow> 's \<Rightarrow> bool" where
  "enabled_run en act [] s = True"
| "enabled_run en act (a # as) s = (en a s \<and> enabled_run en act as (act a s))"

lemma enabled_run_append: "enabled_run en act (as @ bs) s = (enabled_run en act as s \<and> enabled_run en act bs (fold act as s))"
  by (induction as arbitrary: s) auto

locale concurrent_ops =
  fixes ok :: "'s \<Rightarrow> bool"
    and en :: "'o \<Rightarrow> 's \<Rightarrow> bool"
    and act :: "'o \<Rightarrow> 's \<Rightarrow> 's"
    and apart :: "'o \<Rightarrow> 'o \<Rightarrow> bool"
  assumes ok_act: "ok s \<Longrightarrow> ok (act a s)"
    and apart_sym: "apart a b \<Longrightarrow> apart b a"
    and diamond: "ok s \<Longrightarrow> en a s \<Longrightarrow> en b s \<Longrightarrow> apart a b \<Longrightarrow> en b (act a s) \<and> act b (act a s) = act a (act b s)"
begin

text \<open>One operation past a sequence of others.\<close>

lemma past:
  assumes "ok s" and "en a s" and "enabled_run en act bs s" and "\<forall>b \<in> set bs. apart a b"
  shows "enabled_run en act bs (act a s) \<and> en a (fold act bs s) \<and> fold act bs (act a s) = act a (fold act bs s)"
  using assms
proof (induction bs arbitrary: s)
  case (Cons b bs)
  have b: "en b s" "apart a b" "enabled_run en act bs (act b s)" using Cons.prems by auto
  have d: "en b (act a s)" "act b (act a s) = act a (act b s)" using diamond [OF Cons.prems(1,2) b(1,2)] by auto
  have "en a (act b s)" using diamond [OF Cons.prems(1) b(1) Cons.prems(2) apart_sym [OF b(2)]] by simp
  from Cons.IH [OF ok_act [OF Cons.prems(1)] this b(3)] Cons.prems(4) show ?case using d by simp
qed simp

end

section \<open>Groups by themselves\<close>

text \<open>The command of a group sees of the tables only who is a user and the group itself, and changes only the group. Below it
  is a partial function on the group (\<open>None\<close>: there is no such group), undefined where the command reports an error.\<close>

definition put_group :: "bytes \<Rightarrow> group option \<Rightarrow> tracker_state \<Rightarrow> tracker_state" where
  "put_group gid go st = st\<lparr>ts_groups := (case go of None \<Rightarrow> map_erase gid (ts_groups st) | Some g \<Rightarrow> map_put gid g (ts_groups st))\<rparr>"

definition with_seeders :: "bytes \<Rightarrow> group \<Rightarrow> ((bytes \<times> peer_ref) list \<Rightarrow> (bytes \<times> peer_ref) list) \<Rightarrow> file_meta \<Rightarrow> group" where
  "with_seeders fname g h f = set_file fname (f\<lparr>fm_seeders := h (fm_seeders f)\<rparr>) g"

fun group_run :: "tracker_cmd \<Rightarrow> (bytes \<Rightarrow> bool) \<Rightarrow> group option \<Rightarrow> group option option" where
  "group_run (CreateGroup gid ow) U go =
    (if gid \<noteq> [] \<and> ow \<noteq> [] \<and> U ow \<and> go = None
     then Some (Some \<lparr>g_id = gid, g_owner = ow, g_members = [ow], g_pending = [], g_files = []\<rparr>) else None)"
| "group_run (JoinGroup gid u) U (Some g) =
    (if gid \<noteq> [] \<and> u \<noteq> [] \<and> U u \<and> u \<notin> set (g_members g) \<and> u \<notin> set (g_pending g)
     then Some (Some (g\<lparr>g_pending := set_put u (g_pending g)\<rparr>)) else None)"
| "group_run (LeaveGroup gid u) U (Some g) =
    (if gid \<noteq> [] \<and> u \<noteq> [] \<and> u \<in> set (g_members g)
     then Some (if u = g_owner g
       then (if set_erase u (g_members g) = [] then None
             else Some (g\<lparr>g_members := set_erase u (g_members g), g_owner := hd (set_erase u (g_members g))\<rparr>))
       else Some (g\<lparr>g_members := set_erase u (g_members g)\<rparr>)) else None)"
| "group_run (AcceptRequest gid ow u) U (Some g) =
    (if gid \<noteq> [] \<and> ow \<noteq> [] \<and> u \<noteq> [] \<and> g_owner g = ow \<and> u \<in> set (g_pending g)
     then Some (Some (g\<lparr>g_pending := set_erase u (g_pending g), g_members := set_put u (g_members g)\<rparr>)) else None)"
| "group_run (AddFile gid u ip port meta) U (Some g) =
    (if gid \<noteq> [] \<and> u \<noteq> [] \<and> fm_name meta \<noteq> [] \<and> u \<in> set (g_members g)
     then (let pr = \<lparr>pr_user_id = u, pr_ip = ip, pr_port = port, pr_bitfield = full_bitfield (fm_piece_hashes meta)\<rparr> in
       case map_find (g_files g) (fm_name meta) of
         Some f \<Rightarrow> if fm_hash f = fm_hash meta then Some (Some (with_seeders (fm_name meta) g (map_put u pr) f)) else None
       | None \<Rightarrow> Some (Some (set_file (fm_name meta) (meta\<lparr>fm_seeders := map_put u pr []\<rparr>) g))) else None)"
| "group_run (StopShare gid u fname) U (Some g) =
    (if gid \<noteq> [] \<and> u \<noteq> [] \<and> fname \<noteq> []
     then (case map_find (g_files g) fname of
         Some f \<Rightarrow> if has_key (fm_seeders f) u then Some (Some (with_seeders fname g (map_erase u) f)) else None
       | None \<Rightarrow> None) else None)"
| "group_run (UpdateBitfield gid u ip port fname bits) U (Some g) =
    (if gid \<noteq> [] \<and> u \<noteq> [] \<and> fname \<noteq> [] \<and> u \<in> set (g_members g)
     then (case map_find (g_files g) fname of
         Some f \<Rightarrow> Some (Some (with_seeders fname g
           (map_put u \<lparr>pr_user_id = u, pr_ip = ip, pr_port = port, pr_bitfield = bits\<rparr>) f))
       | None \<Rightarrow> None) else None)"
| "group_run _ _ _ = None"

text \<open>What a command is about.\<close>

datatype scope = Account bytes | Within bytes

fun scope_of :: "tracker_cmd \<Rightarrow> scope" where
  "scope_of (CreateUser u _) = Account u"
| "scope_of (Login u _ _ _) = Account u"
| "scope_of (Logout u) = Account u"
| "scope_of (CreateGroup gid _) = Within gid"
| "scope_of (JoinGroup gid _) = Within gid"
| "scope_of (LeaveGroup gid _) = Within gid"
| "scope_of (AcceptRequest gid _ _) = Within gid"
| "scope_of (AddFile gid _ _ _ _) = Within gid"
| "scope_of (StopShare gid _ _) = Within gid"
| "scope_of (UpdateBitfield gid _ _ _ _ _) = Within gid"

lemma exec_group:
  assumes "scope_of c = Within gid"
  shows "fst (exec c st) = ST_OK \<longleftrightarrow> group_run c (has_key (ts_users st)) (map_find (ts_groups st) gid) \<noteq> None"
    and "group_run c (has_key (ts_users st)) (map_find (ts_groups st) gid) = Some go \<Longrightarrow> step c st = put_group gid go st"
  using assms
  by (cases c; cases "map_find (ts_groups st) gid";
      auto simp: step_def create_group_def join_group_def leave_group_def accept_request_def add_file_def stop_share_def
        update_bitfield_def put_group_def set_group_def Let_def has_key_def with_seeders_def drop_seeder_def
      split: option.splits if_splits)+


section \<open>Operations that are apart\<close>

text \<open>Within one group: who is admitted or leaves, and which user's entry of which file is written, or the file itself (\<open>True\<close>).\<close>

datatype touch = Admits bytes | Leaves bytes | Files bytes bytes bool | Founds

fun touch_of :: "tracker_cmd \<Rightarrow> touch" where
  "touch_of (JoinGroup _ u) = Admits u"
| "touch_of (AcceptRequest _ _ u) = Admits u"
| "touch_of (LeaveGroup _ u) = Leaves u"
| "touch_of (AddFile _ u _ _ meta) = Files (fm_name meta) u True"
| "touch_of (StopShare _ u fname) = Files fname u False"
| "touch_of (UpdateBitfield _ u _ _ fname _) = Files fname u False"
| "touch_of _ = Founds"

fun compatible :: "touch \<Rightarrow> touch \<Rightarrow> bool" where
  "compatible (Admits u) (Admits v) = (u \<noteq> v)"
| "compatible (Admits _) (Files _ _ _) = True"
| "compatible (Files _ _ _) (Admits _) = True"
| "compatible (Leaves u) (Leaves v) = (u \<noteq> v)"
| "compatible (Files f u whole) (Files g v whole') = (f \<noteq> g \<or> u \<noteq> v \<and> \<not> whole \<and> \<not> whole')"
| "compatible _ _ = False"

definition apart :: "tracker_cmd \<Rightarrow> tracker_cmd \<Rightarrow> bool" where
  "apart c d \<longleftrightarrow> replicated c \<and> replicated d \<and> (scope_of c = scope_of d \<longrightarrow> compatible (touch_of c) (touch_of d))"

lemma compatible_sym: "compatible x y \<Longrightarrow> compatible y x"
  by (cases x; cases y) auto

lemma apart_sym: "apart c d \<Longrightarrow> apart d c"
  by (auto simp: apart_def compatible_sym)

text \<open>Containers.\<close>

lemma map_put_swap: "map_ok m \<Longrightarrow> k \<noteq> j \<Longrightarrow> map_put k v (map_put j w m) = map_put j w (map_put k v m)"
  by (rule map_ext) (auto simp: map_ok_put)

lemma map_put_erase_swap: "map_ok m \<Longrightarrow> k \<noteq> j \<Longrightarrow> map_erase j (map_put k v m) = map_put k v (map_erase j m)"
  by (rule map_ext) (auto simp: map_ok_put map_ok_erase map_find_erase)

lemma map_erase_swap: "map_ok m \<Longrightarrow> map_erase k (map_erase j m) = map_erase j (map_erase k m)"
  by (rule map_ext) (auto simp: map_ok_erase map_find_erase)

lemma set_put_swap: "set_ok s \<Longrightarrow> set_put x (set_put y s) = set_put y (set_put x s)"
  by (rule set_ext) (auto simp: set_ok_put)

lemma set_erase_swap: "set_erase x (set_erase y s) = set_erase y (set_erase x s)"
  by (simp add: set_erase_def remove1_commute)

lemma set_put_erase_swap: "set_ok s \<Longrightarrow> x \<noteq> y \<Longrightarrow> set_put x (set_erase y s) = set_erase y (set_put x s)"
  by (rule set_ext) (auto simp: set_ok_put set_ok_erase)

lemmas swaps = map_put_swap map_put_erase_swap map_erase_swap set_put_swap set_erase_swap set_put_erase_swap

lemma group_run_mono: "group_run c U go = Some x \<Longrightarrow> (\<And>u. U u \<Longrightarrow> V u) \<Longrightarrow> group_run c V go = Some x"
  by (cases c; cases go) (auto split: if_splits)

text \<open>The owner that is left when two members leave does not depend on who left first.\<close>

lemma hd_erase: "s \<noteq> [] \<Longrightarrow> w \<noteq> hd s \<Longrightarrow> set_erase w s \<noteq> [] \<and> hd (set_erase w s) = hd s"
  by (cases s) (auto simp: set_erase_def)

lemma leave_swap:
  assumes s: "set_ok (g_members g)" and u: "group_run (LeaveGroup gid u) U (Some g) = Some x"
    and v: "group_run (LeaveGroup gid v) U (Some g) = Some y" and ne: "u \<noteq> v"
  shows "\<exists>z. group_run (LeaveGroup gid v) U x = Some z \<and> group_run (LeaveGroup gid u) U y = Some z"
proof -
  let ?A = "set_erase u (g_members g)" and ?B = "set_erase v (g_members g)"
  have m: "gid \<noteq> []" "u \<noteq> []" "v \<noteq> []" "u \<in> set (g_members g)" "v \<in> set (g_members g)" using u v by (auto split: if_splits)
  have in_rest: "v \<in> set ?A" "u \<in> set ?B" using m ne s by simp_all
  then have ne': "?A \<noteq> []" "?B \<noteq> []" by force+
  have sw: "set_erase v ?A = set_erase u ?B" by (rule set_erase_swap)
  note h = hd_erase [OF ne'(1), of v] hd_erase [OF ne'(2), of u]
  consider "g_owner g = u" | "g_owner g = v" | "g_owner g \<noteq> u" "g_owner g \<noteq> v" by blast
  then show ?thesis
  proof cases
    case 1
    then show ?thesis using u v m ne in_rest ne' sw h by (cases "v = hd ?A") auto
  next
    case 2
    then show ?thesis using u v m ne in_rest ne' sw h by (cases "u = hd ?B") auto
  next
    case 3
    then show ?thesis using u v m in_rest sw by auto
  qed
qed


text \<open>File operations write one entry of the group's files, and the seeders of other users stay as they are.\<close>

lemma set_file_swap: "map_ok (g_files g) \<Longrightarrow> f \<noteq> h \<Longrightarrow> set_file f a (set_file h b g) = set_file h b (set_file f a g)"
  by (simp add: set_file_def map_put_swap)

lemma with_seeders_swap:
  assumes "map_ok (g_files g)" and "k (h (fm_seeders f)) = h (k (fm_seeders f))"
  shows "with_seeders n (with_seeders n g h f) k (f\<lparr>fm_seeders := h (fm_seeders f)\<rparr>) =
    with_seeders n (with_seeders n g k f) h (f\<lparr>fm_seeders := k (fm_seeders f)\<rparr>)"
  using assms by (simp add: with_seeders_def set_file_twice)

lemma with_seeders_simps [simp]:
  "g_members (with_seeders n g h f) = g_members g" "g_pending (with_seeders n g h f) = g_pending g"
  "g_owner (with_seeders n g h f) = g_owner g"
  "map_find (g_files (with_seeders n g h f)) j = (if j = n then Some (f\<lparr>fm_seeders := h (fm_seeders f)\<rparr>) else map_find (g_files g) j)"
  "with_seeders n (g\<lparr>g_members := ms\<rparr>) h f = (with_seeders n g h f)\<lparr>g_members := ms\<rparr>"
  "with_seeders n (g\<lparr>g_pending := ps\<rparr>) h f = (with_seeders n g h f)\<lparr>g_pending := ps\<rparr>"
  "set_file n f (g\<lparr>g_members := ms\<rparr>) = (set_file n f g)\<lparr>g_members := ms\<rparr>"
  "set_file n f (g\<lparr>g_pending := ps\<rparr>) = (set_file n f g)\<lparr>g_pending := ps\<rparr>"
  by (simp_all add: with_seeders_def set_file_def)

lemma files_swap:
  assumes g: "map_ok (g_files g)" "\<And>n f. map_find (g_files g) n = Some f \<Longrightarrow> map_ok (fm_seeders f)"
    and c: "touch_of c = Files n u w" "group_run c U (Some g) = Some x"
    and d: "touch_of d = Files n' u' w'" "group_run d U (Some g) = Some y"
    and ne: "compatible (touch_of c) (touch_of d)" and sc: "scope_of c = scope_of d"
  shows "\<exists>z. group_run d U x = Some z \<and> group_run c U y = Some z"
proof (cases "n = n'")
  case False
  then show ?thesis
    using c d g(1) sc
    by (cases c; cases d; auto simp: with_seeders_def Let_def set_file_swap split: option.splits if_splits)
next
  case True
  then have "u \<noteq> u'" "\<not> w" "\<not> w'" using ne c(1) d(1) by auto
  then show ?thesis
    using c d g sc True
    by (cases c; cases d; auto simp: has_key_def map_find_erase swaps intro!: with_seeders_swap split: option.splits if_splits)
qed


section \<open>Commands that are apart\<close>

text \<open>Two commands on the same group.\<close>

lemma group_swap:
  assumes ok: "group_ok V gid g" and c: "group_run c U (Some g) = Some x" and d: "group_run d U (Some g) = Some y"
    and sc: "scope_of c = scope_of d" and cm: "compatible (touch_of c) (touch_of d)"
  shows "\<exists>z. group_run d U x = Some z \<and> group_run c U y = Some z"
proof -
  note s = group_okD(1-3) [OF ok]
  have f: "map_find (g_files g) n = Some f \<Longrightarrow> map_ok (fm_seeders f)" for n f using group_okD(6) [OF ok] by (simp add: file_ok_def)
  consider (admit) u v where "touch_of c = Admits u" "touch_of d = Admits v" "u \<noteq> v"
    | (admit_file) u n v w where "touch_of c = Admits u" "touch_of d = Files n v w"
    | (file_admit) u n v w where "touch_of d = Admits u" "touch_of c = Files n v w"
    | (leave) u v where "touch_of c = Leaves u" "touch_of d = Leaves v" "u \<noteq> v"
    | (files) n u w n' u' w' where "touch_of c = Files n u w" "touch_of d = Files n' u' w'"
    using cm by (cases "touch_of c"; cases "touch_of d") auto
  then show ?thesis
  proof cases
    case admit
    then show ?thesis using c d sc s by (cases c; cases d; auto simp: swaps split: if_splits)
  next
    case admit_file
    then show ?thesis using c d sc by (cases c; cases d; auto simp: Let_def split: if_splits option.splits)
  next
    case file_admit
    then show ?thesis using c d sc by (cases c; cases d; auto simp: Let_def split: if_splits option.splits)
  next
    case leave
    then have "c = LeaveGroup (case scope_of c of Within gid \<Rightarrow> gid) u" "d = LeaveGroup (case scope_of c of Within gid \<Rightarrow> gid) v"
      using sc by (cases c; cases d; simp)+
    then show ?thesis using leave_swap [OF s(1) _ _ leave(3)] c d by metis
  next
    case files
    then show ?thesis using files_swap [OF s(3) _ files(1) c files(2) d cm sc] f by blast
  qed
qed

lemma put_group_simps [simp]:
  "ts_users (put_group gid go st) = ts_users st"
  "map_ok (ts_groups st) \<Longrightarrow> map_find (ts_groups (put_group gid go st)) j = (if j = gid then go else map_find (ts_groups st) j)"
  by (auto simp: put_group_def map_find_erase split: option.split)

lemma put_group_swap:
  assumes "map_ok (ts_groups st)" and "gid \<noteq> hid"
  shows "put_group gid a (put_group hid b st) = put_group hid b (put_group gid a st)"
  using assms by (simp add: put_group_def swaps split: option.split)

lemma put_group_twice: "map_ok (ts_groups st) \<Longrightarrow> put_group gid a (put_group gid b st) = put_group gid a st"
proof -
  assume m: "map_ok (ts_groups st)"
  have "map_put gid g (map_erase gid (ts_groups st)) = map_put gid g (ts_groups st)" for g
    using m by (intro map_ext) (auto simp: map_find_erase map_ok_put map_ok_erase)
  moreover have "map_erase gid (map_put gid g (ts_groups st)) = map_erase gid (ts_groups st)" for g
    using m by (intro map_ext) (auto simp: map_find_erase map_ok_put map_ok_erase)
  moreover have "map_erase gid (map_erase gid (ts_groups st)) = map_erase gid (ts_groups st)"
    using m by (intro map_ext) (auto simp: map_find_erase map_ok_erase)
  ultimately show ?thesis using m by (simp add: put_group_def split: option.split)
qed

lemma exec_create: "fst (exec (CreateUser u p) st) = ST_OK \<longleftrightarrow> u \<noteq> [] \<and> p \<noteq> [] \<and> \<not> has_key (ts_users st) u"
  by (simp add: create_user_def)

lemma step_create: "fst (exec (CreateUser u p) st) = ST_OK \<Longrightarrow>
    step (CreateUser u p) st = set_user u \<lparr>u_id = u, u_password = hash_password p, u_online = False, u_ip = [], u_port = 0\<rparr> st"
  by (auto simp: step_def create_user_def)

lemma scopes: "replicated c \<Longrightarrow> (\<exists>u p. c = CreateUser u p) \<or> (\<exists>gid. scope_of c = Within gid)"
  by (cases c) auto

lemma users_group_cmd: "scope_of c = Within gid \<Longrightarrow> ts_users (step c st) = ts_users st"
  using exec_group [of c gid st] exec.error_frame [of c st]
  by (cases "group_run c (has_key (ts_users st)) (map_find (ts_groups st) gid)") (auto simp: step_def)

text \<open>A new user and a command of a group.\<close>

lemma create_swap:
  assumes d: "scope_of d = Within gid" "fst (exec d st) = ST_OK" and c: "fst (exec (CreateUser u p) st) = ST_OK"
  shows "fst (exec d (step (CreateUser u p) st)) = ST_OK \<and> fst (exec (CreateUser u p) (step d st)) = ST_OK \<and>
    step d (step (CreateUser u p) st) = step (CreateUser u p) (step d st)"
proof -
  let ?s = "step (CreateUser u p) st"
  obtain x where x: "group_run d (has_key (ts_users st)) (map_find (ts_groups st) gid) = Some x"
    using exec_group(1) [OF d(1), of st] d(2) by auto
  have s: "ts_groups ?s = ts_groups st" "has_key (ts_users st) v \<Longrightarrow> has_key (ts_users ?s) v" for v
    using step_create [OF c] by (simp_all add: set_user_def)
  have y: "group_run d (has_key (ts_users ?s)) (map_find (ts_groups ?s) gid) = Some x"
    using group_run_mono [OF x s(2)] s(1) by simp
  have 1: "fst (exec d ?s) = ST_OK" using exec_group(1) [OF d(1), of ?s] y by simp
  have 2: "fst (exec (CreateUser u p) (step d st)) = ST_OK" using c users_group_cmd [OF d(1), of st] unfolding exec_create by simp
  have "step d ?s = put_group gid x ?s" "step d st = put_group gid x st"
    using exec_group(2) [OF d(1) y] exec_group(2) [OF d(1) x] by auto
  then show ?thesis using 1 2 step_create [OF c] step_create [OF 2] by (cases x) (simp_all add: put_group_def set_user_def)
qed


lemma group_needed: "touch_of c \<noteq> Founds \<Longrightarrow> group_run c U go = Some x \<Longrightarrow> \<exists>g. go = Some g"
  by (cases c; cases go) auto

lemma commands_diamond:
  assumes ok: "state_ok st" and c: "fst (exec c st) = ST_OK" and d: "fst (exec d st) = ST_OK" and ap: "apart c d"
  shows "fst (exec d (step c st)) = ST_OK \<and> step d (step c st) = step c (step d st)"
proof -
  have r: "replicated c" "replicated d" "scope_of c = scope_of d \<Longrightarrow> compatible (touch_of c) (touch_of d)"
    using ap by (auto simp: apart_def)
  consider (users) u p v q where "c = CreateUser u p" "d = CreateUser v q"
    | (left) u p gid where "c = CreateUser u p" "scope_of d = Within gid"
    | (right) u p gid where "d = CreateUser u p" "scope_of c = Within gid"
    | (groups) gid hid where "scope_of c = Within gid" "scope_of d = Within hid"
    using scopes [OF r(1)] scopes [OF r(2)] by blast
  then show ?thesis
  proof cases
    case users
    then have ne: "u \<noteq> v" using r(3) by auto
    note e = c [unfolded users(1)] d [unfolded users(2)]
    note s = step_create [OF e(1)] step_create [OF e(2)]
    have n: "fst (exec (CreateUser v q) (step (CreateUser u p) st)) = ST_OK" "fst (exec (CreateUser u p) (step (CreateUser v q) st)) = ST_OK"
      using e ne unfolding exec_create s by (simp_all add: set_user_def)
    show ?thesis
      using n step_create [OF n(1)] step_create [OF n(2)] s ne state_okD(2) [OF ok] unfolding users by (simp add: set_user_def map_put_swap)
  next
    case left
    then show ?thesis using create_swap [of d gid st u p] c d by simp
  next
    case right
    then show ?thesis using create_swap [of c gid st u p] c d by simp
  next
    case groups
    let ?U = "has_key (ts_users st)" and ?G = "\<lambda>k. map_find (ts_groups st) k"
    obtain x where x: "group_run c ?U (?G gid) = Some x" using exec_group(1) [OF groups(1), of st] c by auto
    obtain y where y: "group_run d ?U (?G hid) = Some y" using exec_group(1) [OF groups(2), of st] d by auto
    have sx: "step c st = put_group gid x st" "step d st = put_group hid y st"
      using exec_group(2) [OF groups(1) x] exec_group(2) [OF groups(2) y] by auto
    note m = state_okD(3) [OF ok]
    show ?thesis
    proof (cases "gid = hid")
      case False
      have 1: "group_run d (has_key (ts_users (step c st))) (map_find (ts_groups (step c st)) hid) = Some y"
        and 2: "group_run c (has_key (ts_users (step d st))) (map_find (ts_groups (step d st)) gid) = Some x"
        using x y False m by (simp_all add: sx)
      show ?thesis
        using exec_group [OF groups(2), of "step c st"] exec_group(2) [OF groups(1) 2] 1 sx put_group_swap [OF m False] by simp
    next
      case True
      have "touch_of c \<noteq> Founds" using r(3) True groups by auto
      then obtain g where g: "?G gid = Some g" using group_needed x by blast
      obtain z where z: "group_run d ?U x = Some z" "group_run c ?U y = Some z"
        using group_swap [OF state_okD(4) [OF ok g], of c ?U x d y] x y g groups r(3) True by auto
      have 1: "group_run d (has_key (ts_users (step c st))) (map_find (ts_groups (step c st)) hid) = Some z"
        and 2: "group_run c (has_key (ts_users (step d st))) (map_find (ts_groups (step d st)) gid) = Some z"
        using z True m by (simp_all add: sx)
      show ?thesis
        using exec_group [OF groups(2), of "step c st"] exec_group(2) [OF groups(1) 2] 1 sx put_group_twice [OF m] True by simp
    qed
  qed
qed

text \<open>The commands satisfy the interface.\<close>

definition succeeds :: "tracker_cmd \<Rightarrow> tracker_state \<Rightarrow> bool" where
  "succeeds c st = (fst (exec c st) = ST_OK)"

interpretation cmds: concurrent_ops state_ok succeeds step apart
  by unfold_locales (simp_all add: membership.ok_step apart_sym succeeds_def commands_diamond)

end
