(* ===== verification/Tracker_Concurrent.thy ===== *)
theory Tracker_Concurrent
  imports Tracker_Agreement Concurrent_Ops
begin

text \<open>
  Requests at both trackers at the same time (\<open>tracker/sync.cpp\<close>, \<open>tracker/session.cpp\<close>). Each tracker applies what its own
  clients ask for at once and what the other sends when it arrives, so the two apply concurrent operations in different orders.
  While the link is up they end in the same tables however requests and deliveries interleave, as long as an operation is apart
  (\<open>Concurrent_Ops\<close>) from those still on their way to the tracker that executes it. Without that they can disagree for good.
\<close>

section \<open>Commands do not see logins\<close>

lemma exec_forget: "replicated c \<Longrightarrow> exec c (forget st) = map_prod id forget (exec c st)"
  by (cases c) (simp_all add: forget_ops)

lemma step_forget: "replicated c \<Longrightarrow> forget (step c st) = step c (forget st)"
  by (simp add: step_def exec_forget)

lemma succeeds_forget: "replicated c \<Longrightarrow> succeeds c (forget st) = succeeds c st"
  by (simp add: succeeds_def exec_forget)

lemma succeeds_agree: "replicated c \<Longrightarrow> forget a = forget b \<Longrightarrow> succeeds c a = succeeds c b"
  by (metis succeeds_forget)

lemma step_agree: "replicated c \<Longrightarrow> forget a = forget b \<Longrightarrow> forget (step c a) = forget (step c b)"
  by (simp add: step_forget)

lemma run_agree:
  "forget a = forget b \<Longrightarrow> \<forall>c \<in> set cs. replicated c \<Longrightarrow>
    forget (fold step cs a) = forget (fold step cs b) \<and> enabled_run succeeds step cs a = enabled_run succeeds step cs b"
proof (induction cs arbitrary: a b)
  case (Cons c cs)
  then have "forget (step c a) = forget (step c b)" "succeeds c a = succeeds c b"
    using step_agree [of c a b] succeeds_agree [of c a b] by simp_all
  then show ?case using Cons.IH [of "step c a" "step c b"] Cons.prems by simp
qed simp

section \<open>Two tables and what is on the way to each\<close>

text \<open>Each side, once it has applied what is on the way to it, is where the other will be; and nothing of it will be refused.\<close>

definition meeting :: "tracker_state \<Rightarrow> tracker_cmd list \<Rightarrow> tracker_state \<Rightarrow> tracker_cmd list \<Rightarrow> bool" where
  "meeting s as t bs \<longleftrightarrow> state_ok s \<and> state_ok t \<and> enabled_run succeeds step as s \<and> enabled_run succeeds step bs t \<and>
     (\<forall>c \<in> set as \<union> set bs. replicated c) \<and> forget (fold step as s) = forget (fold step bs t)"

lemma meeting_sym: "meeting s as t bs \<Longrightarrow> meeting t bs s as"
  by (auto simp: meeting_def)

lemma meeting_request:
  assumes m: "meeting s as t bs" and c: "succeeds c t" "replicated c" "\<forall>b \<in> set bs. apart c b"
  shows "meeting s (as @ [c]) (step c t) bs"
proof -
  have i: "state_ok s" "state_ok t" "enabled_run succeeds step as s" "enabled_run succeeds step bs t" "\<forall>c \<in> set as \<union> set bs. replicated c"
    "forget (fold step as s) = forget (fold step bs t)"
    using m by (auto simp: meeting_def)
  have p: "enabled_run succeeds step bs (step c t)" "succeeds c (fold step bs t)" "fold step bs (step c t) = step c (fold step bs t)"
    using cmds.past [OF i(2) c(1) i(4) c(3)] by auto
  show ?thesis
    using i p c(2) succeeds_agree [OF c(2) i(6)] step_agree [OF c(2) i(6)]
    by (auto simp: meeting_def enabled_run_append membership.ok_step)
qed

lemma meeting_quiet: "meeting s as t bs \<Longrightarrow> state_ok t' \<Longrightarrow> forget t' = forget t \<Longrightarrow> meeting s as t' bs"
  using run_agree [of t' t bs] by (simp add: meeting_def)

lemma meeting_deliver: "meeting s (c # as) t bs \<Longrightarrow> meeting (step c s) as t bs"
  by (simp add: meeting_def membership.ok_step)

lemma meeting_deliver': "meeting s as t (c # bs) \<Longrightarrow> meeting s as (step c t) bs"
  by (simp add: meeting_def membership.ok_step)

section \<open>Steps while the link is up\<close>

definition flight_cmd :: "u16 \<times> bytes \<Rightarrow> tracker_cmd option" where
  "flight_cmd m =
    (if msg_of (fst m) = Some MSG_SYNC_OP
     then (case rd_op (of_bytes (snd m)) of None \<Rightarrow> None | Some (op, _) \<Rightarrow> op_cmd op) else None)"

fun cmds_in :: "(u16 \<times> bytes) list \<Rightarrow> tracker_cmd list" where
  "cmds_in [] = []"
| "cmds_in (m # q) = (case flight_cmd m of None \<Rightarrow> cmds_in q | Some c \<Rightarrow> c # cmds_in q)"

lemma cmds_in_append [simp]: "cmds_in (q @ r) = cmds_in q @ cmds_in r"
  by (induction q) (auto split: option.split)

text \<open>What a request sends (\<open>out\<close>) is apart from what is on the way to the tracker that executes it (\<open>q\<close>).\<close>

definition unopposed :: "sends \<Rightarrow> (u16 \<times> bytes) list \<Rightarrow> bool" where
  "unopposed out q \<longleftrightarrow> (\<forall>a \<in> set (cmds_in (map snd out)). \<forall>b \<in> set (cmds_in q). apart a b)"

definition plain_request :: "session \<Rightarrow> u16 \<Rightarrow> bytes \<Rightarrow> sends \<Rightarrow> bool" where
  "plain_request ss ty p out \<longleftrightarrow> session_fits ss \<and> exact_request ty p \<and> ty \<noteq> msg_code MSG_LOGOUT \<and>
     (\<forall>m \<in> set out. deliverable (snd (snd m)))"

inductive delivery :: "cluster \<Rightarrow> cluster \<Rightarrow> bool" where
  to1: "cl_live c \<Longrightarrow> cl_bound c \<Longrightarrow> cl_to1 c = (ty, p) # rest \<Longrightarrow> deliverable p \<Longrightarrow>
    process_peer_message (cl_fd c) ty p (cl_t1 c) = (t, out) \<Longrightarrow>
    delivery c (push0 out (c\<lparr>cl_t1 := t, cl_to1 := rest\<rparr>))"
| to0: "cl_live c \<Longrightarrow> cl_to0 c = (ty, p) # rest \<Longrightarrow> deliverable p \<Longrightarrow>
    process_peer_message (sm_out_fd (tr_sync (cl_t0 c))) ty p (cl_t0 c) = (t, out) \<Longrightarrow>
    delivery c (push1 out (c\<lparr>cl_t0 := t, cl_to0 := rest\<rparr>))"

inductive live_step :: "cluster \<Rightarrow> cluster \<Rightarrow> bool" where
  at0: "dispatch now ty p ss (cl_t0 c) = (ss', t, r, out) \<Longrightarrow> plain_request ss ty p out \<Longrightarrow> unopposed out (cl_to0 c) \<Longrightarrow>
    live_step c (push1 out (c\<lparr>cl_t0 := t\<rparr>))"
| at1: "dispatch now ty p ss (cl_t1 c) = (ss', t, r, out) \<Longrightarrow> plain_request ss ty p out \<Longrightarrow> unopposed out (cl_to1 c) \<Longrightarrow>
    live_step c (push0 out (c\<lparr>cl_t1 := t\<rparr>))"
| arrives: "delivery c c' \<Longrightarrow> live_step c c'"

lemma delivery_cluster: "delivery c c' \<Longrightarrow> cluster_step c c'"
  by (cases rule: delivery.cases) (auto intro: deliver1 deliver0)

lemma live_cluster: "live_step c c' \<Longrightarrow> cluster_step c c'"
  by (cases rule: live_step.cases) (auto intro: request0 request1 delivery_cluster)

section \<open>What stays true\<close>

definition traffic_ok :: "u16 \<times> bytes \<Rightarrow> bool" where
  "traffic_ok m \<longleftrightarrow> (\<exists>op. m = (msg_code MSG_SYNC_OP, op_bytes op) \<and> deliverable (op_bytes op) \<and> op_cmd op \<noteq> None) \<or>
     (\<exists>sq. m = (msg_code MSG_SYNC_ACK, seq_bytes sq))"

definition converging :: "cluster \<Rightarrow> bool" where
  "converging c \<longleftrightarrow> cl_live c \<and> cl_bound c \<and> 0 \<le> sm_out_fd (tr_sync (cl_t0 c)) \<and> 0 \<le> sm_out_fd (tr_sync (cl_t1 c)) \<and>
     (\<forall>m \<in> set (cl_to1 c) \<union> set (cl_to0 c). traffic_ok m) \<and>
     meeting (tr_state (cl_t1 c)) (cmds_in (cl_to1 c)) (tr_state (cl_t0 c)) (cmds_in (cl_to0 c))"

lemma flight_op: "deliverable (op_bytes op) \<Longrightarrow> flight_cmd (msg_code MSG_SYNC_OP, op_bytes op) = op_cmd op"
proof -
  assume "deliverable (op_bytes op)"
  then have "op_fits op" using length_op_bytes [of op] by (simp add: deliverable_def op_fits_def str_ok_def)
  then show ?thesis by (simp add: flight_cmd_def)
qed

lemma flight_ack [simp]: "flight_cmd (msg_code MSG_SYNC_ACK, p) = None"
  by (simp add: flight_cmd_def)

lemma ack_ok [simp]: "traffic_ok (msg_code MSG_SYNC_ACK, seq_bytes sq)"
  by (auto simp: traffic_ok_def)

text \<open>What arrives is applied and answered by an acknowledgement, or is an acknowledgement.\<close>

lemma arrival:
  assumes "traffic_ok (ty, p)" and "process_peer_message fd ty p t = (t', out)"
  shows "sm_out_fd (tr_sync t') = sm_out_fd (tr_sync t) \<and> (\<forall>m \<in> set out. traffic_ok (snd m)) \<and> cmds_in (map snd out) = [] \<and>
    tr_state t' = (case flight_cmd (ty, p) of None \<Rightarrow> tr_state t | Some c \<Rightarrow> step c (tr_state t))"
proof -
  consider op cmd where "(ty, p) = (msg_code MSG_SYNC_OP, op_bytes op)" "deliverable (op_bytes op)" "op_cmd op = Some cmd"
    | sq where "(ty, p) = (msg_code MSG_SYNC_ACK, seq_bytes sq)"
    using assms(1) by (auto simp: traffic_ok_def)
  then show ?thesis
  proof cases
    case 1
    then show ?thesis
      using assms(2) deliver_op [OF 1(2), of fd t] apply_remote_cmd [of op "tr_state t"] flight_op [OF 1(2)]
      by (auto simp: Let_def split: prod.splits)
  next
    case 2
    then show ?thesis using assms(2) deliver_ack [of fd sq t] by auto
  qed
qed

text \<open>A request leaves the tables as they are but for logins, or sends the command that it executed.\<close>

lemma asked:
  assumes d: "dispatch now ty p ss t = (ss', t', r, out)" and fd: "0 \<le> sm_out_fd (tr_sync t)" and pl: "plain_request ss ty p out"
    and m: "meeting s as (tr_state t) (cmds_in q)" and un: "unopposed out q"
  shows "sm_out_fd (tr_sync t') = sm_out_fd (tr_sync t) \<and> (\<forall>m \<in> set out. traffic_ok (snd m)) \<and>
    meeting s (as @ cmds_in (map snd out)) (tr_state t') (cmds_in q)"
proof -
  have st: "state_ok (tr_state t)" using m by (simp add: meeting_def)
  have st': "state_ok (tr_state t')" using dispatch_ok [OF d st] .
  have pl: "session_fits ss" "exact_request ty p" "ty \<noteq> msg_code MSG_LOGOUT" "\<forall>m \<in> set out. deliverable (snd (snd m))"
    using pl by (auto simp: plain_request_def)
  show ?thesis using d fd st pl(1-3)
  proof (cases rule: request_effect)
    case quiet
    then show ?thesis using meeting_quiet [OF m st'] by simp
  next
    case (sends op cmd)
    have fits: "deliverable (op_bytes op)" using pl(4) sends(1) by (simp add: send_op_def)
    then have c: "cmds_in (map snd out) = [cmd]" using sends(1,4) by (simp add: send_op_def flight_op)
    have s: "succeeds cmd (tr_state t)" "step cmd (tr_state t) = tr_state t'" using sends(5) by (simp_all add: succeeds_def step_def)
    have "\<forall>b \<in> set (cmds_in q). apart cmd b" using un c by (simp add: unopposed_def)
    then have "meeting s (as @ [cmd]) (tr_state t') (cmds_in q)"
      using meeting_request [OF m s(1) op_cmd_replicated [OF sends(4)]] s(2) by simp
    then show ?thesis using sends fits c by (auto simp: traffic_ok_def send_op_def)
  qed
qed

lemma delivery_converging: "delivery c c' \<Longrightarrow> converging c \<Longrightarrow> converging c'"
proof (induction rule: delivery.induct)
  case (to1 c ty p rest t out)
  then have "traffic_ok (ty, p)" by (auto simp: converging_def)
  from arrival [OF this to1(5)] to1 show ?case
    by (auto simp: converging_def push0_def split: option.splits dest: meeting_deliver)
next
  case (to0 c ty p rest t out)
  then have "traffic_ok (ty, p)" by (auto simp: converging_def)
  from arrival [OF this to0(4)] to0 show ?case
    by (auto simp: converging_def push1_def split: option.splits dest: meeting_deliver')
qed

lemma live_converging: "live_step c c' \<Longrightarrow> converging c \<Longrightarrow> converging c'"
proof (induction rule: live_step.induct)
  case (at0 now ty p ss c ss' t r out)
  then have i: "0 \<le> sm_out_fd (tr_sync (cl_t0 c))"
    "meeting (tr_state (cl_t1 c)) (cmds_in (cl_to1 c)) (tr_state (cl_t0 c)) (cmds_in (cl_to0 c))"
    by (auto simp: converging_def)
  from asked [OF at0(1) i(1) at0(2) i(2) at0(3)] at0(4) show ?case by (auto simp: converging_def push1_def)
next
  case (at1 now ty p ss c ss' t r out)
  then have i: "0 \<le> sm_out_fd (tr_sync (cl_t1 c))"
    "meeting (tr_state (cl_t0 c)) (cmds_in (cl_to0 c)) (tr_state (cl_t1 c)) (cmds_in (cl_to1 c))"
    by (auto simp: converging_def intro: meeting_sym)
  from asked [OF at1(1) i(1) at1(2) i(2) at1(3)] at1(4) show ?case
    by (auto simp: converging_def push0_def intro: meeting_sym)
qed (auto intro: delivery_converging)


lemma live_run_converging: "live_step\<^sup>*\<^sup>* c c' \<Longrightarrow> converging c \<Longrightarrow> converging c'"
  by (induction rule: rtranclp_induct) (auto intro: live_converging)

lemma agreed_converging:
  "agreed c \<Longrightarrow> state_ok (tr_state (cl_t0 c)) \<Longrightarrow> state_ok (tr_state (cl_t1 c)) \<Longrightarrow> converging c"
  by (simp add: agreed_def converging_def meeting_def)

section \<open>Delivery comes to an end\<close>

definition settled :: "cluster \<Rightarrow> bool" where
  "settled c \<longleftrightarrow> cl_to1 c = [] \<and> cl_to0 c = []"

definition weight :: "u16 \<times> bytes \<Rightarrow> nat" where
  "weight m = (if fst m = msg_code MSG_SYNC_OP then 2 else 1)"

definition traffic :: "cluster \<Rightarrow> nat" where
  "traffic c = sum_list (map weight (cl_to1 c)) + sum_list (map weight (cl_to0 c))"

lemma converging_settled: "converging c \<Longrightarrow> settled c \<Longrightarrow> agreed c"
  by (simp add: converging_def settled_def agreed_def meeting_def)

lemma answer_lighter: "traffic_ok (ty, p) \<Longrightarrow> process_peer_message fd ty p t = (t', out) \<Longrightarrow> sum_list (map (weight \<circ> snd) out) < weight (ty, p)"
  using deliver_ack by (auto simp: traffic_ok_def weight_def deliver_op Let_def split: prod.splits)

lemma delivery_lighter: "delivery c c' \<Longrightarrow> converging c \<Longrightarrow> traffic c' < traffic c"
proof (induction rule: delivery.induct)
  case (to1 c ty p rest t out)
  then have "traffic_ok (ty, p)" by (auto simp: converging_def)
  from answer_lighter [OF this to1(5)] to1 show ?case by (auto simp: traffic_def push0_def converging_def)
next
  case (to0 c ty p rest t out)
  then have "traffic_ok (ty, p)" by (auto simp: converging_def)
  from answer_lighter [OF this to0(4)] to0 show ?case by (auto simp: traffic_def push1_def converging_def)
qed

lemma traffic_deliverable: "traffic_ok (ty, p) \<Longrightarrow> deliverable p"
  by (auto simp: traffic_ok_def)

lemma delivery_possible:
  assumes "converging c" and "\<not> settled c"
  shows "\<exists>c'. delivery c c'"
proof (cases "cl_to1 c")
  case (Cons m rest)
  obtain ty p where m: "m = (ty, p)" by (cases m)
  then have "traffic_ok (ty, p)" "cl_live c" "cl_bound c" using assms(1) Cons by (auto simp: converging_def)
  moreover obtain t out where "process_peer_message (cl_fd c) ty p (cl_t1 c) = (t, out)" by fastforce
  ultimately show ?thesis using Cons m traffic_deliverable by (metis delivery.to1)
next
  case Nil
  then obtain ty p rest where q: "cl_to0 c = (ty, p) # rest" using assms(2) by (cases "cl_to0 c") (auto simp: settled_def)
  then have "traffic_ok (ty, p)" "cl_live c" using assms(1) by (auto simp: converging_def)
  moreover obtain t out where "process_peer_message (sm_out_fd (tr_sync (cl_t0 c))) ty p (cl_t0 c) = (t, out)" by fastforce
  ultimately show ?thesis using q traffic_deliverable by (metis delivery.to0)
qed

lemma delivery_bound: "(delivery ^^ n) c c' \<Longrightarrow> converging c \<Longrightarrow> n + traffic c' \<le> traffic c"
proof (induction n arbitrary: c')
  case (Suc n)
  then obtain d where d: "(delivery ^^ n) c d" "delivery d c'" by auto
  have "live_step\<^sup>*\<^sup>* c d" using relpowp_imp_rtranclp [OF d(1)] by (rule rtranclp_mono [THEN predicate2D, rotated]) (auto intro: arrives)
  then have "traffic c' < traffic d" using delivery_lighter [OF d(2)] live_run_converging Suc.prems(2) by blast
  then show ?case using Suc.IH [OF d(1) Suc.prems(2)] by simp
qed simp

lemma delivery_settles: "converging c \<Longrightarrow> \<exists>c'. delivery\<^sup>*\<^sup>* c c' \<and> settled c'"
proof (induction "traffic c" arbitrary: c rule: less_induct)
  case less
  show ?case
  proof (cases "settled c")
    case False
    then obtain d where d: "delivery c d" using delivery_possible less.prems by blast
    then obtain c' where "delivery\<^sup>*\<^sup>* d c'" "settled c'"
      using less.hyps [OF delivery_lighter [OF d less.prems]] delivery_converging [OF d less.prems] by blast
    then show ?thesis using d by (meson converse_rtranclp_into_rtranclp)
  qed blast
qed


section \<open>Concurrent requests\<close>


text \<open>Users 6 and 7 are created at the two trackers at the same time.\<close>

definition both_linked :: "u8 list \<Rightarrow> u8 list \<Rightarrow> u64 \<Rightarrow> sync_op list \<Rightarrow> sync_op list \<Rightarrow> (u16 \<times> bytes) list \<Rightarrow> (u16 \<times> bytes) list \<Rightarrow> cluster" where
  "both_linked us vs n l l' q q' = pair_of (users_tracker us n 0 l 3) (users_tracker vs n 0 l' 4) True True 4 q q'"

lemma user_op_cmd: "op_cmd (user_op sq u) = Some (CreateUser [u] [7])"
  by (simp add: op_cmd_def user_op_def rd_str2_def wire str_ok_def)



section \<open>A conflict\<close>

text \<open>Trackers that know the users 5 and 6, after the link has come up and everything has been acknowledged.\<close>

definition two_users :: cluster where
  "two_users = pair_of (users_tracker [5, 6] 3 1 [] 3) (users_tracker [5, 6] 2 2 [] 4) True True 4 [] []"

lemma deliver_known_user:
  assumes "u \<in> set us" and "app < sq"
  shows "process_peer_message fd' (msg_code MSG_SYNC_OP) (op_bytes (user_op sq u)) (users_tracker us nxt app l fd) =
    (users_tracker us nxt sq l fd, [(fd', msg_code MSG_SYNC_ACK, seq_bytes sq)])"
proof -
  have "apply_remote (user_op sq u) \<lparr>ts_users = map some_user us, ts_groups = []\<rparr> = (True, \<lparr>ts_users = map some_user us, ts_groups = []\<rparr>)"
    using assms(1) by (simp add: apply_remote_def user_op_def rd_str2_def wire str_ok_def accept_def Let_def create_user_def)
  then show ?thesis
    using deliver_op [OF deliverable_user_op, of fd' sq u "users_tracker us nxt app l fd"] assms(2)
    by (simp add: users_tracker_def user_op_def Let_def)
qed

text \<open>User 5 is created at both trackers while the link is down, user 6 at tracker 0 when it is up.\<close>

lemma two_users_reachable: "reachable two_users"
proof -
  let ?op = "\<lambda>sq u. (msg_code MSG_SYNC_OP, op_bytes (user_op sq u))" and ?ack = "\<lambda>sq. (msg_code MSG_SYNC_ACK, seq_bytes sq)"
  have s: "cluster_start = pair_of (users_tracker [] 1 0 [] (-1)) (users_tracker [] 1 0 [] (-1)) False False (-1) [] []"
    by (simp add: cluster_start_def started_users pair_of_def)
  let ?c1 = "pair_of (users_tracker [5] 2 0 [user_op 1 5] (-1)) (users_tracker [] 1 0 [] (-1)) False False (-1) [] []"
  let ?c2 = "pair_of (users_tracker [5] 2 0 [user_op 1 5] (-1)) (users_tracker [5] 2 0 [user_op 1 5] (-1)) False False (-1) [] []"
  let ?c3 = "pair_of (users_tracker [5] 2 0 [user_op 1 5] 3) (users_tracker [5] 2 0 [user_op 1 5] 4) True True 4
    [(msg_code MSG_SYNC_CATCHUP, seq_bytes 0)] []"
  let ?c4 = "pair_of (users_tracker [5] 2 0 [user_op 1 5] 3) (users_tracker [5] 2 0 [user_op 1 5] 4) True True 4 [] [?op 1 5]"
  let ?c5 = "pair_of (users_tracker [5] 2 1 [user_op 1 5] 3) (users_tracker [5] 2 0 [user_op 1 5] 4) True True 4 [?ack 1] []"
  let ?c6 = "pair_of (users_tracker [5] 2 1 [user_op 1 5] 3) (users_tracker [5] 2 0 [] 4) True True 4 [] []"
  let ?c7 = "pair_of (users_tracker [5, 6] 3 1 [user_op 1 5, user_op 2 6] 3) (users_tracker [5] 2 0 [] 4) True True 4 [?op 2 6] []"
  let ?c8 = "pair_of (users_tracker [5, 6] 3 1 [user_op 1 5, user_op 2 6] 3) (users_tracker [5, 6] 2 2 [] 4) True True 4 [] [?ack 2]"
  have 1: "cluster_step cluster_start ?c1" using pair_request0 [of 5 "[]" 1 0 "[]" "-1"] by (simp add: s)
  have 2: "cluster_step ?c1 ?c2"
    using pair_request1 [of 5 "[]" "users_tracker [5] 2 0 [user_op 1 5] (-1)" 1 0 "[]" "-1"] by simp
  have 3: "cluster_step\<^sup>*\<^sup>* ?c2 ?c3" by (rule pair_link) simp_all
  have 4: "cluster_step ?c3 ?c4" using pair_catchup [of _ "[5]" 2 0 5 4 4 "[]" "[]"] by simp
  have 5: "cluster_step ?c4 ?c5"
    by (rule pair_deliver0 [where f' = 3 and out = "[?ack 1]"]) (simp_all add: deliver_known_user deliverable_user_op word_le_nat_alt)
  have 6: "cluster_step ?c5 ?c6"
    by (rule pair_deliver1 [where out = "[]"]) (simp_all add: deliver_user_ack trim_log_def user_op_def)
  have 7: "cluster_step ?c6 ?c7"
    using pair_request0 [of 6 "[5]" 2 1 "[user_op 1 5]" 3 "users_tracker [5] 2 0 [] 4" True True 4 "[]" "[]"] by (simp add: word_le_nat_alt)
  have 8: "cluster_step ?c7 ?c8"
    by (rule pair_deliver1 [where out = "[?ack 2]"]) (simp_all add: deliver_some_user deliverable_user_op word_le_nat_alt)
  have 9: "cluster_step ?c8 two_users"
    unfolding two_users_def by (rule pair_deliver0 [where f' = 3 and out = "[]"]) (simp_all add: deliver_user_ack trim_log_def user_op_def)
  have "reachable ?c2" using 1 2 by auto
  note r3 = rtranclp_trans [OF this 3]
  show ?thesis by (rule reach_step [OF reach_step [OF reach_step [OF reach_step [OF reach_step [OF reach_step [OF r3 4] 5] 6] 7] 8] 9])
qed

text \<open>Both create the group 2.\<close>

definition own_group :: "u8 \<Rightarrow> bytes \<times> group" where
  "own_group u = ([2], \<lparr>g_id = [2], g_owner = [u], g_members = [[u]], g_pending = [], g_files = []\<rparr>)"

definition group_op :: "u64 \<Rightarrow> u8 \<Rightarrow> sync_op" where
  "group_op sq u = \<lparr>op_seq = sq, op_type = msg_code MSG_CREATE_GROUP, op_payload = enc_str [2] @ enc_str [u], op_ts = 0\<rparr>"

definition owner_tracker :: "u8 \<Rightarrow> u64 \<Rightarrow> u64 \<Rightarrow> sync_op list \<Rightarrow> int \<Rightarrow> tracker" where
  "owner_tracker u nxt app l fd = \<lparr>tr_state = \<lparr>ts_users = map some_user [5, 6], ts_groups = [own_group u]\<rparr>,
     tr_sync = \<lparr>sm_next_seq = nxt, sm_applied = app, sm_log = l, sm_out_fd = fd\<rparr>\<rparr>"

definition session_of :: "u8 \<Rightarrow> session" where
  "session_of u = \<lparr>ss_peer_ip = [], ss_user = [u], ss_seed_port = 0\<rparr>"

lemma request_group:
  "u \<in> {5, 6} \<Longrightarrow> dispatch 0 (msg_code MSG_CREATE_GROUP) (enc_str [2]) (session_of u) (users_tracker [5, 6] nxt app l fd) =
    (session_of u, owner_tracker u (nxt + 1) app (l @ [group_op nxt u]) fd, (ST_OK, []),
     if fd < 0 then [] else [send_op fd (group_op nxt u)])"
  by (auto simp: dispatch_def session_of_def group_request_def wire str_ok_def create_group_def commit_def record_and_replicate_def
      users_tracker_def owner_tracker_def own_group_def group_op_def set_group_def Let_def some_user_def has_key_def)

lemma deliverable_group_op: "deliverable (op_bytes (group_op sq u))"
  by (simp add: deliverable_def op_bytes_enc enc_op_def group_op_def)

lemma deliver_group:
  "app < sq \<Longrightarrow> v \<in> {5, 6} \<Longrightarrow>
    process_peer_message fd' (msg_code MSG_SYNC_OP) (op_bytes (group_op sq v)) (owner_tracker u nxt app l fd) =
    (owner_tracker u nxt sq l fd, [(fd', msg_code MSG_SYNC_ACK, seq_bytes sq)])"
  unfolding deliver_op [OF deliverable_group_op]
  by (auto simp: apply_remote_def group_op_def owner_tracker_def own_group_def rd_str2_def wire str_ok_def accept_def
      create_group_def some_user_def has_key_def Let_def)

lemma deliver_group_ack:
  "process_peer_message fd' (msg_code MSG_SYNC_ACK) (seq_bytes sq) (owner_tracker u nxt app l fd) =
    (owner_tracker u nxt app (trim_log sq l) fd, [])"
  by (simp add: deliver_ack owner_tracker_def)

lemma owner_fd [simp]: "sm_out_fd (tr_sync (owner_tracker u n a l fd)) = fd"
  by (simp add: owner_tracker_def)

lemma conflict_run:
  "cluster_step\<^sup>*\<^sup>* two_users (pair_of (owner_tracker 5 4 2 [] 3) (owner_tracker 6 3 3 [] 4) True True 4 [] [])"
proof -
  let ?op = "\<lambda>sq u. (msg_code MSG_SYNC_OP, op_bytes (group_op sq u))" and ?ack = "\<lambda>sq. (msg_code MSG_SYNC_ACK, seq_bytes sq)"
  let ?a = "owner_tracker 5 4" and ?b = "owner_tracker 6 3"
  let ?c1 = "pair_of (?a 1 [group_op 3 5] 3) (users_tracker [5, 6] 2 2 [] 4) True True 4 [?op 3 5] []"
  let ?c2 = "pair_of (?a 1 [group_op 3 5] 3) (?b 2 [group_op 2 6] 4) True True 4 [?op 3 5] [?op 2 6]"
  let ?c3 = "pair_of (?a 1 [group_op 3 5] 3) (?b 3 [group_op 2 6] 4) True True 4 [] [?op 2 6, ?ack 3]"
  let ?c4 = "pair_of (?a 2 [group_op 3 5] 3) (?b 3 [group_op 2 6] 4) True True 4 [?ack 2] [?ack 3]"
  let ?c5 = "pair_of (?a 2 [] 3) (?b 3 [group_op 2 6] 4) True True 4 [?ack 2] []"
  have 1: "cluster_step two_users ?c1"
    using request0 [of 0 "msg_code MSG_CREATE_GROUP" "enc_str [2]" "session_of 5" two_users] request_group [of 5 3 1 "[]" 3]
    by (simp add: two_users_def pair_simps)
  have 2: "cluster_step ?c1 ?c2"
    using request1 [of 0 "msg_code MSG_CREATE_GROUP" "enc_str [2]" "session_of 6" ?c1] request_group [of 6 2 2 "[]" 4]
    by (simp add: pair_simps)
  have 3: "cluster_step ?c2 ?c3"
    by (rule pair_deliver1 [where out = "[?ack 3]"]) (simp_all add: deliver_group deliverable_group_op word_le_nat_alt)
  have 4: "cluster_step ?c3 ?c4"
    by (rule pair_deliver0 [where f' = 3 and out = "[?ack 2]"]) (simp_all add: deliver_group deliverable_group_op word_le_nat_alt)
  have 5: "cluster_step ?c4 ?c5"
    by (rule pair_deliver0 [where f' = 3 and out = "[]"]) (simp_all add: deliver_group_ack trim_log_def group_op_def)
  have 6: "cluster_step ?c5 (pair_of (?a 2 [] 3) (?b 3 [] 4) True True 4 [] [])"
    by (rule pair_deliver1 [where out = "[]"]) (simp_all add: deliver_group_ack trim_log_def group_op_def)
  show ?thesis using 1 2 3 4 5 6 by (meson converse_rtranclp_into_rtranclp rtranclp.rtrancl_refl)
qed

text \<open>Conflicting requests split the trackers for good: from a reachable state in which they agree, the link stays up and
  everything is delivered and acknowledged, yet the group 2, created at both at once, has another owner on each side.\<close>

lemma conflict_splits:
  "\<exists>c0 c. reachable c0 \<and> agreed c0 \<and> cluster_step\<^sup>*\<^sup>* c0 c \<and> settled c \<and> cl_live c \<and> cl_bound c \<and>
    sm_log (tr_sync (cl_t0 c)) = [] \<and> sm_log (tr_sync (cl_t1 c)) = [] \<and>
    map_option g_owner (map_find (ts_groups (tr_state (cl_t0 c))) [2]) = Some [5] \<and>
    map_option g_owner (map_find (ts_groups (tr_state (cl_t1 c))) [2]) = Some [6]"
proof -
  let ?c = "pair_of (owner_tracker 5 4 2 [] 3) (owner_tracker 6 3 3 [] 4) True True 4 [] []"
  have "agreed two_users" by (simp add: agreed_def two_users_def pair_of_def) (simp add: users_tracker_def)
  moreover have "settled ?c \<and> cl_live ?c \<and> cl_bound ?c \<and> sm_log (tr_sync (cl_t0 ?c)) = [] \<and> sm_log (tr_sync (cl_t1 ?c)) = [] \<and>
      map_option g_owner (map_find (ts_groups (tr_state (cl_t0 ?c))) [2]) = Some [5] \<and>
      map_option g_owner (map_find (ts_groups (tr_state (cl_t1 ?c))) [2]) = Some [6]"
    by (simp add: settled_def pair_of_def owner_tracker_def own_group_def)
  ultimately show ?thesis using two_users_reachable conflict_run by blast
qed

end
