(* ===== verification/Tracker_Recovery.thy ===== *)
theory Tracker_Recovery
  imports Tracker_Agreement
begin

text \<open>
  A tracker that has crashed and starts again knows nothing, and asks its peer for a snapshot when the link comes up
  (\<open>connect_loop\<close> and \<open>handle_peer_connection\<close> of \<open>tracker/sync.cpp\<close>). It recovers exactly the tables of its peer. A request
  that one of its clients makes before the snapshot arrives is lost with the tables that the snapshot replaces.
\<close>

section \<open>The snapshot on its way\<close>

lemma answer_snapshot:
  "process_peer_message fd (msg_code MSG_SYNC_SNAPSHOT_REQUEST) [] t = (t, [(fd, msg_code MSG_SYNC_SNAPSHOT_DATA, snapshot (tr_state t))])"
  by (simp add: process_peer_message_def)

lemma take_snapshot:
  "state_ok st \<Longrightarrow> deliverable (snapshot st) \<Longrightarrow>
    process_peer_message fd (msg_code MSG_SYNC_SNAPSHOT_DATA) (snapshot st) t = (t\<lparr>tr_state := st\<rparr>, [])"
  by (simp add: process_peer_message_def deliverable_snapshot)

lemma answer_catchup_empty:
  "sm_log (tr_sync t) = [] \<Longrightarrow> process_peer_message fd (msg_code MSG_SYNC_CATCHUP) (seq_bytes a) t = (t, [])"
  by (simp add: process_peer_message_def send_catchup_from_def)

lemma deliverable_Nil [simp]: "deliverable []"
  by (simp add: deliverable_def)

abbreviation hello_msg :: "u16 \<times> bytes" where
  "hello_msg \<equiv> (msg_code MSG_SYNC_HELLO, buf_data (put_u8 0 new_buf))"

abbreviation ask_msg :: "u16 \<times> bytes" where
  "ask_msg \<equiv> (msg_code MSG_SYNC_SNAPSHOT_REQUEST, [])"

lemma started_facts [simp]: "tr_state started = new_tracker" "sm_log (tr_sync started) = []" "sm_out_fd (tr_sync started) = -1"
  "ts_empty new_tracker"
  by (simp_all add: started_def new_sync_def ts_empty_def new_tracker_def)

lemma set_fd_simps [simp]: "tr_state (set_fd fd t) = tr_state t" "sm_out_fd (tr_sync (set_fd fd t)) = fd"
  "sm_log (tr_sync (set_fd fd t)) = sm_log (tr_sync t)" "sm_applied (tr_sync (set_fd fd t)) = sm_applied (tr_sync t)"
  by (simp_all add: set_fd_def)

section \<open>Both sides of the recovery\<close>

definition crashed :: "bool \<Rightarrow> cluster \<Rightarrow> cluster" where
  "crashed first c = cut_link (if first then c\<lparr>cl_t0 := started\<rparr> else c\<lparr>cl_t1 := started\<rparr>)"

lemma crashed_step: "cluster_step c (crashed first c)"
  using crash0 crash1 by (simp add: crashed_def)

text \<open>Tracker 1 starts again: tracker 0 notices that the link is down and dials.\<close>

lemma recover1:
  assumes st: "state_ok (tr_state t0)" "\<not> ts_empty (tr_state t0)" "deliverable (snapshot (tr_state t0))"
  shows "\<exists>c. cluster_step\<^sup>*\<^sup>* (pair_of t0 started False False f [] []) c \<and> in_step c \<and> tr_state (cl_t0 c) = tr_state t0"
proof -
  let ?st = "tr_state t0" and ?d = "dialer_down t0" and ?a = "set_fd 4 started"
  let ?cu = "(msg_code MSG_SYNC_CATCHUP, seq_bytes (sm_applied (tr_sync ?d)))"
  have d: "tr_state ?d = ?st" "sm_out_fd (tr_sync ?d) < 0" by (auto simp: dialer_down_def set_fd_def)
  let ?c1 = "pair_of ?d started False False f [] []" and ?c2 = "pair_of (set_fd 3 ?d) started True False f [hello_msg, ?cu] []"
  let ?c3 = "pair_of (set_fd 3 ?d) ?a True True 4 [?cu] [ask_msg]" and ?c4 = "pair_of (set_fd 3 ?d) ?a True True 4 [] [ask_msg]"
  let ?c5 = "pair_of (set_fd 3 ?d) ?a True True 4 [(msg_code MSG_SYNC_SNAPSHOT_DATA, snapshot ?st)] []"
  let ?c6 = "pair_of (set_fd 3 ?d) (?a\<lparr>tr_state := ?st\<rparr>) True True 4 [] []"
  have 1: "cluster_step (pair_of t0 started False False f [] []) ?c1"
    using notice0 [of "pair_of t0 started False False f [] []"] by (simp add: pair_of_def)
  have 2: "cluster_step ?c1 ?c2"
    using link_up [of ?c1 3] d st(2) by (simp add: dialer_up_def pair_of_def)
  have 3: "cluster_step ?c2 ?c3"
    using link_bound [of ?c2 "buf_data (put_u8 0 new_buf)" "[?cu]" 4] by (simp add: acceptor_up_def pair_of_def push0_def)
  have 4: "cluster_step ?c3 ?c4"
    by (rule pair_deliver1 [where out = "[]"]) (simp_all add: answer_catchup_empty)
  have 5: "cluster_step ?c4 ?c5"
    by (rule pair_deliver0 [where f' = 3 and out = "[(msg_code MSG_SYNC_SNAPSHOT_DATA, snapshot ?st)]"])
      (simp_all add: answer_snapshot d)
  have 6: "cluster_step ?c5 ?c6"
    by (rule pair_deliver1 [where out = "[]"]) (simp_all add: take_snapshot st)
  have "in_step ?c6" "tr_state (cl_t0 ?c6) = ?st" using d(1) by (simp_all add: in_step_def pair_of_def)
  moreover have "cluster_step\<^sup>*\<^sup>* (pair_of t0 started False False f [] []) ?c6"
    using 1 2 3 4 5 6 by (meson converse_rtranclp_into_rtranclp rtranclp.rtrancl_refl)
  ultimately show ?thesis by blast
qed

text \<open>Tracker 0 starts again and dials; tracker 1 replaces what is left of the old link.\<close>

lemma recover0:
  assumes st: "state_ok (tr_state t1)" "\<not> ts_empty (tr_state t1)" "deliverable (snapshot (tr_state t1))"
  shows "\<exists>c. cluster_step\<^sup>*\<^sup>* (pair_of started t1 False False f [] []) c \<and> in_step c \<and> tr_state (cl_t0 c) = tr_state t1"
proof -
  let ?st = "tr_state t1" and ?d = "set_fd 3 started"
  define g where "g = \<bar>sm_out_fd (tr_sync t1)\<bar> + 1"
  have g: "0 \<le> g" "g \<noteq> sm_out_fd (tr_sync t1)" by (auto simp: g_def)
  let ?c1 = "pair_of started t1 False False f [] []" and ?c2 = "pair_of ?d t1 True False f [hello_msg, ask_msg] []"
  let ?c3 = "pair_of ?d (set_fd g t1) True True g [ask_msg] []"
  let ?c4 = "pair_of ?d (set_fd g t1) True True g [] [(msg_code MSG_SYNC_SNAPSHOT_DATA, snapshot ?st)]"
  let ?c5 = "pair_of (?d\<lparr>tr_state := ?st\<rparr>) (set_fd g t1) True True g [] []"
  have 1: "cluster_step ?c1 ?c2"
    using link_up [of ?c1 3] by (simp add: dialer_up_def pair_of_def)
  have 2: "cluster_step ?c2 ?c3"
    using link_bound [of ?c2 "buf_data (put_u8 0 new_buf)" "[ask_msg]" g] g st(2) by (simp add: acceptor_up_def pair_of_def push0_def)
  have 3: "cluster_step ?c3 ?c4"
    by (rule pair_deliver1 [where out = "[(msg_code MSG_SYNC_SNAPSHOT_DATA, snapshot ?st)]"]) (simp_all add: answer_snapshot)
  have 4: "cluster_step ?c4 ?c5"
    by (rule pair_deliver0 [where f' = 3 and out = "[]"]) (simp_all add: take_snapshot st)
  have "in_step ?c5" "tr_state (cl_t0 ?c5) = ?st" by (simp_all add: in_step_def pair_of_def)
  moreover have "cluster_step\<^sup>*\<^sup>* ?c1 ?c5"
    using 1 2 3 4 by (meson converse_rtranclp_into_rtranclp rtranclp.rtrancl_refl)
  ultimately show ?thesis by blast
qed

lemma crashed_pair:
  "crashed True c = pair_of started (cl_t1 c) False False (cl_fd c) [] []"
  "crashed False c = pair_of (cl_t0 c) started False False (cl_fd c) [] []"
  by (simp_all add: crashed_def cut_link_def pair_of_def)

text \<open>C18. A tracker that has crashed recovers from its peer: in every reachable state in which the other tracker knows somebody and
  its snapshot fits a message, the crashed tracker can come back, and then the link is up, nothing is in flight, and both have
  exactly the tables of the one that stayed up.\<close>

theorem restarted_tracker_recovers:
  assumes "cluster_step\<^sup>*\<^sup>* cluster_start c" and "\<not> ts_empty (tr_state (tracker_at (\<not> i) c))"
    and "deliverable (snapshot (tr_state (tracker_at (\<not> i) c)))"
  shows "\<exists>c'. cluster_step\<^sup>*\<^sup>* (crashed i c) c' \<and> in_step c' \<and> tr_state (tracker_at i c') = tr_state (tracker_at (\<not> i) c)"
proof -
  have "state_ok (tr_state (cl_t0 c))" "state_ok (tr_state (cl_t1 c))" using reachable_ok [OF assms(1)] by (auto simp: cluster_ok_def)
  then show ?thesis
    using assms(2,3) recover0 [of "cl_t1 c" "cl_fd c"] recover1 [of "cl_t0 c" "cl_fd c"]
    by (cases i) (auto simp: tracker_at_def crashed_pair in_step_def)
qed

lemma deliverable_users: "length us \<le> 2 \<Longrightarrow> deliverable (snapshot \<lparr>ts_users = map some_user us, ts_groups = []\<rparr>)"
proof -
  assume "length us \<le> 2"
  have "length (concat (map (enc_user \<circ> snd \<circ> some_user) us)) = 56 * length us"
    by (induction us) (simp_all add: enc_user_def some_user_def hash_password_def)
  then show ?thesis using \<open>length us \<le> 2\<close> by (simp add: deliverable_def snapshot_enc enc_list_def comp_assoc MAX_PAYLOAD_def PIECE_SIZE_def)
qed


definition one_side :: cluster where
  "one_side = pair_of (users_tracker [] 1 0 [] (-1)) (users_tracker [5] 2 0 [user_op 1 5] (-1)) False False (-1) [] []"

lemma one_side_reachable: "reachable one_side"
proof -
  have "cluster_start = pair_of (users_tracker [] 1 0 [] (-1)) (users_tracker [] 1 0 [] (-1)) False False (-1) [] []"
    by (simp add: cluster_start_def started_users pair_of_def)
  then show ?thesis
    using pair_request1 [of 5 "[]" "users_tracker [] 1 0 [] (-1)" 1 0 "[]" "-1" False False "-1" "[]" "[]"]
    by (auto simp: one_side_def)
qed

theorem restarted_tracker_recovers_witness:
  "\<exists>c'. cluster_step\<^sup>*\<^sup>* (crashed True one_side) c' \<and> in_step c' \<and>
    tr_state (tracker_at True c') = \<lparr>ts_users = [some_user 5], ts_groups = []\<rparr>"
proof -
  have s: "tr_state (tracker_at (\<not> True) one_side) = \<lparr>ts_users = map some_user [5], ts_groups = []\<rparr>"
    by (simp add: tracker_at_def one_side_def pair_of_def users_tracker_def)
  show ?thesis
    using restarted_tracker_recovers [OF one_side_reachable, of True, unfolded s] deliverable_users [of "[5]"]
    by (simp add: ts_empty_def)
qed

section \<open>A request before the snapshot arrives\<close>

text \<open>The snapshot of a recovering tracker wipes out what its own clients were told had succeeded: there is a run without any
  failure of the link in which tracker 0, asked to create user 6 while the snapshot is on its way, reports success, and in the end
  everything has been delivered and acknowledged, tracker 1 knows the user, and tracker 0 does not.\<close>

lemma bootstrap_overwrites:
  "\<exists>c c'. reachable c \<and> cl_live c \<and> \<not> has_key (ts_users (tr_state (cl_t0 c))) [6] \<and>
    (\<exists>t out. dispatch 0 (msg_code MSG_CREATE_USER) (enc_str [6] @ enc_str [7]) (new_session []) (cl_t0 c) =
        (new_session [], t, (ST_OK, []), out) \<and> cluster_step\<^sup>*\<^sup>* (push1 out (c\<lparr>cl_t0 := t\<rparr>)) c') \<and>
    cl_live c' \<and> cl_bound c' \<and> cl_to1 c' = [] \<and> cl_to0 c' = [] \<and> sm_log (tr_sync (cl_t0 c')) = [] \<and>
    has_key (ts_users (tr_state (cl_t1 c'))) [6] \<and> \<not> has_key (ts_users (tr_state (cl_t0 c'))) [6]"
proof -
  let ?op = "(msg_code MSG_SYNC_OP, op_bytes (user_op 1 6))" and ?ack = "(msg_code MSG_SYNC_ACK, seq_bytes 1)"
  let ?st = "\<lparr>ts_users = map some_user [5], ts_groups = []\<rparr>"
  let ?data = "(msg_code MSG_SYNC_SNAPSHOT_DATA, snapshot ?st)"
  let ?t1 = "users_tracker [5] 2 0 [user_op 1 5]"
  let ?c1 = "pair_of (users_tracker [] 1 0 [] 3) (?t1 (-1)) True False (-1) [hello_msg, ask_msg] []"
  let ?c2 = "pair_of (users_tracker [] 1 0 [] 3) (?t1 4) True True 4 [ask_msg] []"
  let ?c3 = "pair_of (users_tracker [6] 2 0 [user_op 1 6] 3) (?t1 4) True True 4 [ask_msg, ?op] []"
  let ?c4 = "pair_of (users_tracker [6] 2 0 [user_op 1 6] 3) (?t1 4) True True 4 [?op] [?data]"
  let ?c5 = "pair_of (users_tracker [6] 2 0 [user_op 1 6] 3) (users_tracker [5, 6] 2 1 [user_op 1 5] 4) True True 4 [] [?data, ?ack]"
  let ?c6 = "pair_of (users_tracker [5] 2 0 [user_op 1 6] 3) (users_tracker [5, 6] 2 1 [user_op 1 5] 4) True True 4 [] [?ack]"
  let ?c7 = "pair_of (users_tracker [5] 2 0 [] 3) (users_tracker [5, 6] 2 1 [user_op 1 5] 4) True True 4 [] []"
  have 1: "cluster_step one_side ?c1"
    using link_up [of one_side 3] by (simp add: one_side_def dialer_up_def pair_of_def users_tracker_def set_fd_def ts_empty_def)
  have 2: "cluster_step ?c1 ?c2"
    using link_bound [of ?c1 "buf_data (put_u8 0 new_buf)" "[ask_msg]" 4]
    by (simp add: acceptor_up_def pair_of_def users_tracker_def set_fd_def ts_empty_def push0_def)
  note 3 = request_some_user [of 6 "[]" 1 0 "[]" 3]
  have c3: "push1 [send_op 3 (user_op 1 6)] (?c2\<lparr>cl_t0 := users_tracker [6] 2 0 [user_op 1 6] 3\<rparr>) = ?c3" by (simp add: pair_simps)
  have ok: "state_ok ?st" using users_tracker_ok [of 1 0 "[]" 3] by (simp add: users_tracker_def)
  have 4: "cluster_step ?c3 ?c4"
    by (rule pair_deliver1 [where out = "[?data]"]) (simp_all add: answer_snapshot users_tracker_def)
  have 5: "cluster_step ?c4 ?c5"
    by (rule pair_deliver1 [where out = "[?ack]"]) (simp_all add: deliver_some_user deliverable_user_op word_le_nat_alt)
  have d: "deliverable (snapshot ?st)" by (rule deliverable_users) simp
  have 6: "cluster_step ?c5 ?c6"
    by (rule pair_deliver0 [where f' = 3 and out = "[]"]) (use take_snapshot [OF ok d] d in \<open>simp_all add: users_tracker_def\<close>)
  have 7: "cluster_step ?c6 ?c7"
    by (rule pair_deliver0 [where f' = 3 and out = "[]"]) (simp_all add: deliver_user_ack trim_log_def user_op_def)
  have r: "reachable ?c2" using one_side_reachable 1 2 by (meson reach_step)
  have run: "cluster_step\<^sup>*\<^sup>* ?c3 ?c7" using 4 5 6 7 by (meson converse_rtranclp_into_rtranclp rtranclp.rtrancl_refl)
  have "cl_live ?c2 \<and> \<not> has_key (ts_users (tr_state (cl_t0 ?c2))) [6]" by (simp add: pair_of_def users_tracker_def)
  moreover have "cl_live ?c7 \<and> cl_bound ?c7 \<and> cl_to1 ?c7 = [] \<and> cl_to0 ?c7 = [] \<and> sm_log (tr_sync (cl_t0 ?c7)) = [] \<and>
      has_key (ts_users (tr_state (cl_t1 ?c7))) [6] \<and> \<not> has_key (ts_users (tr_state (cl_t0 ?c7))) [6]"
    by (simp add: pair_of_def users_tracker_def del: list.map)
  moreover have "dispatch 0 (msg_code MSG_CREATE_USER) (enc_str [6] @ enc_str [7]) (new_session []) (cl_t0 ?c2) =
      (new_session [], users_tracker [6] 2 0 [user_op 1 6] 3, (ST_OK, []), [send_op 3 (user_op 1 6)])"
    using 3 by (simp add: pair_of_def)
  moreover have "cluster_step\<^sup>*\<^sup>* (push1 [send_op 3 (user_op 1 6)] (?c2\<lparr>cl_t0 := users_tracker [6] 2 0 [user_op 1 6] 3\<rparr>)) ?c7"
    unfolding c3 by (rule run)
  ultimately show ?thesis using r by blast
qed

end
