(* ===== verification/Accepted_Connections.thy ===== *)
theory Accepted_Connections
  imports Sockets
begin

text \<open>
  Who closes which descriptor on a tracker: the accept loop of \<open>tracker/main.cpp\<close> with a thread per connection, and the
  threads of \<open>handle_peer_connection\<close> (\<open>tracker/sync.cpp\<close>), which share \<open>__out_fd\<close>. Connections are numbered in the order in which
  they are accepted; the descriptor table says which connection a descriptor refers to.
\<close>

section \<open>The threads\<close>

text \<open>A thread waits for the first message, then is a client's session or the link of the peer.\<close>

datatype role = First_Message | Client_Session | Peer_Link

record acceptor =
  ac_fds :: "nat fd_table"
  ac_next :: nat
  ac_threads :: "nat \<Rightarrow> (role \<times> int) option"
  ac_out_fd :: int

definition acceptor_start :: acceptor where
  "acceptor_start = \<lparr>ac_fds = [], ac_next = 0, ac_threads = (\<lambda>c. None), ac_out_fd = -1\<rparr>"

text \<open>\<open>accept\<close>, and the thread it starts.\<close>

definition accept_conn :: "acceptor \<Rightarrow> acceptor" where
  "accept_conn s =
    (case open_fd (ac_next s) (ac_fds s) of
       (fd, t) \<Rightarrow> s\<lparr>ac_fds := t, ac_next := Suc (ac_next s), ac_threads := (ac_threads s)(ac_next s \<mapsto> (First_Message, fd))\<rparr>)"

text \<open>The first message is no hello: a session.\<close>

definition begin_session :: "nat \<Rightarrow> int \<Rightarrow> acceptor \<Rightarrow> acceptor" where
  "begin_session c fd s = s\<lparr>ac_threads := (ac_threads s)(c \<mapsto> (Client_Session, fd))\<rparr>"

text \<open>The first critical section of \<open>handle_peer_connection\<close>.\<close>

definition begin_link :: "nat \<Rightarrow> int \<Rightarrow> acceptor \<Rightarrow> acceptor" where
  "begin_link c fd s =
    (let s = (if ac_out_fd s \<ge> 0 then s\<lparr>ac_fds := close_fd (ac_out_fd s) (ac_fds s)\<rparr> else s)
     in s\<lparr>ac_out_fd := fd, ac_threads := (ac_threads s)(c \<mapsto> (Peer_Link, fd))\<rparr>)"

text \<open>No first message, and the end of \<open>Session::run\<close>.\<close>

definition end_conn :: "nat \<Rightarrow> int \<Rightarrow> acceptor \<Rightarrow> acceptor" where
  "end_conn c fd s = s\<lparr>ac_fds := close_fd fd (ac_fds s), ac_threads := (ac_threads s)(c := None)\<rparr>"

text \<open>The last critical section of \<open>handle_peer_connection\<close>.\<close>

definition end_link :: "nat \<Rightarrow> int \<Rightarrow> acceptor \<Rightarrow> acceptor" where
  "end_link c fd s =
    (if ac_out_fd s = fd then s\<lparr>ac_fds := close_fd fd (ac_fds s), ac_out_fd := -1, ac_threads := (ac_threads s)(c := None)\<rparr>
     else s\<lparr>ac_fds := close_fd fd (ac_fds s), ac_threads := (ac_threads s)(c := None)\<rparr>)"

inductive acceptor_step :: "acceptor \<Rightarrow> acceptor \<Rightarrow> bool" where
  accepted: "acceptor_step s (accept_conn s)"
| session: "ac_threads s c = Some (First_Message, fd) \<Longrightarrow> acceptor_step s (begin_session c fd s)"
| hello: "ac_threads s c = Some (First_Message, fd) \<Longrightarrow> acceptor_step s (begin_link c fd s)"
| hung_up: "ac_threads s c = Some (role, fd) \<Longrightarrow> role \<noteq> Peer_Link \<Longrightarrow> acceptor_step s (end_conn c fd s)"
| link_over: "ac_threads s c = Some (Peer_Link, fd) \<Longrightarrow> acceptor_step s (end_link c fd s)"

section \<open>Each thread has its own connection\<close>

text \<open>In terms of what the descriptors refer to (\<open>A\<close>), the threads (\<open>T\<close>), the next connection and \<open>__out_fd\<close>.\<close>

definition conns_ok :: "(int \<Rightarrow> nat option) \<Rightarrow> (nat \<Rightarrow> (role \<times> int) option) \<Rightarrow> nat \<Rightarrow> int \<Rightarrow> bool" where
  "conns_ok A T n out \<longleftrightarrow>
     (\<forall>c role fd. T c = Some (role, fd) \<longrightarrow> A fd = Some c \<and> c < n \<and> (role = Peer_Link \<longrightarrow> fd = out)) \<and>
     (\<forall>fd c. A fd = Some c \<longrightarrow> (\<exists>role. T c = Some (role, fd))) \<and>
     (0 \<le> out \<longrightarrow> (\<exists>c. T c = Some (Peer_Link, out)))"

lemma conns_okI:
  assumes "\<And>c role fd. T c = Some (role, fd) \<Longrightarrow> A fd = Some c \<and> c < n \<and> (role = Peer_Link \<longrightarrow> fd = out)"
    and "\<And>fd c. A fd = Some c \<Longrightarrow> \<exists>role. T c = Some (role, fd)"
    and "0 \<le> out \<Longrightarrow> \<exists>c. T c = Some (Peer_Link, out)"
  shows "conns_ok A T n out"
  using assms unfolding conns_ok_def by blast

lemma conns_okD:
  assumes "conns_ok A T n out"
  shows "T c = Some (role, fd) \<Longrightarrow> A fd = Some c" and "T c = Some (role, fd) \<Longrightarrow> c < n"
    and "T c = Some (Peer_Link, fd) \<Longrightarrow> fd = out" and "A fd = Some c \<Longrightarrow> \<exists>role. T c = Some (role, fd)"
    and "0 \<le> out \<Longrightarrow> \<exists>c. T c = Some (Peer_Link, out)"
  using assms unfolding conns_ok_def by blast+

lemma conns_accept:
  assumes ok: "conns_ok A T n out" and fd: "A fd = None"
  shows "conns_ok (A(fd \<mapsto> n)) (T(n \<mapsto> (First_Message, fd))) (Suc n) out"
proof (rule conns_okI)
  have new: "T n = None" using conns_okD(2) [OF ok, of n] by (cases "T n") auto
  show "(A(fd \<mapsto> n)) f = Some c \<and> c < Suc n \<and> (role = Peer_Link \<longrightarrow> f = out)"
    if "(T(n \<mapsto> (First_Message, fd))) c = Some (role, f)" for c role f
  proof (cases "c = n")
    case False
    then have t: "T c = Some (role, f)" using that by simp
    then have "f \<noteq> fd" using conns_okD(1) [OF ok t] fd by auto
    then show ?thesis using conns_okD(1,2) [OF ok t] conns_okD(3) [OF ok, of c f] t by (auto simp: less_Suc_eq)
  qed (use that in auto)
  show "\<exists>role. (T(n \<mapsto> (First_Message, fd))) c = Some (role, f)" if "(A(fd \<mapsto> n)) f = Some c" for f c
  proof (cases "f = fd")
    case False
    then have "A f = Some c" using that by simp
    then obtain r where "T c = Some (r, f)" using conns_okD(4) [OF ok] by blast
    then show ?thesis using new by (auto split: if_splits)
  qed (use that in auto)
  show "\<exists>c. (T(n \<mapsto> (First_Message, fd))) c = Some (Peer_Link, out)" if "0 \<le> out"
  proof -
    obtain c where "T c = Some (Peer_Link, out)" using conns_okD(5) [OF ok \<open>0 \<le> out\<close>] by blast
    then have "(T(n \<mapsto> (First_Message, fd))) c = Some (Peer_Link, out)" using new by auto
    then show ?thesis ..
  qed
qed

lemma conns_role:
  assumes ok: "conns_ok A T n out" and c: "T c = Some (First_Message, fd)" and r: "role \<noteq> Peer_Link"
  shows "conns_ok A (T(c \<mapsto> (role, fd))) n out"
proof (rule conns_okI)
  show "A f = Some d \<and> d < n \<and> (r = Peer_Link \<longrightarrow> f = out)" if "(T(c \<mapsto> (role, fd))) d = Some (r, f)" for d r f
    using that conns_okD(1,2) [OF ok, of d] conns_okD(1,2) [OF ok c] conns_okD(3) [OF ok, of d f] assms(3)
    by (auto split: if_splits)
  show "\<exists>r. (T(c \<mapsto> (role, fd))) d = Some (r, f)" if "A f = Some d" for f d
    using conns_okD(4) [OF ok that] c by auto
  show "\<exists>d. (T(c \<mapsto> (role, fd))) d = Some (Peer_Link, out)" if "0 \<le> out"
  proof -
    obtain d where "T d = Some (Peer_Link, out)" using conns_okD(5) [OF ok \<open>0 \<le> out\<close>] by blast
    then have "(T(c \<mapsto> (role, fd))) d = Some (Peer_Link, out)" using c by auto
    then show ?thesis ..
  qed
qed

lemma conns_link:
  assumes ok: "conns_ok A T n out" and c: "T c = Some (First_Message, fd)" and no: "\<And>d f. T d \<noteq> Some (Peer_Link, f)"
  shows "conns_ok A (T(c \<mapsto> (Peer_Link, fd))) n fd"
proof (rule conns_okI)
  show "A f = Some d \<and> d < n \<and> (r = Peer_Link \<longrightarrow> f = fd)" if "(T(c \<mapsto> (Peer_Link, fd))) d = Some (r, f)" for d r f
    using that conns_okD(1,2) [OF ok, of d] conns_okD(1,2) [OF ok c] no [of d f] by (auto split: if_splits)
  show "\<exists>r. (T(c \<mapsto> (Peer_Link, fd))) d = Some (r, f)" if "A f = Some d" for f d
    using conns_okD(4) [OF ok that] c by auto
qed auto

lemma conns_close:
  assumes ok: "conns_ok A T n out" and c: "T c = Some (role, fd)" and out: "out' = (if role = Peer_Link then -1 else out)"
  shows "conns_ok (A(fd := None)) (T(c := None)) n out'"
proof (rule conns_okI)
  have fd: "A fd = Some c" by (rule conns_okD(1) [OF ok c])
  show "(A(fd := None)) f = Some d \<and> d < n \<and> (r = Peer_Link \<longrightarrow> f = out')" if "(T(c := None)) d = Some (r, f)" for d r f
  proof -
    have d: "d \<noteq> c" "T d = Some (r, f)" using that by (auto split: if_splits)
    have f: "A f = Some d" "d < n" using conns_okD(1,2) [OF ok d(2)] by auto
    then have "f \<noteq> fd" using fd d(1) by auto
    moreover have "f = out'" if "r = Peer_Link"
    proof -
      have "f = out" using conns_okD(3) [OF ok, of d f] d(2) that by simp
      moreover have "role \<noteq> Peer_Link" using conns_okD(3) [OF ok, of c fd] c \<open>f \<noteq> fd\<close> \<open>f = out\<close> by auto
      ultimately show ?thesis using out by simp
    qed
    ultimately show ?thesis using f by simp
  qed
  show "\<exists>r. (T(c := None)) d = Some (r, f)" if "(A(fd := None)) f = Some d" for f d
  proof -
    have f: "f \<noteq> fd" "A f = Some d" using that by (auto split: if_splits)
    then obtain r where "T d = Some (r, f)" using conns_okD(4) [OF ok] by blast
    moreover from this have "d \<noteq> c" using f(1) c by auto
    ultimately show ?thesis by auto
  qed
  show "\<exists>d. (T(c := None)) d = Some (Peer_Link, out')" if "0 \<le> out'"
  proof -
    have o: "role \<noteq> Peer_Link" "out' = out" using out that by (auto split: if_splits)
    have "0 \<le> out" using o that by simp
    from conns_okD(5) [OF ok this] obtain d where d: "T d = Some (Peer_Link, out)" by blast
    then have "d \<noteq> c" using o c by auto
    then have "(T(c := None)) d = Some (Peer_Link, out')" using d o by simp
    then show ?thesis ..
  qed
qed

abbreviation acceptor_ok :: "acceptor \<Rightarrow> bool" where
  "acceptor_ok s \<equiv> conns_ok (fd_at (ac_fds s)) (ac_threads s) (ac_next s) (ac_out_fd s)"

text \<open>A peer link starts only when there is none.\<close>

definition single_link_step :: "acceptor \<Rightarrow> acceptor \<Rightarrow> bool" where
  "single_link_step s s' \<longleftrightarrow> acceptor_step s s' \<and>
     (\<forall>c d fd fd'. ac_threads s' c = Some (Peer_Link, fd) \<longrightarrow> ac_threads s' d = Some (Peer_Link, fd') \<longrightarrow> c = d)"

lemma acceptor_start_ok: "acceptor_ok acceptor_start"
  by (simp add: conns_ok_def acceptor_start_def fd_at_def)

lemma accept_conn_ok: "acceptor_ok s \<Longrightarrow> acceptor_ok (accept_conn s)"
proof (cases "open_fd (ac_next s) (ac_fds s)")
  case (Pair fd t)
  note o = fds.opened [OF Pair]
  assume "acceptor_ok s"
  from conns_accept [OF this, of fd] show ?thesis using o by (simp add: accept_conn_def Pair)
qed

lemma begin_link_ok:
  assumes ok: "acceptor_ok s" and c: "ac_threads s c = Some (First_Message, fd)"
    and one: "\<And>d fd'. ac_threads (begin_link c fd s) d = Some (Peer_Link, fd') \<Longrightarrow> d = c"
  shows "acceptor_ok (begin_link c fd s)"
proof -
  have t: "ac_threads (begin_link c fd s) = (ac_threads s)(c \<mapsto> (Peer_Link, fd))" by (simp add: begin_link_def Let_def)
  have no: "ac_threads s d \<noteq> Some (Peer_Link, fd')" for d fd'
    using one [of d fd'] c unfolding t by (cases "d = c") auto
  then have "\<not> ac_out_fd s \<ge> 0" using conns_okD(5) [OF ok] by blast
  then show ?thesis using conns_link [OF ok c no] by (simp add: begin_link_def)
qed

lemma end_conn_ok:
  "acceptor_ok s \<Longrightarrow> ac_threads s c = Some (role, fd) \<Longrightarrow> role \<noteq> Peer_Link \<Longrightarrow> acceptor_ok (end_conn c fd s)"
  using conns_close [of "fd_at (ac_fds s)" "ac_threads s" "ac_next s" "ac_out_fd s" c role fd "ac_out_fd s"]
  by (simp add: end_conn_def fds.closed)

lemma end_link_ok:
  "acceptor_ok s \<Longrightarrow> ac_threads s c = Some (Peer_Link, fd) \<Longrightarrow> acceptor_ok (end_link c fd s)"
  using conns_close [of "fd_at (ac_fds s)" "ac_threads s" "ac_next s" "ac_out_fd s" c Peer_Link fd "-1"]
    conns_okD(3) [of "fd_at (ac_fds s)" "ac_threads s" "ac_next s" "ac_out_fd s" c fd]
  by (simp add: end_link_def fds.closed)

lemma single_link_ok: "single_link_step s s' \<Longrightarrow> acceptor_ok s \<Longrightarrow> acceptor_ok s'"
proof -
  assume "single_link_step s s'" and ok: "acceptor_ok s"
  then have "acceptor_step s s'"
    and one: "\<And>c d fd fd'. ac_threads s' c = Some (Peer_Link, fd) \<Longrightarrow> ac_threads s' d = Some (Peer_Link, fd') \<Longrightarrow> c = d"
    unfolding single_link_step_def by blast+
  from this(1) ok one show ?thesis
  proof (cases rule: acceptor_step.cases)
    case (hello c fd)
    have "ac_threads s' c = Some (Peer_Link, fd)" using hello by (simp add: begin_link_def Let_def)
    then have "ac_threads (begin_link c fd s) d = Some (Peer_Link, fd') \<Longrightarrow> d = c" for d fd' using one hello(1) by blast
    then show ?thesis using begin_link_ok [OF ok hello(2)] hello(1) by simp
  next
    case (session c fd)
    then show ?thesis using conns_role [OF ok session(2), of Client_Session] by (simp add: begin_session_def)
  qed (use ok in \<open>simp_all add: accept_conn_ok end_conn_ok end_link_ok\<close>)
qed

text \<open>C17. As long as a tracker has no more than one link with its peer at a time, every thread reads and writes the connection it was
  started for and closes nobody else's descriptor: at every moment the descriptor of a thread refers to its connection, and every
  open descriptor belongs to a thread.\<close>

theorem threads_own_connections:
  assumes "single_link_step\<^sup>*\<^sup>* acceptor_start s"
  shows "(ac_threads s c = Some (role, fd) \<longrightarrow> fd_at (ac_fds s) fd = Some c) \<and>
    (fd_at (ac_fds s) fd = Some c \<longrightarrow> (\<exists>role. ac_threads s c = Some (role, fd)))"
proof -
  have "acceptor_ok s" using assms
    by (induction rule: rtranclp_induct) (auto intro: acceptor_start_ok single_link_ok)
  from conns_okD(1) [OF this, of c role fd] conns_okD(4) [OF this, of fd c] show ?thesis by blast
qed

section \<open>Two links\<close>

definition first_link :: acceptor where
  "first_link = begin_link 0 0 (accept_conn acceptor_start)"

text \<open>The peer, whose connection broke without a word, links again; a client gets the descriptor that this has closed.\<close>

definition second_link :: acceptor where
  "second_link = begin_session 2 0 (accept_conn (begin_link 1 1 (accept_conn first_link)))"

lemma first_link_simp: "first_link = \<lparr>ac_fds = [Some 0], ac_next = 1, ac_threads = (\<lambda>c. None)(0 \<mapsto> (Peer_Link, 0)), ac_out_fd = 0\<rparr>"
  by (simp add: first_link_def begin_link_def accept_conn_def acceptor_start_def open_fd_def Let_def)

lemma first_link_steps: "single_link_step\<^sup>*\<^sup>* acceptor_start first_link"
proof -
  have "single_link_step acceptor_start (accept_conn acceptor_start)"
    using accepted [of acceptor_start]
    by (auto simp: single_link_step_def accept_conn_def acceptor_start_def open_fd_def split: if_splits)
  moreover have "acceptor_step (accept_conn acceptor_start) first_link"
    unfolding first_link_def by (rule hello) (simp add: accept_conn_def acceptor_start_def open_fd_def)
  then have "single_link_step (accept_conn acceptor_start) first_link"
    by (auto simp: single_link_step_def first_link_simp split: if_splits)
  ultimately show ?thesis by (meson rtranclp.rtrancl_into_rtrancl rtranclp.rtrancl_refl)
qed

theorem threads_own_connections_witness:
  "fd_at (ac_fds first_link) 0 = Some 0 \<and> (\<exists>role. ac_threads first_link 0 = Some (role, 0))"
  using threads_own_connections [OF first_link_steps, of 0 Peer_Link 0] by (simp add: first_link_simp)

lemma second_link_simp: "second_link = \<lparr>ac_fds = [Some 2, Some 1], ac_next = 3,
    ac_threads = (\<lambda>c. None)(0 \<mapsto> (Peer_Link, 0), 1 \<mapsto> (Peer_Link, 1), 2 \<mapsto> (Client_Session, 0)), ac_out_fd = 1\<rparr>"
  by (simp add: second_link_def first_link_simp begin_link_def begin_session_def accept_conn_def open_fd_def close_fd_def Let_def
      numeral_3_eq_3 fun_eq_iff)

lemma second_link_steps: "acceptor_step\<^sup>*\<^sup>* acceptor_start second_link"
proof -
  have s: "acceptor_step\<^sup>*\<^sup>* acceptor_start first_link"
    using first_link_steps by (rule rtranclp_mono [THEN predicate2D, rotated]) (auto simp: single_link_step_def)
  have 1: "acceptor_step first_link (accept_conn first_link)" by (rule accepted)
  have 2: "acceptor_step (accept_conn first_link) (begin_link 1 1 (accept_conn first_link))"
    by (rule hello) (simp add: first_link_simp accept_conn_def open_fd_def)
  have 3: "acceptor_step (begin_link 1 1 (accept_conn first_link)) (accept_conn (begin_link 1 1 (accept_conn first_link)))"
    by (rule accepted)
  have 4: "acceptor_step (accept_conn (begin_link 1 1 (accept_conn first_link))) second_link"
    unfolding second_link_def
    by (rule session) (simp add: first_link_simp begin_link_def accept_conn_def open_fd_def close_fd_def Let_def numeral_2_eq_2)
  show ?thesis using s 1 2 3 4 by (meson rtranclp.rtrancl_into_rtrancl)
qed

text \<open>A second link breaks this: \<open>handle_peer_connection\<close> closes the descriptor of the first while its thread still uses it, and that
  thread closes it again when it ends, though it may be a client's by then. A state can be reached in which two clients'
  sessions have the same descriptor, so that the replies to one go to the other.\<close>

lemma descriptor_shared:
  "\<exists>s fd. acceptor_step\<^sup>*\<^sup>* acceptor_start s \<and> ac_threads s 2 = Some (Client_Session, fd) \<and>
    ac_threads s 3 = Some (Client_Session, fd) \<and> fd_at (ac_fds s) fd = Some 3"
proof -
  let ?s = "begin_session 3 0 (accept_conn (end_link 0 0 second_link))"
  have 1: "acceptor_step second_link (end_link 0 0 second_link)" by (rule link_over) (simp add: second_link_simp)
  have 2: "acceptor_step (end_link 0 0 second_link) (accept_conn (end_link 0 0 second_link))" by (rule accepted)
  have 3: "acceptor_step (accept_conn (end_link 0 0 second_link)) ?s"
    by (rule session) (simp add: second_link_simp end_link_def accept_conn_def open_fd_def close_fd_def)
  have "acceptor_step\<^sup>*\<^sup>* acceptor_start ?s" using second_link_steps 1 2 3 by (meson rtranclp.rtrancl_into_rtrancl)
  moreover have "ac_threads ?s 2 = Some (Client_Session, 0)" "ac_threads ?s 3 = Some (Client_Session, 0)"
    "fd_at (ac_fds ?s) 0 = Some 3"
    by (simp_all add: second_link_simp end_link_def begin_session_def accept_conn_def open_fd_def close_fd_def fd_at_def)
  ultimately show ?thesis by blast
qed

end
