(* ===== verification/Spec2Isabelle.thy ===== *)
theory Spec2Isabelle
  imports Cross_Sharing Progress Fault_Tolerance Job_Steps Client_Exit Client_Sockets Seeder_Loop Store_Lifetime Typed_Buffer Tracker_Threads Tracker_Concurrent
    Tracker_Recovery Accepted_Connections
begin

text \<open>
  A verification library for a peer-to-peer file sharing system: two trackers that replicate each other, and clients that
  upload, seed and download files in pieces of 512 KiB. The definitions follow the C++ sources under \<open>src/\<close>; each
  theory names the files it models, and this header says how the parts fit together.

  \<^bold>\<open>The program.\<close> A client (\<open>src/client\<close>) sends requests over one TCP connection to a tracker and fails over to the other
  one. A tracker (\<open>src/tracker\<close>) keeps users, groups and published files, answers the requests of its sessions, and sends each
  operation that changes its tables to its peer, which applies it. Peers fetch pieces from each other directly: the seeder
  of one client serves what the download threads of another ask for, checked against the SHA-1 hashes that the tracker hands
  out. Both programs share the framing, the payload buffer and the hash of \<open>src/common\<close>.

  \<^bold>\<open>Common parts.\<close>
  \<^item> \<open>P2P_Prelude\<close>: machine integers as words, byte strings, integers in memory and in network order.
  \<^item> \<open>Std_Containers\<close>: \<open>std::map\<close> and \<open>std::set\<close> as sorted lists, behind the interface \<open>ordered_map\<close>, with the
    extensionality that lets the tables of two trackers be compared by equality.
  \<^item> \<open>Protocol\<close>: \<open>common/protocol.hpp\<close>: constants, opcodes, statuses, the header; \<open>status_str\<close>.
  \<^item> \<open>Wire_Buffer\<close>: \<open>common/buffer.*\<close>, and the interfaces \<open>wire_reader\<close>, \<open>wire_codec\<close>, \<open>fixed_codec\<close> and
    \<open>stable_reader\<close>, which say that a reader undoes a writer and does not look past what it reads. They are interpreted for
    every width and for strings, later for operations, users, groups and files.
  \<^item> \<open>Net\<close>: \<open>common/net.cpp\<close>: \<open>send_all\<close>, \<open>recv_all\<close>, \<open>send_msg\<close>, \<open>recv_msg\<close>, \<open>parse_endpoint\<close>. The kernel is a
    list of events: bytes accepted or delivered in portions of any size, interrupted calls, closed and broken connections.
  \<^item> \<open>Sockets\<close>: \<open>tcp_connect\<close> and \<open>tcp_listen\<close> over the descriptor table of a process, which offers the interface
    \<open>descriptors\<close>; \<open>inet_pton\<close> and \<open>inet_ntop\<close>. \<open>Typed_Buffer\<close>: the buffer under any sequence of typed writes and reads.
  \<^item> \<open>Text_Input\<close>: formatted input of streams, \<open>tokenize\<close>, and the lines of \<open>tracker_info.txt\<close>.
  \<^item> \<open>Sha1\<close>: the streaming class of \<open>common/sha1.cpp\<close>, proved equal to RFC 3174, which the theory states on its own.
  \<^item> \<open>Work_Pool\<close>: threads that take indices from an atomic 32-bit counter, as an interleaving of their atomic steps; used by
    \<open>hash_file\<close> and by \<open>resume_scan\<close>.
  \<^item> \<open>Disk_IO\<close>: \<open>pread\<close>, \<open>pwrite\<close>, \<open>lseek\<close>, \<open>ftruncate\<close> on a file as a byte string, with partial and failing calls.

  \<^bold>\<open>The tracker.\<close>
  \<^item> \<open>Tracker_State\<close>: every method of the class \<open>TrackerState\<close> on the record \<open>tracker_state\<close> (users and groups by
    key; a group has an owner, members, applicants and files; a file has seeders with bitmaps), and its invariant \<open>state_ok\<close>.
  \<^item> \<open>Tracker_Spec\<close>: the commands as data, the interface \<open>tracker_op\<close> that every operation satisfies, and the abstract rosters
    (owner, members, applicants as sets) that the operations refine, as an instance of the interface \<open>simulation\<close>.
  \<^item> \<open>Tracker_Snapshot\<close>: \<open>snapshot\<close> and \<open>restore\<close>. \<open>Tracker_Sync\<close>: the class \<open>SyncManager\<close>: the log of operations,
    acknowledgements, catch-up, and \<open>apply_remote\<close>. \<open>Tracker_Session\<close>: \<open>Session::dispatch\<close>, one definition per request.
  \<^item> \<open>Tracker_Process\<close>: \<open>tracker/main.cpp\<close>: the configuration, and the thread of a connection over its bytes.
    \<open>Accepted_Connections\<close>: which of these threads opens and closes which descriptor. \<open>Tracker_Threads\<close>: the critical sections of the
    session threads, interleaved. \<open>Sync_Link\<close>: the thread of \<open>connect_loop\<close> with \<open>start\<close> and \<open>stop\<close>, and \<open>Tracker_Main\<close>: the
    life of the process around it, from \<open>tcp_listen\<close> to \<open>quit\<close>.
  \<^item> \<open>Tracker_Cluster\<close>: two trackers, the link between them as two queues, and crashes, as the relation \<open>cluster_step\<close>.
    \<open>Tracker_Agreement\<close>: in what sense they agree while users are logged in, and that they come to agree again after one request.
    \<open>Concurrent_Ops\<close>: which operations commute, behind the interface \<open>concurrent_ops\<close>, and \<open>Tracker_Concurrent\<close>: requests at both
    trackers while operations of both are on their way. \<open>Tracker_Recovery\<close>: a tracker that starts again after a crash.

  \<^bold>\<open>The client.\<close>
  \<^item> \<open>Piece_Store\<close>: the class \<open>PieceStore\<close>: bitmap, reading and writing of pieces, the scan that resumes a download.
    \<open>File_Hash\<close>: \<open>hash_file\<close>, and what a complete store says of its file.
  \<^item> \<open>Seeder\<close>: the table of shares and the answers to peers. A store is an address in a heap, because the seeder and the download
    that fills it share the object. \<open>Seeder_Loop\<close>: \<open>start\<close>, the accept thread and \<open>stop\<close>. \<open>Store_Lifetime\<close>: the owners of a store
    (\<open>shared_ptr\<close>) and its destructor, over the descriptor table of the process.
  \<^item> \<open>Peer_Workers\<close>: the threads of one download round over the shared store, file and queue, as the relation \<open>worker_step\<close>;
    every atomic access is a step. \<open>Download_Manager\<close>: fetching one piece, the rounds, \<open>run_job\<close>, the table of jobs.
    \<open>Fault_Tolerance\<close>: what a round achieves when some of its threads fail and others do not. \<open>Job_Steps\<close>: \<open>run_job\<close> as a machine
    whose steps are those of its scan and of the threads of its rounds, for a bound on every run of a job.
  \<^item> \<open>Tracker_Client\<close>: the connection with fail-over, over an abstract \<open>link\<close> whose laws are the interface \<open>dialled_link\<close>; it is
    interpreted by the modelled trackers. \<open>Client_Sockets\<close>: the same client over the descriptor table.
    \<open>Client_Shell\<close>: every command of \<open>client/main.cpp\<close>. \<open>Client_Process\<close>: commands, requests of download threads and ends of
    downloads in any order. \<open>Client_Exit\<close>: how the client ends while downloads are running.
  \<^item> \<open>Peer_Exchange\<close>, \<open>File_Sharing\<close>, \<open>Progress\<close> and \<open>Cross_Sharing\<close> put the parts together: the peer list and a piece on its way
    between two clients, a file from the disk of its uploader through the tracker to the disk of a downloader, what a download
    announces, and a file that is uploaded at one tracker and downloaded by a user of the other.

  \<^bold>\<open>What the properties show.\<close> The tables of a tracker stay sound under every command and every connection, and membership follows
  the owner's decisions. Messages, snapshots, operations and metadata are read back as they were written, and
  SHA-1 is SHA-1. Replication applies each operation with the sender's result; while the link is up the trackers converge, whoever is
  logged in where, also under concurrent requests without trailing bytes when none conflicts with an operation that is still on its
  way to the tracker that executes it; and a tracker that has crashed recovers from the other. A store marks only pieces whose bytes on disk have the published hash, through failing writes and restarts; a download loses no
  piece, ends, reports success only with the published file, and succeeds when its peers answer; when some fail, a round leaves at most
  one missing piece for each of their threads. A file that is uploaded arrives, also across the
  trackers. However threads interleave, replication drops and invents nothing, and with one link at a time each thread
  keeps to its own connection; the file of a store is open as long as somebody uses it; seeder, tracker and client can be stopped. Some
  properties and lemmas state what does not hold: an operation that is lost after a reconnection (\<open>operation_lost\<close>) or overtaken in the log
  (\<open>race_diverges\<close>), a forged replication (\<open>stop_share_forged\<close>), a message too long to be received
  (\<open>oversized_message_refused\<close>), tables replaced by a stranger (\<open>tracker_overwritten\<close>), two sessions on one descriptor
  (\<open>descriptor_shared\<close>), a \<open>stop\<close> that waits for the peer (\<open>stop_may_hang\<close>), a logout that the other tracker never hears of
  (\<open>logout_splits\<close>), conflicting requests after which the trackers differ for good (\<open>conflict_splits\<close>), a request that the snapshot of
  a recovering tracker undoes (\<open>bootstrap_overwrites\<close>), a client that dials again while it is ending (\<open>exit_reconnects\<close>),
  and a piece that is given back when nobody is left to fetch it (\<open>late_give_back\<close>).

  \<^bold>\<open>Bounds and fuel.\<close> \<open>read_messages\<close> takes the number of messages it may read: more than the bytes of the stream is enough
  (\<open>read_messages_enough\<close>), for a message has twelve bytes at least. The thread pools run a schedule, any list of thread numbers;
  \<open>pool_finishes\<close> says how often each thread has to occur for all of them to end. A round has no bound of its own:
  \<open>round_terminates\<close> bounds every schedule by a measure, and \<open>job_decides\<close> adds these up over the five rounds of \<open>kMaxRounds\<close>. Leaving a
  tracker takes six steps more than the messages that wait on the link, stopping a seeder six (\<open>tracker_exits\<close>, \<open>seeder_stop_returns\<close>). Lengths of strings and
  lists are assumed below \<open>2^32\<close> where the code writes them into 32 bits, the number of pieces plus the number of threads below \<open>2^32\<close>
  so that the shared counter does not wrap, and uploaded files below \<open>2^44\<close> bytes so that \<open>i * SHA1_HEX_LEN\<close> does not. A
  message has at most \<open>MAX_PAYLOAD\<close> bytes; where a request or a reply has to fit, the property says so. Words are little-endian in
  payloads, as on the hosts the README names.

  \<^bold>\<open>Not modelled.\<close> What the kernel and the other side answer to system calls is an input, and so are timeouts and the clock; calls
  that block are steps that wait. A critical section is one step of the model, and sending is not blocked by a reader that does not
  read. The flags that are read without a lock (\<open>__running\<close> of the seeder) are taken to be read and written at once. Sleeping, log
  lines on \<open>stderr\<close> and the printing of usage have no state of their own. In \<open>Tracker_Threads\<close> login and logout, which are not
  recorded, are left out; in \<open>Tracker_Concurrent\<close> a request is one step with its record, as in \<open>Tracker_Cluster\<close>, and the link
  stays up. \<open>Store_Lifetime\<close> takes sockets to be closed by those who opened them only, which \<open>Client_Sockets\<close> shows of the tracker
  client. What detached threads do after \<open>main\<close> has returned is undefined in C++ and not modelled. Declarations of classes are covered by the definitions of their members.
\<close>

end
